(* ===== verification/Rml_Prelude.thy ===== *)
theory Rml_Prelude
  imports Main "HOL-Library.Word"
begin

unbundle bit_operations_syntax

text \<open>
  Shared vocabulary of the development: the machine integers of the C++ sources, the
  exceptions they throw (as values of a sum type), \<^verbatim>\<open>std::to_string\<close>,
  \<^verbatim>\<open>std::string\<close> bytes, and the generic facts on words, byte lists and
  counters the component theories share.
\<close>

section \<open>Machine types\<close>

type_synonym u8 = "8 word"
type_synonym u16 = "16 word"
type_synonym u32 = "32 word"
type_synonym u64 = "64 word"

text \<open>The sources are built for 64-bit Linux: \<^verbatim>\<open>std::size_t\<close> is a 64-bit word.\<close>

type_synonym size_t = "64 word"

text \<open>
  A \<^verbatim>\<open>double\<close> is only ever copied bit by bit (\<^verbatim>\<open>std::memcpy\<close> in
  \<^verbatim>\<open>binary_codec.hpp\<close>), so its IEEE-754 bit pattern is its model.
\<close>

type_synonym f64 = "64 word"

type_synonym byte_buffer = "u8 list"

text \<open>
  A C++ container has at most \<^verbatim>\<open>SIZE_MAX\<close> elements. \<open>fits\<close> is that fact,
  and \<open>size_of\<close> is \<^verbatim>\<open>size()\<close>.
\<close>

definition size_of :: "'a list \<Rightarrow> size_t" where
  "size_of xs = of_nat (length xs)"

definition fits :: "'a list \<Rightarrow> bool" where
  "fits xs \<longleftrightarrow> length xs < 2 ^ 64"

text \<open>
  The pair of a data pointer and a length: a null pointer with any length, or a valid
  pointer to exactly that many readable bytes.
\<close>

datatype span = Null size_t | Span byte_buffer

fun span_size :: "span \<Rightarrow> size_t" where
  "span_size (Null n) = n"
| "span_size (Span bs) = size_of bs"

fun span_bytes :: "span \<Rightarrow> byte_buffer" where
  "span_bytes (Null n) = []"
| "span_bytes (Span bs) = bs"

section \<open>Exceptions as values\<close>

text \<open>
  Each exception class of the sources is a constructor carrying its \<^verbatim>\<open>what()\<close> text;
  \<open>BadAlloc\<close> stands for an allocation failure inside the standard library.
\<close>

datatype exn =
    TransportError string
  | SerializationError string
  | MiddlewareError string
  | InvalidArgument string
  | OutOfRange string
  | RuntimeError string
  | SystemError
  | BadAlloc

type_synonym 'a result = "exn + 'a"

fun rbind :: "'a result \<Rightarrow> ('a \<Rightarrow> 'b result) \<Rightarrow> 'b result" where
  "rbind (Inl e) f = Inl e"
| "rbind (Inr x) f = f x"

fun is_ok :: "'a result \<Rightarrow> bool" where
  "is_ok (Inl e) = False"
| "is_ok (Inr x) = True"

section \<open>Strings\<close>

definition byte_of_char :: "char \<Rightarrow> u8" where
  "byte_of_char c = of_nat (of_char c)"

definition char_of_byte :: "u8 \<Rightarrow> char" where
  "char_of_byte b = char_of (unat b)"

text \<open>\<^verbatim>\<open>std::to_string\<close> of an unsigned integer.\<close>

definition digit_char :: "nat \<Rightarrow> char" where
  "digit_char d = char_of (48 + d)"

fun to_string :: "nat \<Rightarrow> string" where
  "to_string n =
     (if n < 10 then [digit_char n] else to_string (n div 10) @ [digit_char (n mod 10)])"

declare to_string.simps [simp del]

section \<open>Big-endian byte strings\<close>

text \<open>
  The reference encoding every fixed-width field of the wire format is compared with:
  \<open>be_bytes n v\<close> is the \<open>n\<close>-byte network-order image of \<open>v\<close>, \<open>be_word\<close> its reading.
\<close>

definition be_bytes :: "nat \<Rightarrow> 'a::len word \<Rightarrow> byte_buffer" where
  "be_bytes n v = map (\<lambda>i. ucast (drop_bit ((n - 1 - i) * 8) v)) [0..<n]"

definition be_word :: "byte_buffer \<Rightarrow> 'a::len word" where
  "be_word bs = foldl (\<lambda>r b. push_bit 8 r OR ucast b) 0 bs"

section \<open>Counting\<close>

text \<open>How many elements of a list satisfy a predicate.\<close>

definition num :: "('a \<Rightarrow> bool) \<Rightarrow> 'a list \<Rightarrow> nat" where
  "num P xs = length (filter P xs)"

section \<open>Collections of facts\<close>

named_theorems wire \<open>evaluation of fixed-width fields in byte buffers\<close>
named_theorems sum_update \<open>sums over a list after one position has changed\<close>

section \<open>Results\<close>

lemma rbind_eq_Inr_iff [simp]:
  "rbind r f = Inr y \<longleftrightarrow> (\<exists>x. r = Inr x \<and> f x = Inr y)"
  by (cases r) auto

lemma rbind_assoc: "rbind (rbind r f) g = rbind r (\<lambda>x. rbind (f x) g)"
  by (cases r) auto

lemma is_ok_iff: "is_ok r \<longleftrightarrow> (\<exists>x. r = Inr x)"
  by (cases r) auto

lemma unat_size_of [simp]: "fits xs \<Longrightarrow> unat (size_of xs) = length xs"
  by (simp add: size_of_def fits_def unat_of_nat take_bit_eq_mod)

lemma fits_take [simp]: "fits xs \<Longrightarrow> fits (take n xs)"
  and fits_drop [simp]: "fits xs \<Longrightarrow> fits (drop n xs)"
  by (simp_all add: fits_def)

lemma fits_map [simp]: "fits (map f xs) \<longleftrightarrow> fits xs"
  by (simp add: fits_def)

text \<open>Widening casts keep the value.\<close>

lemma unat_widen [simp]:
  "LENGTH('a::len) \<le> LENGTH('b::len) \<Longrightarrow> unat (ucast (w :: 'a word) :: 'b word) = unat w"
proof -
  assume up: "LENGTH('a) \<le> LENGTH('b)"
  have "unat w < 2 ^ LENGTH('a)" by (rule unsigned_less)
  also have "(2::nat) ^ LENGTH('a) \<le> 2 ^ LENGTH('b)" using up by simp
  finally show ?thesis by (simp add: unsigned_ucast_eq take_bit_nat_eq_self)
qed

section \<open>Characters and decimal numbers\<close>

lemma char_of_byte_of_char [simp]: "char_of_byte (byte_of_char c) = c"
  by (simp add: byte_of_char_def char_of_byte_def unat_of_nat)

lemma byte_of_char_of_byte [simp]: "byte_of_char (char_of_byte b) = b"
proof -
  have "unat b mod 256 = unat b"
    using unsigned_less [of b, where 'a = nat] by simp
  then show ?thesis
    by (simp add: byte_of_char_def char_of_byte_def)
qed

lemma byte_of_char_inj [simp]: "byte_of_char c = byte_of_char d \<longleftrightarrow> c = d"
  by (metis char_of_byte_of_char)

lemma char_byte_comp [simp]: "char_of_byte \<circ> byte_of_char = id" "byte_of_char \<circ> char_of_byte = id"
  by (simp_all add: fun_eq_iff)

lemma map_char_byte [simp]: "map char_of_byte (map byte_of_char s) = s"
  by (simp add: map_idI)

lemma map_byte_char [simp]: "map byte_of_char (map char_of_byte bs) = bs"
  by (simp add: map_idI)

text \<open>Reading a decimal string back, so that \<open>to_string\<close> is seen to be injective.\<close>

definition of_string :: "string \<Rightarrow> nat" where
  "of_string s = foldl (\<lambda>a c. a * 10 + (of_char c - 48)) 0 s"

lemma digit_char_code: "d < 10 \<Longrightarrow> of_char (digit_char d) = 48 + d"
  by (simp add: digit_char_def)

lemma newline_not_digit: "d < 10 \<Longrightarrow> CHR 0x0A \<noteq> digit_char d"
proof
  assume "d < 10" and "CHR 0x0A = digit_char d"
  then have "(of_char (CHR 0x0A) :: nat) = 48 + d"
    by (simp only: digit_char_code)
  then show False by simp
qed

lemma to_string_no_newline: "CHR 0x0A \<notin> set (to_string n)"
proof (induction n rule: to_string.induct)
  case (1 n)
  have "CHR 0x0A \<noteq> digit_char (n mod 10)" by (rule newline_not_digit) simp
  with 1 show ?case
    by (subst to_string.simps) (auto dest: newline_not_digit)
qed

lemma of_string_to_string [simp]: "of_string (to_string n) = n"
proof (induction n rule: to_string.induct)
  case (1 n)
  then show ?case
    by (subst to_string.simps) (auto simp: of_string_def digit_char_code)
qed

lemma to_string_inj [simp]: "to_string m = to_string n \<longleftrightarrow> m = n"
  by (metis of_string_to_string)

section \<open>Big-endian words\<close>

lemma and_0xFF: "w AND 0xFF = take_bit 8 (w :: 'a::len word)"
  by (simp add: take_bit_eq_mask mask_eq_exp_minus_1)

lemma ucast_take_byte [wire]: "ucast (w AND 0xFF) = (ucast (w :: 'a::len word) :: u8)"
  by (intro bit_word_eqI) (auto simp: bit_simps and_0xFF)

lemma join_byte:
  fixes v :: "'a::len word"
  shows "push_bit 8 (drop_bit (m + 8) v) OR ucast (ucast (drop_bit m v) :: u8) = drop_bit m v"
proof (rule bit_word_eqI)
  fix n
  assume "n < LENGTH('a)"
  then show "bit (push_bit 8 (drop_bit (m + 8) v) OR ucast (ucast (drop_bit m v) :: u8)) n
      = bit (drop_bit m v) n"
    by (cases "n < 8") (auto simp: bit_simps dest: bit_imp_le_length)
qed

lemma length_be_bytes [simp]: "length (be_bytes n v) = n"
  by (simp add: be_bytes_def)

lemma be_word_snoc: "be_word (bs @ [b]) = push_bit 8 (be_word bs) OR ucast b"
  by (simp add: be_word_def)

text \<open>After \<open>k\<close> bytes the accumulator of the reading loop holds the top \<open>k\<close> bytes of the value.\<close>

lemma be_word_prefix:
  fixes v :: "'a::len word"
  assumes "LENGTH('a) = n * 8" and "k \<le> n"
  shows "be_word (map (\<lambda>i. ucast (drop_bit ((n - 1 - i) * 8) v)) [0..<k]) = drop_bit ((n - k) * 8) v"
  using assms(2)
proof (induction k)
  case 0
  have "drop_bit (n * 8) v = 0"
    using assms(1) by (intro bit_word_eqI) (auto simp: bit_simps dest: bit_imp_le_length)
  then show ?case by (simp add: be_word_def)
next
  case (Suc k)
  then have "n - k = Suc (n - Suc k)" by simp
  then show ?case
    using Suc join_byte [of "(n - Suc k) * 8" v] by (simp add: be_word_snoc add.commute)
qed

lemma be_word_be_bytes:
  fixes v :: "'a::len word"
  assumes "LENGTH('a) = n * 8"
  shows "be_word (be_bytes n v) = v"
  using be_word_prefix [OF assms, of n v] by (simp add: be_bytes_def)

text \<open>Byte \<open>k\<close> from the end of the input is byte \<open>k\<close> of the word that was read.\<close>

lemma be_word_byte:
  assumes "k < length bs" and "length bs * 8 \<le> LENGTH('a::len)"
  shows "ucast (drop_bit (k * 8) (be_word bs :: 'a word)) = bs ! (length bs - 1 - k)"
  using assms
proof (induction bs arbitrary: k rule: rev_induct)
  case Nil
  then show ?case by simp
next
  case (snoc b bs)
  show ?case
  proof (cases k)
    case 0
    have "(ucast (push_bit 8 (be_word bs) OR ucast b :: 'a word) :: u8) = b"
      using snoc.prems by (intro bit_word_eqI) (auto simp: bit_simps)
    with 0 show ?thesis by (simp add: be_word_snoc nth_append)
  next
    case (Suc j)
    with snoc.prems have j: "j < length bs" "length bs * 8 \<le> LENGTH('a)"
      and top: "j * 8 + 16 \<le> LENGTH('a)" by auto
    have "(ucast (drop_bit (j * 8 + 8) (push_bit 8 (be_word bs) OR ucast b :: 'a word)) :: u8)
        = ucast (drop_bit (j * 8) (be_word bs :: 'a word))"
      using top by (intro bit_word_eqI) (auto simp: bit_simps dest: bit_imp_le_length)
    moreover have "length bs - Suc j < length bs" using j by linarith
    ultimately show ?thesis
      using Suc snoc.IH [OF j] by (simp add: be_word_snoc nth_append add.commute)
  qed
qed

lemma be_bytes_be_word:
  assumes "LENGTH('a::len) = n * 8" and "length bs = n"
  shows "be_bytes n (be_word bs :: 'a word) = bs"
proof (rule nth_equalityI)
  show "length (be_bytes n (be_word bs :: 'a word)) = length bs"
    using assms by simp
next
  fix i
  assume "i < length (be_bytes n (be_word bs :: 'a word))"
  then have "i < n" by simp
  then show "be_bytes n (be_word bs :: 'a word) ! i = bs ! i"
    using be_word_byte [of "n - 1 - i" bs, where 'a = 'a] assms by (simp add: be_bytes_def)
qed

section \<open>Sums over lists of threads\<close>

text \<open>
  Concurrent components keep a list of threads (or calls) with a program counter each;
  their invariants are sums of weights. One thread moving changes one summand.
\<close>

lemma sum_list_update_nat [sum_update]:
  fixes w :: "'a \<Rightarrow> nat"
  assumes "i < length xs"
  shows "sum_list (map w (xs[i := x])) + w (xs ! i) = sum_list (map w xs) + w x"
  using assms
proof (induction xs arbitrary: i)
  case Nil
  then show ?case by simp
next
  case (Cons y ys)
  then show ?case by (cases i) (auto simp: algebra_simps)
qed

lemma sum_list_nth_le:
  fixes w :: "'a \<Rightarrow> nat"
  assumes "i < length xs"
  shows "w (xs ! i) \<le> sum_list (map w xs)"
  using assms by (simp add: member_le_sum_list)

lemma sum_list_update_diff:
  fixes w :: "'a \<Rightarrow> nat"
  assumes "i < length xs"
  shows "sum_list (map w (xs[i := x])) = sum_list (map w xs) + w x - w (xs ! i)"
  using sum_list_update_nat [OF assms, of w x] by simp

lemma num_update [sum_update]:
  "i < length xs \<Longrightarrow> num P (xs[i := x]) + of_bool (P (xs ! i)) = num P xs + of_bool (P x)"
  unfolding num_def
proof (induction xs arbitrary: i)
  case Nil
  then show ?case by simp
next
  case (Cons y ys)
  then show ?case by (cases i) auto
qed

lemma of_nat_num_update:
  assumes "i < length xs"
  shows "(of_nat (num P (xs[i := x])) :: 'b::ring_1) = of_nat (num P xs) + of_bool (P x) - of_bool (P (xs ! i))"
proof -
  have "of_nat (num P (xs[i := x]) + of_bool (P (xs ! i))) = (of_nat (num P xs + of_bool (P x)) :: 'b)"
    using num_update [OF assms, of P x] by simp
  then show ?thesis by (simp add: algebra_simps)
qed

lemma num_append [simp]: "num P (xs @ ys) = num P xs + num P ys"
  by (simp add: num_def)

lemma num_Cons [simp]: "num P (x # xs) = of_bool (P x) + num P xs"
  by (simp add: num_def)

lemma num_Nil [simp]: "num P [] = 0"
  by (simp add: num_def)

lemma num_pos: "i < length xs \<Longrightarrow> P (xs ! i) \<Longrightarrow> 0 < num P xs"
  using filter_empty_conv [of P xs] nth_mem [of i xs] by (auto simp: num_def)

lemma num_pos_mem: "x \<in> set xs \<Longrightarrow> P x \<Longrightarrow> 0 < num P xs"
  using num_pos [of _ xs P] by (auto simp: in_set_conv_nth)

lemma num_eq_0: "num P xs = 0 \<longleftrightarrow> \<not> list_ex P xs"
  by (auto simp: num_def filter_empty_conv list_ex_iff)

lemma num_map [simp]: "num P (map f xs) = num (P \<circ> f) xs"
  by (simp add: num_def filter_map)

lemma num_replicate [simp]: "num P (replicate n x) = (if P x then n else 0)"
  by (simp add: num_def)

lemma num_mono: "(\<And>x. P x \<Longrightarrow> Q x) \<Longrightarrow> num P xs \<le> num Q xs"
  unfolding num_def by (induction xs) (auto simp: le_SucI)

lemma num_const_False [simp]: "num (\<lambda>x. False) xs = 0"
  by (simp add: num_def)

lemma mem_update:
  assumes "x \<in> set xs" and "x \<noteq> xs ! i"
  shows "x \<in> set (xs[i := y])"
proof -
  obtain j where "j < length xs" "xs ! j = x" using assms(1) by (auto simp: in_set_conv_nth)
  then show ?thesis using assms(2) by (metis length_list_update nth_list_update_neq nth_mem)
qed

lemma num_same:
  "i < length xs \<Longrightarrow> P (xs ! i) = P x \<Longrightarrow> num P (xs[i := x]) = num P xs"
  using num_update [of i xs P x] by simp

lemma num_le_1_unique:
  assumes "num P xs \<le> 1" and "i < length xs" and "j < length xs" and "P (xs ! i)" and "P (xs ! j)"
  shows "i = j"
proof (rule ccontr)
  assume "i \<noteq> j"
  then have "{i, j} \<subseteq> {k. k < length xs \<and> P (xs ! k)}" and "card {i, j} = 2" using assms by auto
  then have "2 \<le> card {k. k < length xs \<and> P (xs ! k)}" by (metis card_mono finite_Collect_conjI finite_Collect_less_nat)
  then show False using assms(1) by (simp add: num_def length_filter_conv_card)
qed

lemma list_all_update: "list_all P xs \<Longrightarrow> P x \<Longrightarrow> list_all P (xs[i := x])"
  by (auto simp: list_all_iff dest: subsetD [OF set_update_subset_insert])

text \<open>A counter below a bound does not wrap around.\<close>

lemma unat_suc_less:
  assumes "x < (y :: u64)"
  shows "unat (x + 1) = unat x + 1 \<and> x + 1 \<le> y"
proof -
  have less: "unat x < unat y" using assms by (simp add: word_less_nat_alt)
  then have "unat x + 1 < 2 ^ 64" using unsigned_less [where 'a = nat, of y] by simp
  then have "unat (x + 1) = unat x + 1" by (simp add: unat_word_ariths)
  then show ?thesis using less by (simp add: word_le_nat_alt)
qed

lemma unat_suc_bound: "unat (x :: u64) + 1 \<le> unat (y :: u64) \<Longrightarrow> unat (x + 1) = unat x + 1"
  using unat_suc_less [of x y] by (simp add: word_less_nat_alt)

end
