(* ===== verification/Rml_Bytes.thy ===== *)
theory Rml_Bytes
  imports Rml_Prelude
begin

text \<open>
  Fixed-width integers in byte buffers: the \<^verbatim>\<open>write_uN\<close>/\<^verbatim>\<open>read_uN\<close> helpers of
  \<^verbatim>\<open>src/transport/frame.cpp\<close>, which work on a raw pointer, and the
  \<^verbatim>\<open>BinaryWriter\<close>/\<^verbatim>\<open>BinaryReader\<close> classes of
  \<^verbatim>\<open>serialization/binary_codec.hpp\<close>, which own a buffer and a read offset. Both are
  shown to agree with the big-endian reference of the prelude; the reader is shown to refine
  the plain list of bytes it has not consumed yet.
\<close>

section \<open>The pointer helpers of frame.cpp\<close>

text \<open>
  \<open>write_uN buf off v\<close> stores at \<^verbatim>\<open>buf.data() + off\<close>. The callers only write at constant
  offsets inside a buffer that holds the fixed header.
\<close>

definition write_u16 :: "byte_buffer \<Rightarrow> nat \<Rightarrow> u16 \<Rightarrow> byte_buffer" where
  "write_u16 out off v =
     out[off := ucast (drop_bit 8 v AND 0xFF), off + 1 := ucast (v AND 0xFF)]"

definition write_u32 :: "byte_buffer \<Rightarrow> nat \<Rightarrow> u32 \<Rightarrow> byte_buffer" where
  "write_u32 out off v =
     out[off := ucast (drop_bit 24 v AND 0xFF), off + 1 := ucast (drop_bit 16 v AND 0xFF),
         off + 2 := ucast (drop_bit 8 v AND 0xFF), off + 3 := ucast (v AND 0xFF)]"

definition write_u64 :: "byte_buffer \<Rightarrow> nat \<Rightarrow> u64 \<Rightarrow> byte_buffer" where
  "write_u64 out off v =
     fold (\<lambda>i out. out[off + i := ucast (drop_bit ((7 - i) * 8) v AND 0xFF)]) [0..<8] out"

definition read_u16 :: "byte_buffer \<Rightarrow> nat \<Rightarrow> u16" where
  "read_u16 inp off = push_bit 8 (ucast (inp ! off)) OR ucast (inp ! (off + 1))"

definition read_u32 :: "byte_buffer \<Rightarrow> nat \<Rightarrow> u32" where
  "read_u32 inp off =
     push_bit 24 (ucast (inp ! off)) OR push_bit 16 (ucast (inp ! (off + 1))) OR
     push_bit 8 (ucast (inp ! (off + 2))) OR ucast (inp ! (off + 3))"

definition read_u64 :: "byte_buffer \<Rightarrow> nat \<Rightarrow> u64" where
  "read_u64 inp off = foldl (\<lambda>r i. push_bit 8 r OR ucast (inp ! (off + i))) 0 [0..<8]"

section \<open>BinaryWriter\<close>

record writer =
  bw_buffer :: byte_buffer

definition binary_writer :: writer where
  "binary_writer = \<lparr>bw_buffer = []\<rparr>"

definition bw_write_u8 :: "u8 \<Rightarrow> writer \<Rightarrow> writer" where
  "bw_write_u8 v w = w\<lparr>bw_buffer := bw_buffer w @ [v]\<rparr>"

text \<open>The template \<^verbatim>\<open>write_unsigned<UInt>\<close>; \<^verbatim>\<open>sizeof(UInt)\<close> is \<open>LENGTH('a) div 8\<close>.\<close>

definition write_unsigned :: "'a::len word \<Rightarrow> writer \<Rightarrow> writer" where
  "write_unsigned v w =
     (let n = LENGTH('a) div 8
      in fold (\<lambda>i w. bw_write_u8 (ucast (drop_bit ((n - 1 - i) * 8) v AND 0xFF)) w) [0..<n] w)"

definition bw_write_u16 :: "u16 \<Rightarrow> writer \<Rightarrow> writer" where
  "bw_write_u16 v w = write_unsigned v w"

definition bw_write_u32 :: "u32 \<Rightarrow> writer \<Rightarrow> writer" where
  "bw_write_u32 v w = write_unsigned v w"

definition bw_write_u64 :: "u64 \<Rightarrow> writer \<Rightarrow> writer" where
  "bw_write_u64 v w = write_unsigned v w"

definition bw_write_double :: "f64 \<Rightarrow> writer \<Rightarrow> writer" where
  "bw_write_double v w = bw_write_u64 v w"

definition bw_write_bytes :: "span \<Rightarrow> writer \<Rightarrow> writer result" where
  "bw_write_bytes data w =
     (if span_size data = 0 then Inr w
      else case data of
        Null n \<Rightarrow> Inl (SerializationError ''cannot write bytes from a null pointer'')
      | Span bs \<Rightarrow> Inr (w\<lparr>bw_buffer := bw_buffer w @ bs\<rparr>))"

text \<open>\<^verbatim>\<open>take_buffer\<close> moves the buffer out and leaves the writer empty.\<close>

definition take_buffer :: "writer \<Rightarrow> byte_buffer \<times> writer" where
  "take_buffer w = (bw_buffer w, w\<lparr>bw_buffer := []\<rparr>)"

section \<open>BinaryReader\<close>

record reader =
  br_data :: span
  br_offset :: size_t

definition binary_reader :: "span \<Rightarrow> reader result" where
  "binary_reader data =
     (case data of
        Null n \<Rightarrow>
          if n \<noteq> 0 then Inl (SerializationError ''cannot read bytes from a null pointer'')
          else Inr \<lparr>br_data = data, br_offset = 0\<rparr>
      | Span bs \<Rightarrow> Inr \<lparr>br_data = data, br_offset = 0\<rparr>)"

definition br_remaining :: "reader \<Rightarrow> size_t" where
  "br_remaining r = span_size (br_data r) - br_offset r"

definition br_require :: "size_t \<Rightarrow> reader \<Rightarrow> unit result" where
  "br_require count r =
     (if span_size (br_data r) - br_offset r < count
      then Inl (SerializationError (''truncated message payload at byte '' @
                                    to_string (unat (br_offset r))))
      else Inr ())"

definition br_next :: "reader \<Rightarrow> u8 \<times> reader" where
  "br_next r =
     (span_bytes (br_data r) ! unat (br_offset r), r\<lparr>br_offset := br_offset r + 1\<rparr>)"

definition br_read_u8 :: "reader \<Rightarrow> (u8 \<times> reader) result" where
  "br_read_u8 r = rbind (br_require 1 r) (\<lambda>_. Inr (br_next r))"

definition read_unsigned :: "reader \<Rightarrow> ('a::len word \<times> reader) result" where
  "read_unsigned r =
     rbind (br_require (of_nat (LENGTH('a) div 8)) r) (\<lambda>_.
       Inr (fold (\<lambda>i (v, r). let (b, r') = br_next r in (push_bit 8 v OR ucast b, r'))
              [0..<LENGTH('a) div 8] (0, r)))"

definition br_read_u16 :: "reader \<Rightarrow> (u16 \<times> reader) result" where
  "br_read_u16 r = read_unsigned r"

definition br_read_u32 :: "reader \<Rightarrow> (u32 \<times> reader) result" where
  "br_read_u32 r = read_unsigned r"

definition br_read_u64 :: "reader \<Rightarrow> (u64 \<times> reader) result" where
  "br_read_u64 r = read_unsigned r"

definition br_read_double :: "reader \<Rightarrow> (f64 \<times> reader) result" where
  "br_read_double r = br_read_u64 r"

definition br_read_bytes :: "size_t \<Rightarrow> reader \<Rightarrow> (byte_buffer \<times> reader) result" where
  "br_read_bytes count r =
     (if count = 0 then Inr ([], r)
      else rbind (br_require count r) (\<lambda>_.
        Inr (take (unat count) (drop (unat (br_offset r)) (span_bytes (br_data r))),
             r\<lparr>br_offset := br_offset r + count\<rparr>)))"

definition br_empty :: "reader \<Rightarrow> bool" where
  "br_empty r \<longleftrightarrow> br_remaining r = 0"

definition require_consumed :: "reader \<Rightarrow> unit result" where
  "require_consumed r =
     (if \<not> br_empty r
      then Inl (SerializationError ''message payload contains trailing bytes'') else Inr ())"

section \<open>The pointer helpers agree with the reference encoding\<close>

lemma be_bytes_2: "be_bytes 2 (v :: u16) = [ucast (drop_bit 8 v), ucast v]"
  by (simp add: be_bytes_def numeral_2_eq_2)

lemma be_bytes_4:
  "be_bytes 4 (v :: u32) =
     [ucast (drop_bit 24 v), ucast (drop_bit 16 v), ucast (drop_bit 8 v), ucast v]"
  by (simp add: be_bytes_def upt_conv_Cons numeral_eq_Suc)

lemma be_bytes_8:
  "be_bytes 8 (v :: u64) =
     [ucast (drop_bit 56 v), ucast (drop_bit 48 v), ucast (drop_bit 40 v), ucast (drop_bit 32 v),
      ucast (drop_bit 24 v), ucast (drop_bit 16 v), ucast (drop_bit 8 v), ucast v]"
  by (simp add: be_bytes_def upt_conv_Cons)

lemma read_u16_be: "read_u16 bs k = be_word [bs ! k, bs ! (k + 1)]"
  by (simp add: read_u16_def be_word_def)

lemma read_u32_be: "read_u32 bs k = be_word [bs ! k, bs ! (k + 1), bs ! (k + 2), bs ! (k + 3)]"
  by (simp add: read_u32_def be_word_def push_bit_or push_bit_push_bit or.assoc)

lemma upt_0_8: "[0..<8] = [0, 1, 2, 3, 4, 5, 6, 7]"
  by (simp add: upt_conv_Cons)

lemma read_u64_be:
  "read_u64 bs k = be_word [bs ! k, bs ! (k + 1), bs ! (k + 2), bs ! (k + 3),
     bs ! (k + 4), bs ! (k + 5), bs ! (k + 6), bs ! (k + 7)]"
  by (simp only: read_u64_def be_word_def upt_0_8 foldl_Cons foldl_Nil add_0_right)

text \<open>Storing a word and reading its bytes back, and conversely.\<close>

lemma be_word_u16 [wire]: "be_word [ucast (drop_bit 8 v), ucast v] = (v :: u16)"
  using be_word_be_bytes [of 2 v] by (simp add: be_bytes_2)

lemma be_word_u32 [wire]:
  "be_word [ucast (drop_bit 24 v), ucast (drop_bit 16 v), ucast (drop_bit 8 v), ucast v] = (v :: u32)"
  using be_word_be_bytes [of 4 v] by (simp add: be_bytes_4)

lemma be_word_u64 [wire]:
  "be_word [ucast (drop_bit 56 v), ucast (drop_bit 48 v), ucast (drop_bit 40 v),
     ucast (drop_bit 32 v), ucast (drop_bit 24 v), ucast (drop_bit 16 v), ucast (drop_bit 8 v),
     ucast v] = (v :: u64)"
  using be_word_be_bytes [of 8 v] by (simp add: be_bytes_8)

lemma be_bytes_read_u16: "be_bytes 2 (read_u16 bs k) = [bs ! k, bs ! (k + 1)]"
  by (simp add: read_u16_be be_bytes_be_word)

lemma be_bytes_read_u32:
  "be_bytes 4 (read_u32 bs k) = [bs ! k, bs ! (k + 1), bs ! (k + 2), bs ! (k + 3)]"
  by (simp add: read_u32_be be_bytes_be_word)

lemma be_bytes_read_u64:
  "be_bytes 8 (read_u64 bs k) = [bs ! k, bs ! (k + 1), bs ! (k + 2), bs ! (k + 3),
     bs ! (k + 4), bs ! (k + 5), bs ! (k + 6), bs ! (k + 7)]"
  by (simp add: read_u64_be be_bytes_be_word)

lemma length_write [simp]:
  "length (write_u16 bs k v) = length bs"
  "length (write_u32 bs k w) = length bs"
  "length (write_u64 bs k x) = length bs"
  by (simp_all add: write_u16_def write_u32_def write_u64_def upt_0_8)

section \<open>The writer appends reference encodings\<close>

lemma fold_push_back:
  "fold (\<lambda>i w. bw_write_u8 (f i) w) is w = w\<lparr>bw_buffer := bw_buffer w @ map f is\<rparr>"
  by (induction "is" arbitrary: w) (auto simp: bw_write_u8_def)

lemma write_unsigned_be:
  fixes v :: "'a::len word"
  shows "write_unsigned v w = w\<lparr>bw_buffer := bw_buffer w @ be_bytes (LENGTH('a) div 8) v\<rparr>"
  by (simp add: write_unsigned_def Let_def fold_push_back be_bytes_def ucast_take_byte)

lemma bw_write_be [wire]:
  "bw_write_u64 v w = w\<lparr>bw_buffer := bw_buffer w @ be_bytes 8 v\<rparr>"
  "bw_write_double d w = w\<lparr>bw_buffer := bw_buffer w @ be_bytes 8 d\<rparr>"
  by (simp_all add: bw_write_u64_def bw_write_double_def write_unsigned_be)

section \<open>The reader refines the list of unread bytes\<close>

text \<open>
  \<open>reader_ok\<close> is the class invariant: the pointer is null only for an empty input and the
  offset never runs past the end. \<open>unread\<close> is what is still to be consumed.
\<close>

definition reader_ok :: "reader \<Rightarrow> bool" where
  "reader_ok r \<longleftrightarrow>
     fits (span_bytes (br_data r)) \<and>
     span_size (br_data r) = size_of (span_bytes (br_data r)) \<and>
     unat (br_offset r) \<le> length (span_bytes (br_data r))"

definition unread :: "reader \<Rightarrow> byte_buffer" where
  "unread r = drop (unat (br_offset r)) (span_bytes (br_data r))"

lemma binary_reader_ok:
  "binary_reader data = Inr r \<Longrightarrow> fits (span_bytes data) \<Longrightarrow> reader_ok r \<and> unread r = span_bytes data"
  by (auto simp: binary_reader_def reader_ok_def unread_def size_of_def split: span.splits if_splits)

lemma unat_remaining: "reader_ok r \<Longrightarrow> unat (br_remaining r) = length (unread r)"
  by (simp add: reader_ok_def unread_def br_remaining_def unat_sub word_le_nat_alt)

lemma br_require_iff:
  assumes "reader_ok r" and "n < 2 ^ 64"
  shows "br_require (of_nat n) r =
    (if length (unread r) < n
     then Inl (SerializationError (''truncated message payload at byte '' @
                                   to_string (unat (br_offset r))))
     else Inr ())"
proof -
  have "unat (of_nat n :: size_t) = n"
    using assms(2) by (simp add: unat_of_nat take_bit_eq_mod)
  then show ?thesis
    using unat_remaining [OF assms(1)] by (simp add: br_require_def br_remaining_def word_less_nat_alt)
qed

text \<open>Moving the offset by at most what is left keeps the invariant and drops those bytes.\<close>

lemma reader_advance:
  assumes "reader_ok r" and "n \<le> length (unread r)"
  shows "reader_ok (r\<lparr>br_offset := br_offset r + of_nat n\<rparr>)"
    and "unread (r\<lparr>br_offset := br_offset r + of_nat n\<rparr>) = drop n (unread r)"
    and "unat (br_offset r + of_nat n) = unat (br_offset r) + n"
proof -
  have bound: "unat (br_offset r) + n < 2 ^ 64"
    using assms by (auto simp: reader_ok_def unread_def fits_def)
  then have "unat (of_nat n :: size_t) = n"
    by (simp add: unat_of_nat take_bit_eq_mod)
  with bound show off: "unat (br_offset r + of_nat n) = unat (br_offset r) + n"
    by (simp add: unat_word_ariths)
  show "reader_ok (r\<lparr>br_offset := br_offset r + of_nat n\<rparr>)"
    and "unread (r\<lparr>br_offset := br_offset r + of_nat n\<rparr>) = drop n (unread r)"
    using assms off by (auto simp: reader_ok_def unread_def add.commute)
qed

lemma read_loop:
  assumes "reader_ok r" and "n \<le> length (unread r)"
  shows "fold (\<lambda>i (v, r). let (b, r') = br_next r in (push_bit 8 v OR ucast b, r')) [0..<n] (0, r)
    = (be_word (take n (unread r)), r\<lparr>br_offset := br_offset r + of_nat n\<rparr>)"
  using assms(2)
proof (induction n)
  case 0
  then show ?case by (simp add: be_word_def)
next
  case (Suc n)
  then have "unat (br_offset r + of_nat n) = unat (br_offset r) + n"
    using reader_advance(3) [OF assms(1)] by simp
  moreover have "take (Suc n) (unread r) = take n (unread r) @ [unread r ! n]"
    using Suc.prems by (simp add: take_Suc_conv_app_nth)
  ultimately show ?case
    using Suc by (simp add: br_next_def be_word_snoc unread_def add.assoc add.commute)
qed

lemma read_unsigned_eq:
  assumes "reader_ok r" and "LENGTH('a::len) div 8 < 2 ^ 64"
  shows "(read_unsigned r :: ('a word \<times> reader) result) =
    (if length (unread r) < LENGTH('a) div 8
     then Inl (SerializationError (''truncated message payload at byte '' @
                                   to_string (unat (br_offset r))))
     else Inr (be_word (take (LENGTH('a) div 8) (unread r)),
               r\<lparr>br_offset := br_offset r + of_nat (LENGTH('a) div 8)\<rparr>))"
  using assms by (auto simp: read_unsigned_def br_require_iff read_loop [unfolded Let_def] not_less)

text \<open>The form the message codecs use: a reader over \<open>bs\<close> that has consumed \<open>k\<close> bytes.\<close>

definition reader_at :: "byte_buffer \<Rightarrow> nat \<Rightarrow> reader" where
  "reader_at bs k = \<lparr>br_data = Span bs, br_offset = of_nat k\<rparr>"

lemma binary_reader_at [wire]: "binary_reader (Span bs) = Inr (reader_at bs 0)"
  by (simp add: binary_reader_def reader_at_def)

lemma reader_at_ok: "fits bs \<Longrightarrow> k \<le> length bs \<Longrightarrow> reader_ok (reader_at bs k)"
  and unread_at: "fits bs \<Longrightarrow> k \<le> length bs \<Longrightarrow> unread (reader_at bs k) = drop k bs"
  and offset_at: "fits bs \<Longrightarrow> k \<le> length bs \<Longrightarrow> unat (of_nat k :: size_t) = k"
  by (simp_all add: reader_ok_def unread_def reader_at_def fits_def unat_of_nat take_bit_eq_mod)

lemma br_read_u64_at [wire]:
  assumes "fits bs" and "k \<le> length bs"
  shows "br_read_u64 (reader_at bs k) =
    (if length bs < k + 8
     then Inl (SerializationError (''truncated message payload at byte '' @ to_string k))
     else Inr (be_word (take 8 (drop k bs)), reader_at bs (k + 8)))"
  using reader_at_ok [OF assms] unread_at [OF assms] offset_at [OF assms]
  by (auto simp: br_read_u64_def read_unsigned_eq reader_at_def)

lemma br_read_double_at [wire]: "br_read_double (reader_at bs k) = br_read_u64 (reader_at bs k)"
  by (simp add: br_read_double_def)

lemma require_consumed_at [wire]:
  assumes "fits bs" and "k \<le> length bs"
  shows "require_consumed (reader_at bs k) =
    (if k = length bs then Inr ()
     else Inl (SerializationError ''message payload contains trailing bytes''))"
proof -
  have "br_remaining (reader_at bs k) = 0 \<longleftrightarrow> unat (br_remaining (reader_at bs k)) = 0"
    by (simp add: unat_eq_0)
  then show ?thesis
    using unat_remaining [OF reader_at_ok [OF assms]] unread_at [OF assms] assms
    by (auto simp: require_consumed_def br_empty_def)
qed

section \<open>Sequences of reads\<close>

text \<open>
  The contract a client of a byte reader relies on: asking for \<open>n\<close> bytes yields exactly the
  next \<open>n\<close> unread ones, or fails without any when fewer are left.
\<close>

fun get_all :: "(nat \<Rightarrow> 's \<Rightarrow> (byte_buffer \<times> 's) result) \<Rightarrow> nat list \<Rightarrow> 's \<Rightarrow>
    (byte_buffer list \<times> 's) result" where
  "get_all get [] s = Inr ([], s)"
| "get_all get (n # ns) s =
     rbind (get n s) (\<lambda>(bs, s'). rbind (get_all get ns s') (\<lambda>(bss, s''). Inr (bs # bss, s'')))"

locale byte_source =
  fixes get :: "nat \<Rightarrow> 's \<Rightarrow> (byte_buffer \<times> 's) result"
    and pending :: "'s \<Rightarrow> byte_buffer"
    and ok :: "'s \<Rightarrow> bool"
  assumes get_enough: "ok s \<Longrightarrow> n \<le> length (pending s) \<Longrightarrow>
      \<exists>s'. get n s = Inr (take n (pending s), s') \<and> ok s' \<and> pending s' = drop n (pending s)"
    and get_short: "ok s \<Longrightarrow> length (pending s) < n \<Longrightarrow> n < 2 ^ 64 \<Longrightarrow> \<not> is_ok (get n s)"
begin

lemma get_all_enough:
  assumes "ok s" and "sum_list ns \<le> length (pending s)"
  shows "\<exists>bss s'. get_all get ns s = Inr (bss, s') \<and> ok s' \<and> map length bss = ns \<and>
     concat bss @ pending s' = pending s"
  using assms
proof (induction ns arbitrary: s)
  case Nil
  then show ?case by simp
next
  case (Cons n ns)
  then obtain s1 where s1: "get n s = Inr (take n (pending s), s1)" "ok s1"
    "pending s1 = drop n (pending s)"
    using get_enough [of s n] by auto
  moreover have "sum_list ns \<le> length (pending s1)"
    using s1(3) Cons.prems(2) by simp
  ultimately obtain bss s' where "get_all get ns s1 = Inr (bss, s')" "ok s'" "map length bss = ns"
    "concat bss @ pending s' = pending s1"
    using Cons.IH [OF s1(2)] by blast
  then show ?case
    using s1 Cons.prems by (auto simp: min_def)
qed

end

interpretation br: byte_source "\<lambda>n. br_read_bytes (of_nat n)" unread reader_ok
proof unfold_locales
  fix r n
  assume ok: "reader_ok r" and n: "n \<le> length (unread r)"
  then have small: "n < 2 ^ 64"
    by (auto simp: reader_ok_def unread_def fits_def)
  then have "unat (of_nat n :: size_t) = n"
    by (simp add: unat_of_nat take_bit_eq_mod)
  then show "\<exists>r'. br_read_bytes (of_nat n) r = Inr (take n (unread r), r') \<and>
      reader_ok r' \<and> unread r' = drop n (unread r)"
    using br_require_iff [OF ok small] reader_advance [OF ok n] n ok
    by (auto simp: br_read_bytes_def unread_def unat_eq_0 [symmetric])
next
  fix r n
  assume "reader_ok r" and "length (unread r) < n" and small: "n < (2::nat) ^ 64"
  moreover have "unat (of_nat n :: size_t) = n"
    using small by (simp add: unat_of_nat take_bit_eq_mod)
  ultimately show "\<not> is_ok (br_read_bytes (of_nat n) r)"
    using br_require_iff [of r n] by (auto simp: br_read_bytes_def)
qed

section \<open>Properties of the reader\<close>

text \<open>However a client splits its input into \<^verbatim>\<open>read_bytes\<close> calls, as long as the
  sizes add up to no more than what is left, every call succeeds, the pieces have the requested
  sizes, and together with what stays unread they are exactly the input: no byte is skipped,
  repeated or read out of bounds.\<close>

theorem reads_partition_input:
  assumes "reader_ok r" and "sum_list ns \<le> length (unread r)"
  shows "\<exists>bss r'. get_all (\<lambda>n. br_read_bytes (of_nat n)) ns r = Inr (bss, r') \<and> reader_ok r' \<and>
     map length bss = ns \<and> concat bss @ unread r' = unread r"
  using assms by (rule br.get_all_enough)

theorem reads_partition_input_witness:
  "\<exists>bss r'. get_all (\<lambda>n. br_read_bytes (of_nat n)) [1, 2] (reader_at [5, 6, 7, 8] 0) = Inr (bss, r') \<and>
     reader_ok r' \<and> map length bss = [1, 2] \<and> concat bss @ unread r' = [5, 6, 7, 8]"
proof -
  have "fits [5, 6, 7, 8 :: u8]" by (simp add: fits_def)
  then have "reader_ok (reader_at [5, 6, 7, 8] 0)" and "unread (reader_at [5, 6, 7, 8] 0) = [5, 6, 7, 8]"
    using reader_at_ok [of "[5, 6, 7, 8]" 0] unread_at [of "[5, 6, 7, 8]" 0] by simp_all
  then show ?thesis
    using reads_partition_input [of "reader_at [5, 6, 7, 8] 0" "[1, 2]"] by simp
qed

text \<open>\<^verbatim>\<open>read_unsigned\<close> yields the big-endian value of the next bytes and consumes
  exactly them, or throws the truncation error with the current offset and consumes nothing.\<close>

theorem read_unsigned_behaviour:
  assumes "reader_ok r" and "LENGTH('a::len) div 8 < 2 ^ 64"
  shows "(\<exists>r'. read_unsigned r = Inr (be_word (take (LENGTH('a) div 8) (unread r)) :: 'a word, r') \<and>
            unread r' = drop (LENGTH('a) div 8) (unread r) \<and> reader_ok r' \<and>
            LENGTH('a) div 8 \<le> length (unread r))
       \<or> (read_unsigned r :: ('a word \<times> reader) result) = Inl (SerializationError
            (''truncated message payload at byte '' @ to_string (unat (br_offset r)))) \<and>
         length (unread r) < LENGTH('a) div 8"
  using assms reader_advance [OF assms(1), of "LENGTH('a) div 8"]
  by (auto simp: read_unsigned_eq)

theorem read_unsigned_behaviour_witness:
  "\<exists>r'. read_unsigned (reader_at [1, 2, 3] 0) = Inr (be_word [1, 2] :: u16, r') \<and> unread r' = [3]"
proof -
  have "fits [1, 2, 3 :: u8]" by (simp add: fits_def)
  then have "reader_ok (reader_at [1, 2, 3] 0)" and "unread (reader_at [1, 2, 3] 0) = [1, 2, 3]"
    using reader_at_ok [of "[1, 2, 3]" 0] unread_at [of "[1, 2, 3]" 0] by simp_all
  then show ?thesis
    using read_unsigned_behaviour [where 'a = 16, of "reader_at [1, 2, 3] 0"]
    by auto
qed

end
