(* ===== verification/Rml_Message.thy ===== *)
theory Rml_Message
  imports Rml_Bytes
begin

text \<open>
  The built-in robot messages and their codecs: the structs, \<^verbatim>\<open>MessageTraits\<close> and
  \<^verbatim>\<open>fnv1a_64\<close> of \<^verbatim>\<open>core/message.hpp\<close>, the field-by-field codecs of
  \<^verbatim>\<open>src/serialization/message_codec.cpp\<close> and the \<^verbatim>\<open>serialize\<close>/\<^verbatim>\<open>deserialize\<close>
  templates of \<^verbatim>\<open>serialization/message_codec.hpp\<close>. A template parameter
  \<^verbatim>\<open>MessageT\<close> is a value of type \<open>'m message_traits\<close>, which gathers what the
  specialisations for that type provide. The locale \<open>wire_message\<close> states the contract the
  network layer relies on; each of the three message types is an interpretation of it.
\<close>

section \<open>Message structs\<close>

record imu_msg =
  imu_timestamp_ns :: u64
  imu_yaw :: f64
  imu_gyro_z :: f64

record pose_msg =
  pose_timestamp_ns :: u64
  pose_x :: f64
  pose_y :: f64
  pose_z :: f64
  pose_qx :: f64
  pose_qy :: f64
  pose_qz :: f64
  pose_qw :: f64

record control_msg =
  ctl_timestamp_ns :: u64
  ctl_linear_x :: f64
  ctl_linear_y :: f64
  ctl_angular_z :: f64

section \<open>Stable type identity\<close>

definition fnv1a_64 :: "string \<Rightarrow> u64" where
  "fnv1a_64 text =
     foldl (\<lambda>h c. (h XOR ucast (byte_of_char c)) * 1099511628211) 14695981039346656037 text"

record 'm message_traits =
  mt_type_id :: u32
  mt_name :: string
  mt_schema :: string
  mt_schema_hash :: u64
  mt_encode :: "'m \<Rightarrow> byte_buffer"
  mt_decode :: "reader \<Rightarrow> ('m \<times> reader) result"

section \<open>Field-by-field codecs\<close>

definition imu_encode :: "imu_msg \<Rightarrow> byte_buffer" where
  "imu_encode m =
     (let w = binary_writer;
          w = bw_write_u64 (imu_timestamp_ns m) w;
          w = bw_write_double (imu_yaw m) w;
          w = bw_write_double (imu_gyro_z m) w
      in fst (take_buffer w))"

definition imu_decode :: "reader \<Rightarrow> (imu_msg \<times> reader) result" where
  "imu_decode r =
     rbind (br_read_u64 r) (\<lambda>(t, r).
     rbind (br_read_double r) (\<lambda>(yaw, r).
     rbind (br_read_double r) (\<lambda>(gyro, r).
       Inr (\<lparr>imu_timestamp_ns = t, imu_yaw = yaw, imu_gyro_z = gyro\<rparr>, r))))"

definition pose_encode :: "pose_msg \<Rightarrow> byte_buffer" where
  "pose_encode m =
     (let w = binary_writer;
          w = bw_write_u64 (pose_timestamp_ns m) w;
          w = bw_write_double (pose_x m) w;
          w = bw_write_double (pose_y m) w;
          w = bw_write_double (pose_z m) w;
          w = bw_write_double (pose_qx m) w;
          w = bw_write_double (pose_qy m) w;
          w = bw_write_double (pose_qz m) w;
          w = bw_write_double (pose_qw m) w
      in fst (take_buffer w))"

definition pose_decode :: "reader \<Rightarrow> (pose_msg \<times> reader) result" where
  "pose_decode r =
     rbind (br_read_u64 r) (\<lambda>(t, r).
     rbind (br_read_double r) (\<lambda>(x, r).
     rbind (br_read_double r) (\<lambda>(y, r).
     rbind (br_read_double r) (\<lambda>(z, r).
     rbind (br_read_double r) (\<lambda>(qx, r).
     rbind (br_read_double r) (\<lambda>(qy, r).
     rbind (br_read_double r) (\<lambda>(qz, r).
     rbind (br_read_double r) (\<lambda>(qw, r).
       Inr (\<lparr>pose_timestamp_ns = t, pose_x = x, pose_y = y, pose_z = z,
             pose_qx = qx, pose_qy = qy, pose_qz = qz, pose_qw = qw\<rparr>, r)))))))))"

definition control_encode :: "control_msg \<Rightarrow> byte_buffer" where
  "control_encode m =
     (let w = binary_writer;
          w = bw_write_u64 (ctl_timestamp_ns m) w;
          w = bw_write_double (ctl_linear_x m) w;
          w = bw_write_double (ctl_linear_y m) w;
          w = bw_write_double (ctl_angular_z m) w
      in fst (take_buffer w))"

definition control_decode :: "reader \<Rightarrow> (control_msg \<times> reader) result" where
  "control_decode r =
     rbind (br_read_u64 r) (\<lambda>(t, r).
     rbind (br_read_double r) (\<lambda>(x, r).
     rbind (br_read_double r) (\<lambda>(y, r).
     rbind (br_read_double r) (\<lambda>(a, r).
       Inr (\<lparr>ctl_timestamp_ns = t, ctl_linear_x = x, ctl_linear_y = y, ctl_angular_z = a\<rparr>, r)))))"

section \<open>The specialisations of MessageTraits\<close>

definition imu_traits :: "imu_msg message_traits" where
  "imu_traits =
     (let schema = ''uint64 timestamp_ns;float64 yaw;float64 gyro_z''
      in \<lparr>mt_type_id = 0x00010001, mt_name = ''robot_middleware/ImuMsg'', mt_schema = schema,
          mt_schema_hash = fnv1a_64 schema, mt_encode = imu_encode, mt_decode = imu_decode\<rparr>)"

definition pose_traits :: "pose_msg message_traits" where
  "pose_traits =
     (let schema = ''uint64 timestamp_ns;float64 x;float64 y;float64 z;float64 qx;'' @
                   ''float64 qy;float64 qz;float64 qw''
      in \<lparr>mt_type_id = 0x00010002, mt_name = ''robot_middleware/PoseMsg'', mt_schema = schema,
          mt_schema_hash = fnv1a_64 schema, mt_encode = pose_encode, mt_decode = pose_decode\<rparr>)"

definition control_traits :: "control_msg message_traits" where
  "control_traits =
     (let schema = ''uint64 timestamp_ns;float64 linear_x;float64 linear_y;float64 angular_z''
      in \<lparr>mt_type_id = 0x00010003, mt_name = ''robot_middleware/ControlMsg'', mt_schema = schema,
          mt_schema_hash = fnv1a_64 schema, mt_encode = control_encode,
          mt_decode = control_decode\<rparr>)"

section \<open>The serialize and deserialize templates\<close>

definition serialize :: "'m message_traits \<Rightarrow> 'm \<Rightarrow> byte_buffer" where
  "serialize tr m = mt_encode tr m"

definition deserialize :: "'m message_traits \<Rightarrow> span \<Rightarrow> 'm result" where
  "deserialize tr data =
     rbind (binary_reader data) (\<lambda>r.
     rbind (mt_decode tr r) (\<lambda>(m, r).
     rbind (require_consumed r) (\<lambda>_. Inr m)))"

section \<open>The contract of a wire message\<close>

text \<open>
  What the network layer relies on: every message has the same encoded size, decoding inverts
  encoding, and encoding inverts every decoding that succeeds, so each payload has one meaning
  and each message one payload.
\<close>

locale wire_message =
  fixes tr :: "'m message_traits" and size :: nat
  assumes serialize_length: "length (serialize tr m) = size"
    and deserialize_serialize: "deserialize tr (Span (serialize tr m)) = Inr m"
    and serialize_deserialize:
      "fits bs \<Longrightarrow> deserialize tr (Span bs) = Inr m \<Longrightarrow> serialize tr m = bs"
    and deserialize_length:
      "fits bs \<Longrightarrow> length bs = size \<Longrightarrow> is_ok (deserialize tr (Span bs))"
    and size_small: "size < 2 ^ 16"
begin

lemma serialize_fits: "fits (serialize tr m)"
  using serialize_length [of m] size_small by (simp add: fits_def)

lemma serialize_inj: "serialize tr m = serialize tr m' \<longleftrightarrow> m = m'"
  by (metis deserialize_serialize sum.inject(2))

lemma deserialize_accepts_iff:
  assumes "fits bs"
  shows "is_ok (deserialize tr (Span bs)) \<longleftrightarrow> length bs = size"
  using assms deserialize_length serialize_deserialize serialize_length
  by (metis is_ok_iff)

lemma deserialize_iff:
  assumes "fits bs"
  shows "deserialize tr (Span bs) = Inr m \<longleftrightarrow> serialize tr m = bs"
  using assms deserialize_serialize serialize_deserialize by metis

end

section \<open>The three message types fulfil the contract\<close>

lemmas codec_defs = serialize_def deserialize_def take_buffer_def binary_writer_def Let_def

text \<open>Any payload of \<open>8 * n\<close> bytes is the encoding of \<open>n\<close> 64-bit fields.\<close>

lemma payload_words:
  "length bs = 8 * n \<Longrightarrow> \<exists>ws :: u64 list. length ws = n \<and> bs = concat (map (be_bytes 8) ws)"
proof (induction n arbitrary: bs)
  case 0
  then show ?case by simp
next
  case (Suc n)
  then obtain ws :: "u64 list" where "length ws = n" "drop 8 bs = concat (map (be_bytes 8) ws)"
    by (metis add_diff_cancel_left' length_drop mult_Suc_right)
  moreover have "be_bytes 8 (be_word (take 8 bs) :: u64) = take 8 bs"
    using Suc.prems by (simp add: be_bytes_be_word)
  ultimately have "length (be_word (take 8 bs) # ws) = Suc n \<and>
      bs = concat (map (be_bytes 8) (be_word (take 8 bs) # ws))"
    by (metis append_take_drop_id concat.simps(2) length_Cons list.simps(9))
  then show ?case by blast
qed

lemma fits_short: "length bs < 2 ^ 16 \<Longrightarrow> fits bs"
  by (simp add: fits_def)

lemma be_word_8 [wire]: "be_word (be_bytes 8 (v :: u64)) = v"
  by (simp add: be_word_be_bytes)

subsection \<open>ImuMsg\<close>

lemma imu_serialize:
  "serialize imu_traits m =
     be_bytes 8 (imu_timestamp_ns m) @ be_bytes 8 (imu_yaw m) @ be_bytes 8 (imu_gyro_z m)"
  by (simp add: codec_defs imu_traits_def imu_encode_def wire)

lemma imu_serialize_surj:
  assumes "length bs = 24"
  shows "\<exists>m. serialize imu_traits m = bs"
proof -
  from assms obtain a b c :: u64 where "bs = be_bytes 8 a @ be_bytes 8 b @ be_bytes 8 c"
    using payload_words [of bs 3] by (auto simp: length_Suc_conv numeral_3_eq_3)
  then have "serialize imu_traits \<lparr>imu_timestamp_ns = a, imu_yaw = b, imu_gyro_z = c\<rparr> = bs"
    by (simp add: imu_serialize)
  then show ?thesis ..
qed

lemma imu_roundtrip: "deserialize imu_traits (Span (serialize imu_traits m)) = Inr m"
proof -
  have "fits (serialize imu_traits m)" by (simp add: imu_serialize fits_short)
  then show ?thesis
    unfolding imu_serialize by (simp add: codec_defs imu_traits_def imu_decode_def wire)
qed

lemma imu_bad_length:
  assumes "fits bs" and "length bs \<noteq> 24"
  shows "deserialize imu_traits (Span bs) = Inl (SerializationError
    (if length bs < 24 then ''truncated message payload at byte '' @ to_string (length bs div 8 * 8)
     else ''message payload contains trailing bytes''))"
proof -
  from assms(2) consider "length bs < 8" | "8 \<le> length bs" "length bs < 16"
    | "16 \<le> length bs" "length bs < 24" | "24 < length bs" by linarith
  then show ?thesis
    by cases (use assms(1) in \<open>simp_all add: codec_defs imu_traits_def imu_decode_def wire div_nat_eqI\<close>)
qed

subsection \<open>ControlMsg\<close>

lemma control_serialize:
  "serialize control_traits m =
     be_bytes 8 (ctl_timestamp_ns m) @ be_bytes 8 (ctl_linear_x m) @ be_bytes 8 (ctl_linear_y m) @
     be_bytes 8 (ctl_angular_z m)"
  by (simp add: codec_defs control_traits_def control_encode_def wire)

lemma control_serialize_surj:
  assumes "length bs = 32"
  shows "\<exists>m. serialize control_traits m = bs"
proof -
  from assms obtain a b c d :: u64
    where "bs = be_bytes 8 a @ be_bytes 8 b @ be_bytes 8 c @ be_bytes 8 d"
    using payload_words [of bs 4] by (auto simp: length_Suc_conv numeral_eq_Suc)
  then have "serialize control_traits
      \<lparr>ctl_timestamp_ns = a, ctl_linear_x = b, ctl_linear_y = c, ctl_angular_z = d\<rparr> = bs"
    by (simp add: control_serialize)
  then show ?thesis ..
qed

lemma control_roundtrip: "deserialize control_traits (Span (serialize control_traits m)) = Inr m"
proof -
  have "fits (serialize control_traits m)" by (simp add: control_serialize fits_short)
  then show ?thesis
    unfolding control_serialize
    by (simp add: codec_defs control_traits_def control_decode_def wire)
qed

lemma control_bad_length:
  assumes "fits bs" and "length bs \<noteq> 32"
  shows "deserialize control_traits (Span bs) = Inl (SerializationError
    (if length bs < 32 then ''truncated message payload at byte '' @ to_string (length bs div 8 * 8)
     else ''message payload contains trailing bytes''))"
proof -
  from assms(2) consider "length bs < 8" | "8 \<le> length bs" "length bs < 16"
    | "16 \<le> length bs" "length bs < 24" | "24 \<le> length bs" "length bs < 32"
    | "32 < length bs" by linarith
  then show ?thesis
    by cases (use assms(1) in
      \<open>simp_all add: codec_defs control_traits_def control_decode_def wire div_nat_eqI\<close>)
qed

subsection \<open>PoseMsg\<close>

lemma pose_serialize:
  "serialize pose_traits m =
     be_bytes 8 (pose_timestamp_ns m) @ be_bytes 8 (pose_x m) @ be_bytes 8 (pose_y m) @
     be_bytes 8 (pose_z m) @ be_bytes 8 (pose_qx m) @ be_bytes 8 (pose_qy m) @
     be_bytes 8 (pose_qz m) @ be_bytes 8 (pose_qw m)"
  by (simp add: codec_defs pose_traits_def pose_encode_def wire)

lemma pose_serialize_surj:
  assumes "length bs = 64"
  shows "\<exists>m. serialize pose_traits m = bs"
proof -
  from assms obtain a b c d e f g h :: u64
    where "bs = be_bytes 8 a @ be_bytes 8 b @ be_bytes 8 c @ be_bytes 8 d @
      be_bytes 8 e @ be_bytes 8 f @ be_bytes 8 g @ be_bytes 8 h"
    using payload_words [of bs 8] by (auto simp: length_Suc_conv numeral_eq_Suc)
  then have "serialize pose_traits
      \<lparr>pose_timestamp_ns = a, pose_x = b, pose_y = c, pose_z = d,
       pose_qx = e, pose_qy = f, pose_qz = g, pose_qw = h\<rparr> = bs"
    by (simp add: pose_serialize)
  then show ?thesis ..
qed

lemma pose_roundtrip: "deserialize pose_traits (Span (serialize pose_traits m)) = Inr m"
proof -
  have "fits (serialize pose_traits m)" by (simp add: pose_serialize fits_short)
  then show ?thesis
    unfolding pose_serialize by (simp add: codec_defs pose_traits_def pose_decode_def wire)
qed

lemma pose_bad_length:
  assumes "fits bs" and "length bs \<noteq> 64"
  shows "deserialize pose_traits (Span bs) = Inl (SerializationError
    (if length bs < 64 then ''truncated message payload at byte '' @ to_string (length bs div 8 * 8)
     else ''message payload contains trailing bytes''))"
proof -
  from assms(2) consider "length bs < 8" | "8 \<le> length bs" "length bs < 16"
    | "16 \<le> length bs" "length bs < 24" | "24 \<le> length bs" "length bs < 32"
    | "32 \<le> length bs" "length bs < 40" | "40 \<le> length bs" "length bs < 48"
    | "48 \<le> length bs" "length bs < 56" | "56 \<le> length bs" "length bs < 64"
    | "64 < length bs" by linarith
  then show ?thesis
    by cases (use assms(1) in
      \<open>simp_all add: codec_defs pose_traits_def pose_decode_def wire div_nat_eqI\<close>)
qed

subsection \<open>Interpretations\<close>

text \<open>A codec whose encodings are exactly the payloads of one length fulfils the contract.\<close>

lemma wire_messageI:
  assumes len: "\<And>m. length (serialize tr m) = n"
    and trip: "\<And>m. deserialize tr (Span (serialize tr m)) = Inr m"
    and surj: "\<And>bs. length bs = n \<Longrightarrow> \<exists>m. serialize tr m = bs"
    and reject: "\<And>bs. fits bs \<Longrightarrow> length bs \<noteq> n \<Longrightarrow> \<not> is_ok (deserialize tr (Span bs))"
    and small: "n < 2 ^ 16"
  shows "wire_message tr n"
proof
  fix bs m
  assume "fits bs" and ok: "deserialize tr (Span bs) = Inr m"
  then have "length bs = n" using reject by (metis is_ok.simps(2))
  then obtain m' where "serialize tr m' = bs" using surj by blast
  then show "serialize tr m = bs" using ok trip [of m'] by simp
next
  fix bs :: byte_buffer
  assume "length bs = n"
  then show "is_ok (deserialize tr (Span bs))"
    using surj [of bs] trip by (metis is_ok.simps(2))
qed (use len trip small in auto)

interpretation imu: wire_message imu_traits 24
  by (rule wire_messageI) (simp_all add: imu_roundtrip imu_serialize_surj imu_bad_length,
      simp add: imu_serialize)

interpretation control: wire_message control_traits 32
  by (rule wire_messageI) (simp_all add: control_roundtrip control_serialize_surj control_bad_length,
      simp add: control_serialize)

interpretation pose: wire_message pose_traits 64
  by (rule wire_messageI) (simp_all add: pose_roundtrip pose_serialize_surj pose_bad_length,
      simp add: pose_serialize)

lemma traits_type_id:
  "mt_type_id imu_traits = 0x00010001" "mt_type_id pose_traits = 0x00010002"
  "mt_type_id control_traits = 0x00010003"
  by (simp_all add: imu_traits_def pose_traits_def control_traits_def Let_def)

section \<open>Properties of the message codecs\<close>

text \<open>For each built-in message type, \<^verbatim>\<open>deserialize\<close> accepts a payload exactly when
  it is the serialisation of the message it returns: decoding inverts encoding, and no second
  payload decodes to the same message.\<close>

theorem codecs_bijective:
  assumes "fits bs"
  shows "(deserialize imu_traits (Span bs) = Inr imu \<longleftrightarrow> serialize imu_traits imu = bs) \<and>
    (deserialize pose_traits (Span bs) = Inr pose \<longleftrightarrow> serialize pose_traits pose = bs) \<and>
    (deserialize control_traits (Span bs) = Inr ctl \<longleftrightarrow> serialize control_traits ctl = bs)"
  using imu.deserialize_iff [OF assms] pose.deserialize_iff [OF assms]
    control.deserialize_iff [OF assms] by blast

theorem codecs_bijective_witness:
  "deserialize imu_traits (Span (serialize imu_traits \<lparr>imu_timestamp_ns = 1, imu_yaw = 2, imu_gyro_z = 3\<rparr>))
     = Inr \<lparr>imu_timestamp_ns = 1, imu_yaw = 2, imu_gyro_z = 3\<rparr>"
  using codecs_bijective [OF imu.serialize_fits] by blast

text \<open>A payload of any other length is rejected, never misread: a short one with the offset of
  the first field that does not fit, a long one as trailing bytes.\<close>

theorem codecs_reject_bad_length:
  assumes "fits bs"
  shows "(length bs \<noteq> 24 \<longrightarrow> deserialize imu_traits (Span bs) = Inl (SerializationError
      (if length bs < 24 then ''truncated message payload at byte '' @ to_string (length bs div 8 * 8)
       else ''message payload contains trailing bytes''))) \<and>
    (length bs \<noteq> 64 \<longrightarrow> deserialize pose_traits (Span bs) = Inl (SerializationError
      (if length bs < 64 then ''truncated message payload at byte '' @ to_string (length bs div 8 * 8)
       else ''message payload contains trailing bytes''))) \<and>
    (length bs \<noteq> 32 \<longrightarrow> deserialize control_traits (Span bs) = Inl (SerializationError
      (if length bs < 32 then ''truncated message payload at byte '' @ to_string (length bs div 8 * 8)
       else ''message payload contains trailing bytes'')))"
  using imu_bad_length [OF assms] pose_bad_length [OF assms] control_bad_length [OF assms] by blast

theorem codecs_reject_bad_length_witness:
  "deserialize imu_traits (Span (replicate 25 0)) =
     Inl (SerializationError ''message payload contains trailing bytes'')"
  using codecs_reject_bad_length [of "replicate 25 0"] by (simp add: fits_def)

text \<open>The compile-time schema hashes: \<^verbatim>\<open>fnv1a_64\<close> of the three schema strings gives
  three different 64-bit values, the ones every build puts on the wire.\<close>

theorem schema_hashes:
  "mt_schema_hash imu_traits = 2932764445089564302 \<and>
   mt_schema_hash pose_traits = 3391867378731660177 \<and>
   mt_schema_hash control_traits = 6655939237000119190"
  by code_simp

end
