(* ===== verification/Rml_Crc.thy ===== *)
theory Rml_Crc
  imports Rml_Prelude
begin

text \<open>
  The CRC-32 of \<^verbatim>\<open>src/transport/frame.cpp\<close> (\<^verbatim>\<open>crc32\<close>): the bitwise loop with
  the branch-free mask, and what it detects. The update is linear over XOR and invertible, from
  which it follows that two inputs of the same length that differ only inside a window of four
  bytes never share a checksum.
\<close>

section \<open>The checksum loop\<close>

definition crc_bit :: "u32 \<Rightarrow> u32" where
  "crc_bit crc =
     (let mask = 0 - (crc AND 1)
      in drop_bit 1 crc XOR (0xEDB88320 AND mask))"

definition crc_byte :: "u8 \<Rightarrow> u32 \<Rightarrow> u32" where
  "crc_byte b crc = (crc_bit ^^ 8) (crc XOR ucast b)"

definition crc32 :: "byte_buffer \<Rightarrow> u32" where
  "crc32 data = NOT (fold crc_byte data 0xFFFFFFFF)"

section \<open>Linearity and invertibility of one bit step\<close>

lemma crc_bit_if: "crc_bit c = drop_bit 1 c XOR (if bit c 0 then 0xEDB88320 else 0)"
proof -
  have "c AND 1 = (if bit c 0 then 1 else 0)"
    by (simp add: and_one_eq bit_0 mod_2_eq_odd)
  then show ?thesis by (simp add: crc_bit_def)
qed

lemma crc_bit_xor: "crc_bit (a XOR b) = crc_bit a XOR crc_bit b"
  by (simp add: crc_bit_if bit_xor_iff ac_simps)

lemma crc_bit_top: "bit (crc_bit c) 31 = bit c 0"
  by (auto simp: crc_bit_if bit_simps dest: bit_imp_le_length)

lemma crc_bit_0 [simp]: "crc_bit 0 = 0"
  by (simp add: crc_bit_if)

lemma crc_bit_eq_0: "crc_bit c = 0 \<Longrightarrow> c = 0"
proof -
  assume c: "crc_bit c = 0"
  then have "\<not> bit c 0" using crc_bit_top [of c] by simp
  with c have "drop_bit 1 c = 0" by (simp add: crc_bit_if)
  with \<open>\<not> bit c 0\<close> show "c = 0"
    by (metis bit_0 bits_ident drop_bit_eq_div mult_zero_left push_bit_of_0 even_iff_mod_2_eq_zero
        power_one_right take_bit_eq_mod add_0)
qed

lemma crc_bits_xor: "(crc_bit ^^ n) (a XOR b) = (crc_bit ^^ n) a XOR (crc_bit ^^ n) b"
  by (induction n) (simp_all add: crc_bit_xor)

lemma crc_bits_eq_0: "(crc_bit ^^ n) c = 0 \<Longrightarrow> c = 0"
  by (induction n) (auto dest: crc_bit_eq_0)

lemma xor_eq_0: "a XOR b = 0 \<longleftrightarrow> a = (b :: 'a::len word)"
  by (metis xor.right_neutral xor_self_eq xor.assoc)

lemma xor_cancel: "a XOR c = b XOR c \<longleftrightarrow> a = (b :: 'a::len word)"
proof
  assume "a XOR c = b XOR c"
  then have "(a XOR c) XOR c = (b XOR c) XOR c" by simp
  then show "a = b" by (simp add: xor.assoc)
qed simp

lemma crc_bits_inj: "(crc_bit ^^ n) a = (crc_bit ^^ n) b \<longleftrightarrow> a = b"
  using crc_bits_eq_0 [of n "a XOR b"] by (auto simp: crc_bits_xor xor_eq_0)

lemma take_bit_mono: "take_bit m y = y \<Longrightarrow> m \<le> n \<Longrightarrow> take_bit n (y :: u32) = y"
  by (metis min.absorb2 take_bit_take_bit)

lemma drop_push:
  assumes "take_bit (32 - m) y = y"
  shows "drop_bit m (push_bit m y) = (y :: u32)"
proof (rule bit_word_eqI)
  fix n
  assume "n < LENGTH(32)"
  then show "bit (drop_bit m (push_bit m y)) n = bit y n"
    using arg_cong [OF assms, of "\<lambda>w. bit w n"] by (auto simp: bit_simps)
qed

text \<open>On a value whose low \<open>n\<close> bits are zero, \<open>n\<close> steps only shift.\<close>

lemma crc_bits_push: "take_bit (32 - n) y = y \<Longrightarrow> n \<le> 32 \<Longrightarrow> (crc_bit ^^ n) (push_bit n y) = y"
proof (induction n arbitrary: y)
  case 0
  then show ?case by simp
next
  case (Suc n)
  have "(crc_bit ^^ Suc n) (push_bit (Suc n) y) = crc_bit ((crc_bit ^^ n) (push_bit n (push_bit 1 y)))"
    by simp
  also have "take_bit (32 - n) (push_bit 1 y) = push_bit 1 y"
    using Suc.prems by (metis Suc_diff_Suc Suc_le_lessD plus_1_eq_Suc push_bit_take_bit)
  then have "(crc_bit ^^ n) (push_bit n (push_bit 1 y)) = push_bit 1 y"
    using Suc.prems by (intro Suc.IH) auto
  also have "crc_bit (push_bit 1 y) = y"
  proof -
    have "take_bit (32 - 1) y = y"
      using Suc.prems(1) by (rule take_bit_mono) simp
    then have "drop_bit 1 (push_bit 1 y) = y" by (rule drop_push)
    then show ?thesis by (simp add: crc_bit_if bit_0)
  qed
  finally show ?case .
qed

lemma crc_byte_unroll:
  "crc_byte b s =
     crc_bit (crc_bit (crc_bit (crc_bit (crc_bit (crc_bit (crc_bit (crc_bit (s XOR ucast b))))))))"
  by (simp add: crc_byte_def numeral_eq_Suc)

section \<open>Whole inputs\<close>

lemma crc_byte_xor: "crc_byte (a XOR b) (s XOR t) = crc_byte a s XOR crc_byte b t"
proof -
  have "(s XOR t) XOR ucast (a XOR b) = (s XOR ucast a) XOR (t XOR ucast b)"
    by (rule bit_word_eqI) (auto simp: bit_simps)
  then show ?thesis by (simp only: crc_byte_def crc_bits_xor [symmetric])
qed

lemma crc_fold_xor:
  "length xs = length ys \<Longrightarrow>
   fold crc_byte (map2 (XOR) xs ys) (s XOR t) = fold crc_byte xs s XOR fold crc_byte ys t"
  by (induction xs ys arbitrary: s t rule: list_induct2) (simp_all add: crc_byte_xor)

lemma crc_byte_inj: "crc_byte b s = crc_byte b t \<longleftrightarrow> s = t"
  by (simp add: crc_byte_def crc_bits_inj xor_cancel)

lemma crc_fold_inj: "fold crc_byte bs s = fold crc_byte bs t \<longleftrightarrow> s = t"
  by (induction bs arbitrary: s t) (simp_all add: crc_byte_inj)

text \<open>
  A difference of at most four bytes cannot cancel out: reading the register backwards, each
  byte moves into a higher byte of the register and the bytes never overlap.
\<close>

lemma byte_register_split:
  assumes "ucast (e :: u8) XOR push_bit 8 y = (0 :: u32)" and "take_bit 24 y = y"
  shows "e = 0 \<and> y = 0"
proof -
  have eq: "(ucast e :: u32) = push_bit 8 y" using assms(1) by (simp add: xor_eq_0)
  have "bit e n = False" if "n < 8" for n
    using that arg_cong [OF eq, of "\<lambda>w. bit w n"] by (simp add: bit_simps)
  then have e: "e = 0" by (intro bit_word_eqI) auto
  have "bit y n = False" if "n < 32" for n
    using that e arg_cong [OF eq, of "\<lambda>w. bit w (n + 8)"] arg_cong [OF assms(2), of "\<lambda>w. bit w n"]
    by (auto simp: bit_simps dest: bit_imp_le_length)
  then have "y = 0" by (intro bit_word_eqI) auto
  with e show ?thesis ..
qed

lemma take_bit_byte: "8 \<le> n \<Longrightarrow> take_bit n (ucast (e :: u8) :: u32) = ucast e"
  by (rule bit_word_eqI) (auto simp: bit_simps dest: bit_imp_le_length)

lemma crc_fold_zero:
  assumes "length es \<le> 4" and "fold crc_byte es 0 = y" and "take_bit (8 * (4 - length es)) y = y"
  shows "set es \<subseteq> {0} \<and> y = 0"
  using assms
proof (induction es arbitrary: y rule: rev_induct)
  case Nil
  then show ?case by simp
next
  case (snoc e es)
  let ?r = "fold crc_byte es 0"
  let ?k = "8 * (4 - length (es @ [e]))"
  have k: "8 * (4 - length es) = ?k + 8" using snoc.prems(1) by simp
  have small: "take_bit 24 y = y"
    using snoc.prems(3) by (rule take_bit_mono) simp
  have "(crc_bit ^^ 8) (?r XOR ucast e) = (crc_bit ^^ 8) (push_bit 8 y)"
    using snoc.prems(2) small by (simp add: crc_byte_def [of e] crc_bits_push)
  then have "?r XOR ucast e = push_bit 8 y" by (simp only: crc_bits_inj)
  then have r: "?r = ucast e XOR push_bit 8 y"
    using xor_cancel [of ?r "ucast e" "ucast e XOR push_bit 8 y"] by (simp add: ac_simps)
  have "take_bit (8 * (4 - length es)) (ucast e XOR push_bit 8 y) = ucast e XOR push_bit 8 y"
    unfolding k using snoc.prems(3)
    by (simp add: take_bit_xor take_bit_push_bit take_bit_byte)
  with snoc r have "set es \<subseteq> {0} \<and> ucast e XOR push_bit 8 y = 0" by simp
  then show ?case using byte_register_split [OF _ small] by auto
qed

lemma map2_xor_zero: "length a = length b \<Longrightarrow> set (map2 (XOR) a b) \<subseteq> {0} \<Longrightarrow> a = (b :: u8 list)"
  by (induction a b rule: list_induct2) (auto simp: xor_eq_0)

lemma crc32_window_inj:
  assumes "length a = length b" and "length a \<le> 4"
    and "crc32 (pre @ a @ post) = crc32 (pre @ b @ post)"
  shows "a = b"
proof -
  let ?s = "fold crc_byte pre 0xFFFFFFFF"
  have "fold crc_byte a ?s = fold crc_byte b ?s"
    using assms(3) by (simp add: crc32_def crc_fold_inj)
  then have "fold crc_byte (map2 (XOR) a b) 0 = 0"
    using crc_fold_xor [OF assms(1), of ?s ?s] by simp
  then have "set (map2 (XOR) a b) \<subseteq> {0}"
    using crc_fold_zero [of "map2 (XOR) a b" 0] assms by simp
  then show ?thesis by (rule map2_xor_zero [OF assms(1)])
qed

end
