(* ===== verification/Rml_Frame.thy ===== *)
theory Rml_Frame
  imports Rml_Bytes Rml_Crc
begin

text \<open>
  The version 1 wire frame: \<^verbatim>\<open>transport/frame.hpp\<close> and \<^verbatim>\<open>src/transport/frame.cpp\<close>.
  A 56-byte header of fixed-width big-endian fields is followed by the topic and the payload;
  the header holds a CRC-32 of both. Sizes are \<^verbatim>\<open>std::size_t\<close> words, so the overflow
  check of \<^verbatim>\<open>checked_frame_size\<close> is modelled with the wrap-around it guards against.
\<close>

section \<open>Frames and limits\<close>

record frame_limits =
  max_topic_size :: size_t
  max_payload_size :: size_t
  max_frame_size :: size_t

definition default_limits :: frame_limits where
  "default_limits =
     \<lparr>max_topic_size = 65535, max_payload_size = 16 * 1024 * 1024,
      max_frame_size = 56 + 65535 + 16 * 1024 * 1024\<rparr>"

record frame =
  fr_flags :: u8
  fr_type_id :: u32
  fr_schema_hash :: u64
  fr_sequence :: u64
  fr_publisher_id :: u64
  fr_send_time_ns :: u64
  fr_topic :: string
  fr_payload :: byte_buffer

definition empty_frame :: frame where
  "empty_frame =
     \<lparr>fr_flags = 0, fr_type_id = 0, fr_schema_hash = 0, fr_sequence = 0, fr_publisher_id = 0,
      fr_send_time_ns = 0, fr_topic = [], fr_payload = []\<rparr>"

definition kMagic :: u32 where "kMagic = 0x524D574C"
definition kVersion :: u8 where "kVersion = 1"
definition kHeaderSize :: u16 where "kHeaderSize = 56"

definition kMagicOffset :: nat where "kMagicOffset = 0"
definition kVersionOffset :: nat where "kVersionOffset = 4"
definition kFlagsOffset :: nat where "kFlagsOffset = 5"
definition kHeaderSizeOffset :: nat where "kHeaderSizeOffset = 6"
definition kTopicSizeOffset :: nat where "kTopicSizeOffset = 8"
definition kReservedOffset :: nat where "kReservedOffset = 10"
definition kPayloadSizeOffset :: nat where "kPayloadSizeOffset = 12"
definition kTypeIdOffset :: nat where "kTypeIdOffset = 16"
definition kSchemaHashOffset :: nat where "kSchemaHashOffset = 20"
definition kSequenceOffset :: nat where "kSequenceOffset = 28"
definition kPublisherIdOffset :: nat where "kPublisherIdOffset = 36"
definition kSendTimeOffset :: nat where "kSendTimeOffset = 44"
definition kCrcOffset :: nat where "kCrcOffset = 52"

lemmas frame_consts = kMagic_def kVersion_def kHeaderSize_def kMagicOffset_def kVersionOffset_def
  kFlagsOffset_def kHeaderSizeOffset_def kTopicSizeOffset_def kReservedOffset_def
  kPayloadSizeOffset_def kTypeIdOffset_def kSchemaHashOffset_def kSequenceOffset_def
  kPublisherIdOffset_def kSendTimeOffset_def kCrcOffset_def

section \<open>Size checks\<close>

definition require_pointer :: "span \<Rightarrow> unit result" where
  "require_pointer data =
     (case data of
        Null n \<Rightarrow> if n \<noteq> 0 then Inl (TransportError ''frame data pointer is null'') else Inr ()
      | Span bs \<Rightarrow> Inr ())"

definition size_max :: size_t where
  "size_max = 0xFFFFFFFFFFFFFFFF"

definition checked_frame_size :: "size_t \<Rightarrow> size_t \<Rightarrow> frame_limits \<Rightarrow> size_t result" where
  "checked_frame_size topic_size payload_size limits =
     (if topic_size > 0xFFFF
      then Inl (TransportError ''topic is too large for the wire format'')
      else if payload_size > 0xFFFFFFFF
      then Inl (TransportError ''payload is too large for the wire format'')
      else if topic_size > max_topic_size limits
      then Inl (TransportError ''topic exceeds configured size limit'')
      else if payload_size > max_payload_size limits
      then Inl (TransportError ''payload exceeds configured size limit'')
      else let header_size = ucast kHeaderSize
      in if topic_size > size_max - header_size \<or>
            payload_size > size_max - header_size - topic_size
         then Inl (TransportError ''declared frame size overflows size_t'')
         else let total_size = header_size + topic_size + payload_size
         in if total_size > max_frame_size limits
            then Inl (TransportError ''frame exceeds configured size limit'')
            else Inr total_size)"

definition frame_size_from_header :: "span \<Rightarrow> frame_limits \<Rightarrow> size_t result" where
  "frame_size_from_header sp limits =
     rbind (require_pointer sp) (\<lambda>_.
     let data = span_bytes sp
     in if span_size sp < ucast kHeaderSize
        then Inl (TransportError ''truncated frame header'')
        else if read_u32 data kMagicOffset \<noteq> kMagic
        then Inl (TransportError ''invalid frame magic'')
        else if data ! kVersionOffset \<noteq> kVersion
        then Inl (TransportError ''unsupported frame version'')
        else if read_u16 data kHeaderSizeOffset \<noteq> kHeaderSize
        then Inl (TransportError ''invalid frame header size'')
        else if read_u16 data kReservedOffset \<noteq> 0
        then Inl (TransportError ''reserved frame header field must be zero'')
        else checked_frame_size (ucast (read_u16 data kTopicSizeOffset))
               (ucast (read_u32 data kPayloadSizeOffset)) limits)"

section \<open>Encoding and decoding\<close>

text \<open>\<^verbatim>\<open>std::copy\<close> of \<open>xs\<close> to position \<open>off\<close> of a buffer.\<close>

definition copy_into :: "byte_buffer \<Rightarrow> nat \<Rightarrow> byte_buffer \<Rightarrow> byte_buffer" where
  "copy_into buf off xs = take off buf @ xs @ drop (off + length xs) buf"

definition encode_frame :: "frame \<Rightarrow> frame_limits \<Rightarrow> byte_buffer result" where
  "encode_frame frame limits =
     rbind (checked_frame_size (size_of (fr_topic frame)) (size_of (fr_payload frame)) limits)
       (\<lambda>total_size.
     let encoded = replicate (unat total_size) 0;
         encoded = write_u32 encoded kMagicOffset kMagic;
         encoded = encoded[kVersionOffset := kVersion];
         encoded = encoded[kFlagsOffset := fr_flags frame];
         encoded = write_u16 encoded kHeaderSizeOffset kHeaderSize;
         encoded = write_u16 encoded kTopicSizeOffset (ucast (size_of (fr_topic frame)));
         encoded = write_u16 encoded kReservedOffset 0;
         encoded = write_u32 encoded kPayloadSizeOffset (ucast (size_of (fr_payload frame)));
         encoded = write_u32 encoded kTypeIdOffset (fr_type_id frame);
         encoded = write_u64 encoded kSchemaHashOffset (fr_schema_hash frame);
         encoded = write_u64 encoded kSequenceOffset (fr_sequence frame);
         encoded = write_u64 encoded kPublisherIdOffset (fr_publisher_id frame);
         encoded = write_u64 encoded kSendTimeOffset (fr_send_time_ns frame);
         body = unat kHeaderSize;
         encoded = copy_into encoded body (map byte_of_char (fr_topic frame));
         encoded = copy_into encoded (body + length (fr_topic frame)) (fr_payload frame);
         checksum = crc32 (take (unat (total_size - ucast kHeaderSize))
                             (drop (unat kHeaderSize) encoded));
         encoded = write_u32 encoded kCrcOffset checksum
     in Inr encoded)"

definition decode_frame :: "span \<Rightarrow> frame_limits \<Rightarrow> frame result" where
  "decode_frame sp limits =
     rbind (require_pointer sp) (\<lambda>_.
     rbind (frame_size_from_header sp limits) (\<lambda>declared_size.
     let data = span_bytes sp; size = span_size sp
     in if size \<noteq> declared_size
        then Inl (TransportError (''frame length mismatch: declared '' @
               to_string (unat declared_size) @ '' bytes, received '' @ to_string (unat size)))
        else let expected_crc = read_u32 data kCrcOffset;
                 actual_crc = crc32 (take (unat (size - ucast kHeaderSize))
                                       (drop (unat kHeaderSize) data))
        in if actual_crc \<noteq> expected_crc
           then Inl (TransportError ''frame CRC32 mismatch'')
           else let topic_size = unat (read_u16 data kTopicSizeOffset);
                    payload_size = unat (read_u32 data kPayloadSizeOffset);
                    topic_begin = drop (unat kHeaderSize) data;
                    payload_begin = drop topic_size topic_begin
           in Inr \<lparr>fr_flags = data ! kFlagsOffset,
                   fr_type_id = read_u32 data kTypeIdOffset,
                   fr_schema_hash = read_u64 data kSchemaHashOffset,
                   fr_sequence = read_u64 data kSequenceOffset,
                   fr_publisher_id = read_u64 data kPublisherIdOffset,
                   fr_send_time_ns = read_u64 data kSendTimeOffset,
                   fr_topic = map char_of_byte (take topic_size topic_begin),
                   fr_payload = take payload_size payload_begin\<rparr>))"

section \<open>The size check\<close>

text \<open>A frame object of the program: its topic and payload are C++ containers.\<close>

definition frame_ok :: "frame \<Rightarrow> bool" where
  "frame_ok f \<longleftrightarrow> fits (fr_topic f) \<and> fits (fr_payload f)"

lemma checked_frame_size_eq:
  "checked_frame_size t p lim =
     (if unat t > 0xFFFF then Inl (TransportError ''topic is too large for the wire format'')
      else if unat p > 0xFFFFFFFF
      then Inl (TransportError ''payload is too large for the wire format'')
      else if unat t > unat (max_topic_size lim)
      then Inl (TransportError ''topic exceeds configured size limit'')
      else if unat p > unat (max_payload_size lim)
      then Inl (TransportError ''payload exceeds configured size limit'')
      else if 56 + unat t + unat p > unat (max_frame_size lim)
      then Inl (TransportError ''frame exceeds configured size limit'')
      else Inr (56 + t + p))"
proof (cases "unat t > 0xFFFF \<or> unat p > 0xFFFFFFFF")
  case True
  then show ?thesis
    by (auto simp: checked_frame_size_def word_less_nat_alt)
next
  case False
  then have total: "unat (56 + t + p) = 56 + unat t + unat p"
    by (simp add: unat_word_ariths)
  moreover have "unat (size_max - 56 - t) = 18446744073709551559 - unat t"
    using False by (subst unat_sub) (auto simp: size_max_def word_le_nat_alt)
  ultimately show ?thesis
    using False
    by (auto simp: checked_frame_size_def word_less_nat_alt kHeaderSize_def Let_def size_max_def)
qed

lemma checked_frame_size_Inr:
  assumes "checked_frame_size t p lim = Inr n"
  shows "unat n = 56 + unat t + unat p" and "n = 56 + t + p" and "unat t \<le> 0xFFFF"
    and "unat p \<le> 0xFFFFFFFF" and "unat t \<le> unat (max_topic_size lim)"
    and "unat p \<le> unat (max_payload_size lim)" and "unat n \<le> unat (max_frame_size lim)"
  using assms
  by (auto simp: checked_frame_size_eq unat_word_ariths split: if_splits)

section \<open>The wire layout\<close>

text \<open>
  The reference layout of the protocol document: the header fields in order, then topic and
  payload. \<open>encode_frame\<close> is shown to produce exactly this.
\<close>

definition frame_header :: "frame \<Rightarrow> u32 \<Rightarrow> byte_buffer" where
  "frame_header f crc =
     be_bytes 4 kMagic @ [kVersion, fr_flags f] @ be_bytes 2 kHeaderSize @
     be_bytes 2 (of_nat (length (fr_topic f)) :: u16) @ be_bytes 2 (0 :: u16) @
     be_bytes 4 (of_nat (length (fr_payload f)) :: u32) @ be_bytes 4 (fr_type_id f) @
     be_bytes 8 (fr_schema_hash f) @ be_bytes 8 (fr_sequence f) @ be_bytes 8 (fr_publisher_id f) @
     be_bytes 8 (fr_send_time_ns f) @ be_bytes 4 crc"

definition frame_body :: "frame \<Rightarrow> byte_buffer" where
  "frame_body f = map byte_of_char (fr_topic f) @ fr_payload f"

definition frame_image :: "frame \<Rightarrow> byte_buffer" where
  "frame_image f = frame_header f (crc32 (frame_body f)) @ frame_body f"

lemma length_frame_header [simp]: "length (frame_header f c) = 56"
  by (simp add: frame_header_def)

lemma length_frame_body [simp]:
  "length (frame_body f) = length (fr_topic f) + length (fr_payload f)"
  by (simp add: frame_body_def)

text \<open>Header writes do not reach the body, and the copies do not reach the header.\<close>

lemma write_header_append:
  "k + 2 \<le> length h \<Longrightarrow> write_u16 (h @ b) k v2 = write_u16 h k v2 @ b"
  "k + 4 \<le> length h \<Longrightarrow> write_u32 (h @ b) k v4 = write_u32 h k v4 @ b"
  "k + 8 \<le> length h \<Longrightarrow> write_u64 (h @ b) k v8 = write_u64 h k v8 @ b"
  by (simp_all add: write_u16_def write_u32_def write_u64_def upt_0_8 list_update_append)

lemma copy_into_append:
  "length h = k \<Longrightarrow> copy_into (h @ b) k xs = h @ xs @ drop (length xs) b"
  by (simp add: copy_into_def)

lemma copy_into_append2:
  "length h + length t = k \<Longrightarrow> copy_into (h @ t @ b) k xs = h @ t @ xs @ drop (length xs) b"
  using copy_into_append [of "h @ t" k b xs] by simp

lemma list_update_header: "k < length h \<Longrightarrow> (h @ b)[k := x] = h[k := x] @ b"
  by (simp add: list_update_append)

text \<open>The fields are written in increasing order, each at the first byte not written yet.\<close>

lemma write_over_u16:
  assumes "length z = 2"
  shows "write_u16 (a @ z @ c) (length a) v = a @ be_bytes 2 v @ c"
proof -
  obtain z0 z1 where z: "z = [z0, z1]"
    using assms by (auto simp: length_Suc_conv eval_nat_numeral)
  show ?thesis
    by (simp add: z write_u16_def be_bytes_2 list_update_append ucast_take_byte)
qed

lemma write_over_u32:
  assumes "length z = 4"
  shows "write_u32 (a @ z @ c) (length a) v = a @ be_bytes 4 v @ c"
proof -
  obtain z0 z1 z2 z3 where z: "z = [z0, z1, z2, z3]"
    using assms by (auto simp: length_Suc_conv eval_nat_numeral)
  show ?thesis
    by (simp add: z write_u32_def be_bytes_4 list_update_append ucast_take_byte)
qed

lemma write_over_u64:
  assumes "length z = 8"
  shows "write_u64 (a @ z @ c) (length a) v = a @ be_bytes 8 v @ c"
proof -
  obtain z0 z1 z2 z3 z4 z5 z6 z7 where z: "z = [z0, z1, z2, z3, z4, z5, z6, z7]"
    using assms by (auto simp: length_Suc_conv eval_nat_numeral)
  show ?thesis
    by (simp add: z write_u64_def upt_0_8 be_bytes_8 list_update_append ucast_take_byte)
qed

lemma write_next:
  "length a = k \<Longrightarrow> 1 \<le> m \<Longrightarrow> (a @ replicate m 0)[k := v1] = (a @ [v1]) @ replicate (m - 1) 0"
  "length a = k \<Longrightarrow> 2 \<le> m \<Longrightarrow>
     write_u16 (a @ replicate m 0) k v2 = (a @ be_bytes 2 v2) @ replicate (m - 2) 0"
  "length a = k \<Longrightarrow> 4 \<le> m \<Longrightarrow>
     write_u32 (a @ replicate m 0) k v4 = (a @ be_bytes 4 v4) @ replicate (m - 4) 0"
  "length a = k \<Longrightarrow> 8 \<le> m \<Longrightarrow>
     write_u64 (a @ replicate m 0) k v8 = (a @ be_bytes 8 v8) @ replicate (m - 8) 0"
proof -
  have split: "replicate m (0::u8) = replicate n 0 @ replicate (m - n) 0" if "n \<le> m" for n
    using that by (metis le_add_diff_inverse replicate_add)
  show "length a = k \<Longrightarrow> 1 \<le> m \<Longrightarrow> (a @ replicate m 0)[k := v1] = (a @ [v1]) @ replicate (m - 1) 0"
    by (cases m) (auto simp: list_update_append)
  show "length a = k \<Longrightarrow> 2 \<le> m \<Longrightarrow>
      write_u16 (a @ replicate m 0) k v2 = (a @ be_bytes 2 v2) @ replicate (m - 2) 0"
    using split [of 2] write_over_u16 [of "replicate 2 0" a] by auto
  show "length a = k \<Longrightarrow> 4 \<le> m \<Longrightarrow>
      write_u32 (a @ replicate m 0) k v4 = (a @ be_bytes 4 v4) @ replicate (m - 4) 0"
    using split [of 4] write_over_u32 [of "replicate 4 0" a] by auto
  show "length a = k \<Longrightarrow> 8 \<le> m \<Longrightarrow>
      write_u64 (a @ replicate m 0) k v8 = (a @ be_bytes 8 v8) @ replicate (m - 8) 0"
    using split [of 8] write_over_u64 [of "replicate 8 0" a] by auto
qed

lemma header_writes:
  assumes "ts = (of_nat (length (fr_topic f)) :: u16)" "ps = (of_nat (length (fr_payload f)) :: u32)"
  shows "write_u32 (write_u64 (write_u64 (write_u64 (write_u64 (write_u32 (write_u32
    (write_u16 (write_u16 (write_u16 ((write_u32 (replicate 56 0) kMagicOffset kMagic)
      [kVersionOffset := kVersion, kFlagsOffset := fr_flags f])
      kHeaderSizeOffset kHeaderSize) kTopicSizeOffset ts) kReservedOffset 0)
      kPayloadSizeOffset ps) kTypeIdOffset (fr_type_id f))
      kSchemaHashOffset (fr_schema_hash f)) kSequenceOffset (fr_sequence f))
      kPublisherIdOffset (fr_publisher_id f)) kSendTimeOffset (fr_send_time_ns f))
      kCrcOffset c = frame_header f c"
  using write_next [of "[]"]
  by (simp add: assms frame_consts write_next frame_header_def del: append_assoc)

lemma encode_frame_layout:
  assumes "frame_ok f"
    and "checked_frame_size (size_of (fr_topic f)) (size_of (fr_payload f)) lim = Inr n"
  shows "encode_frame f lim = Inr (frame_image f)"
proof -
  let ?t = "length (fr_topic f)" and ?p = "length (fr_payload f)"
  have n: "unat n = 56 + (?t + ?p)"
    using checked_frame_size_Inr(1) [OF assms(2)] assms(1) by (simp add: frame_ok_def)
  then have rep: "replicate (unat n) (0::u8) = replicate 56 0 @ replicate (?t + ?p) 0"
    by (simp only: replicate_add)
  have body: "unat (n - 56) = ?t + ?p"
    using n by (subst unat_sub) (auto simp: word_le_nat_alt)
  have casts: "ucast (size_of (fr_topic f)) = (of_nat ?t :: u16)"
      "ucast (size_of (fr_payload f)) = (of_nat ?p :: u32)"
    by (rule bit_word_eqI, simp add: size_of_def bit_simps)+
  show ?thesis
    unfolding encode_frame_def assms(2) rbind.simps Let_def rep casts frame_image_def
    by (subst header_writes [symmetric, OF refl refl])
      (simp add: write_header_append copy_into_append copy_into_append2 list_update_header body frame_body_def
        frame_consts)
qed

section \<open>Reading a header\<close>

lemma read_frame_header:
  "read_u32 (frame_header f c @ b) kMagicOffset = kMagic"
  "(frame_header f c @ b) ! kVersionOffset = kVersion"
  "(frame_header f c @ b) ! kFlagsOffset = fr_flags f"
  "read_u16 (frame_header f c @ b) kHeaderSizeOffset = kHeaderSize"
  "read_u16 (frame_header f c @ b) kTopicSizeOffset = of_nat (length (fr_topic f))"
  "read_u16 (frame_header f c @ b) kReservedOffset = 0"
  "read_u32 (frame_header f c @ b) kPayloadSizeOffset = of_nat (length (fr_payload f))"
  "read_u32 (frame_header f c @ b) kTypeIdOffset = fr_type_id f"
  "read_u64 (frame_header f c @ b) kSchemaHashOffset = fr_schema_hash f"
  "read_u64 (frame_header f c @ b) kSequenceOffset = fr_sequence f"
  "read_u64 (frame_header f c @ b) kPublisherIdOffset = fr_publisher_id f"
  "read_u64 (frame_header f c @ b) kSendTimeOffset = fr_send_time_ns f"
  "read_u32 (frame_header f c @ b) kCrcOffset = c"
  by (simp_all add: frame_header_def be_bytes_2 be_bytes_4 be_bytes_8 read_u16_be read_u32_be
      read_u64_be frame_consts be_word_u16 be_word_u32 be_word_u64)
    (simp_all add: be_word_def)

lemma frame_size_from_image:
  assumes "frame_ok f"
    and "checked_frame_size (size_of (fr_topic f)) (size_of (fr_payload f)) lim = Inr n"
    and "h = frame_header f c @ b" and "fits h"
  shows "frame_size_from_header (Span h) lim = Inr n"
proof -
  have "length (fr_topic f) \<le> 0xFFFF" and "length (fr_payload f) \<le> 0xFFFFFFFF"
    using checked_frame_size_Inr(3,4) [OF assms(2)] assms(1) by (simp_all add: frame_ok_def)
  then have "ucast (of_nat (length (fr_topic f)) :: u16) = size_of (fr_topic f)"
    and "ucast (of_nat (length (fr_payload f)) :: u32) = size_of (fr_payload f)"
    by (simp_all add: size_of_def unsigned_of_nat take_bit_nat_eq_self)
  moreover have "\<not> size_of h < 56"
    using assms(3,4) by (simp add: word_less_nat_alt)
  ultimately show ?thesis
    using assms(2)
    by (simp add: frame_size_from_header_def require_pointer_def assms(3) read_frame_header
        kHeaderSize_def [THEN arg_cong, of ucast])
qed

lemma frame_image_fits:
  assumes "frame_ok f"
    and "checked_frame_size (size_of (fr_topic f)) (size_of (fr_payload f)) lim = Inr n"
  shows "fits (frame_image f)" and "size_of (frame_image f) = n"
    and "length (frame_image f) = unat n"
proof -
  have n: "unat n = 56 + (length (fr_topic f) + length (fr_payload f))"
    using checked_frame_size_Inr(1) [OF assms(2)] assms(1) by (simp add: frame_ok_def)
  then show len: "length (frame_image f) = unat n" by (simp add: frame_image_def)
  then show "fits (frame_image f)" using unsigned_less [of n, where 'a = nat] by (simp add: fits_def)
  show "size_of (frame_image f) = n" using len by (simp add: size_of_def)
qed

lemma decode_frame_image:
  assumes "frame_ok f"
    and "checked_frame_size (size_of (fr_topic f)) (size_of (fr_payload f)) lim = Inr n"
  shows "decode_frame (Span (frame_image f)) lim = Inr f"
proof -
  note img = frame_image_fits [OF assms] and sizes = checked_frame_size_Inr [OF assms(2)]
  have "frame_size_from_header (Span (frame_image f)) lim = Inr n"
    using frame_size_from_image [OF assms _ img(1)] by (simp add: frame_image_def)
  moreover have "unat (n - 56) = length (frame_body f)"
    using img(3) by (subst unat_sub) (auto simp: word_le_nat_alt frame_image_def)
  moreover have "unat (of_nat (length (fr_topic f)) :: u16) = length (fr_topic f)"
    and "unat (of_nat (length (fr_payload f)) :: u32) = length (fr_payload f)"
    using sizes(3,4) assms(1) by (auto simp: frame_ok_def unat_of_nat take_bit_nat_eq_self)
  ultimately show ?thesis
    using img(2)
    by (simp add: decode_frame_def require_pointer_def frame_image_def read_frame_header
        kHeaderSize_def [THEN arg_cong, of unat] kHeaderSize_def [THEN arg_cong, of ucast])
      (simp add: frame_body_def)
qed

section \<open>Every accepted byte string is the image of its frame\<close>

lemma decode_frame_Inr:
  assumes "decode_frame (Span bs) lim = Inr f" and "fits bs"
  obtains n where "frame_size_from_header (Span bs) lim = Inr n" and "length bs = unat n"
    and "read_u32 bs kMagicOffset = kMagic" and "bs ! kVersionOffset = kVersion"
    and "read_u16 bs kHeaderSizeOffset = kHeaderSize" and "read_u16 bs kReservedOffset = 0"
    and "checked_frame_size (ucast (read_u16 bs kTopicSizeOffset))
           (ucast (read_u32 bs kPayloadSizeOffset)) lim = Inr n"
    and "read_u32 bs kCrcOffset = crc32 (drop 56 bs)"
    and "f = \<lparr>fr_flags = bs ! kFlagsOffset,
              fr_type_id = read_u32 bs kTypeIdOffset,
              fr_schema_hash = read_u64 bs kSchemaHashOffset,
              fr_sequence = read_u64 bs kSequenceOffset,
              fr_publisher_id = read_u64 bs kPublisherIdOffset,
              fr_send_time_ns = read_u64 bs kSendTimeOffset,
              fr_topic = map char_of_byte (take (unat (read_u16 bs kTopicSizeOffset)) (drop 56 bs)),
              fr_payload = take (unat (read_u32 bs kPayloadSizeOffset))
                (drop (unat (read_u16 bs kTopicSizeOffset)) (drop 56 bs))\<rparr>"
proof -
  have h: "unat kHeaderSize = 56" "(ucast kHeaderSize :: size_t) = 56"
    by (simp_all add: kHeaderSize_def)
  from assms(1) obtain n where n: "frame_size_from_header (Span bs) lim = Inr n" "size_of bs = n"
    by (auto simp: decode_frame_def Let_def split: if_splits)
  then have len: "length bs = unat n" using assms(2) by auto
  have "unat (size_of bs - 56) = length bs - 56" if "56 \<le> length bs"
    using that assms(2) by (subst unat_sub) (auto simp: word_le_nat_alt)
  then have crc: "56 \<le> length bs \<Longrightarrow> take (unat (size_of bs - 56)) (drop 56 bs) = drop 56 bs"
    by simp
  show ?thesis
    using assms(1) n len crc
    by (intro that [of n])
      (auto simp: decode_frame_def frame_size_from_header_def require_pointer_def Let_def h
        word_less_nat_alt assms(2) split: if_splits)
qed

lemma take_56: "56 \<le> length bs \<Longrightarrow> take 56 bs = map (\<lambda>i. bs ! i) [0..<56]"
  by (intro nth_equalityI) simp_all

lemma upt_0_56:
  "[0..<56] =
     [0, 1, 2, 3, 4, 5, 6, 7, 8, 9, 10, 11, 12, 13, 14, 15, 16, 17, 18, 19, 20, 21,
      22, 23, 24, 25, 26, 27, 28, 29, 30, 31, 32, 33, 34, 35, 36, 37, 38, 39, 40, 41,
      42, 43, 44, 45, 46, 47, 48, 49, 50, 51, 52, 53, 54, 55]"
  by (simp add: upt_conv_Cons)

lemma frame_header_of_reads:
  assumes "56 \<le> length bs" and "read_u32 bs kMagicOffset = kMagic" and "bs ! kVersionOffset = kVersion"
    and "read_u16 bs kHeaderSizeOffset = kHeaderSize" and "read_u16 bs kReservedOffset = 0"
    and "fr_flags f = bs ! kFlagsOffset" and "fr_type_id f = read_u32 bs kTypeIdOffset"
    and "of_nat (length (fr_topic f)) = read_u16 bs kTopicSizeOffset"
    and "of_nat (length (fr_payload f)) = read_u32 bs kPayloadSizeOffset"
    and "fr_schema_hash f = read_u64 bs kSchemaHashOffset"
    and "fr_sequence f = read_u64 bs kSequenceOffset"
    and "fr_publisher_id f = read_u64 bs kPublisherIdOffset"
    and "fr_send_time_ns f = read_u64 bs kSendTimeOffset"
    and "c = read_u32 bs kCrcOffset"
  shows "frame_header f c = take 56 bs"
  unfolding take_56 [OF assms(1)] frame_header_def assms(2-5) [symmetric] assms(6-14)
    be_bytes_read_u16 be_bytes_read_u32 be_bytes_read_u64
  by (simp add: upt_0_56 frame_consts(4-)) (simp add: numeral_2_eq_2)

lemma decode_frame_inverse:
  assumes "decode_frame (Span bs) lim = Inr f" and "fits bs"
  shows "frame_ok f" and "frame_image f = bs"
    and "\<exists>n. checked_frame_size (size_of (fr_topic f)) (size_of (fr_payload f)) lim = Inr n"
proof -
  obtain n where d: "length bs = unat n"
    "read_u32 bs kMagicOffset = kMagic" "bs ! kVersionOffset = kVersion"
    "read_u16 bs kHeaderSizeOffset = kHeaderSize" "read_u16 bs kReservedOffset = 0"
    and size: "checked_frame_size (ucast (read_u16 bs kTopicSizeOffset))
           (ucast (read_u32 bs kPayloadSizeOffset)) lim = Inr n"
    and crc: "read_u32 bs kCrcOffset = crc32 (drop 56 bs)"
    and f: "f = \<lparr>fr_flags = bs ! kFlagsOffset,
              fr_type_id = read_u32 bs kTypeIdOffset,
              fr_schema_hash = read_u64 bs kSchemaHashOffset,
              fr_sequence = read_u64 bs kSequenceOffset,
              fr_publisher_id = read_u64 bs kPublisherIdOffset,
              fr_send_time_ns = read_u64 bs kSendTimeOffset,
              fr_topic = map char_of_byte (take (unat (read_u16 bs kTopicSizeOffset)) (drop 56 bs)),
              fr_payload = take (unat (read_u32 bs kPayloadSizeOffset))
                (drop (unat (read_u16 bs kTopicSizeOffset)) (drop 56 bs))\<rparr>"
    using decode_frame_Inr [OF assms] .
  let ?t = "unat (read_u16 bs kTopicSizeOffset)" and ?p = "unat (read_u32 bs kPayloadSizeOffset)"
  have len: "length bs = 56 + ?t + ?p"
    using checked_frame_size_Inr(1) [OF size] d(1) by simp
  have topic: "length (fr_topic f) = ?t" and payload: "length (fr_payload f) = ?p"
    using len by (simp_all add: f)
  show ok: "frame_ok f"
    using assms(2) len topic payload by (simp add: frame_ok_def fits_def)
  have "frame_header f (read_u32 bs kCrcOffset) = take 56 bs"
    using len d topic payload by (intro frame_header_of_reads) (simp_all add: f)
  moreover have "frame_body f = drop 56 bs"
    using len append_take_drop_id [of ?t "drop 56 bs"]
    by (simp add: frame_body_def f add.commute del: append_take_drop_id)
  ultimately show "frame_image f = bs"
    using crc by (simp add: frame_image_def)
  have "size_of (fr_topic f) = ucast (read_u16 bs kTopicSizeOffset)"
    and "size_of (fr_payload f) = ucast (read_u32 bs kPayloadSizeOffset)"
    using topic payload by (simp_all add: size_of_def)
  with size show "\<exists>n. checked_frame_size (size_of (fr_topic f)) (size_of (fr_payload f)) lim = Inr n"
    by simp
qed

section \<open>Encoding on every branch\<close>

lemma encode_frame_cases:
  assumes "frame_ok f"
  shows "encode_frame f lim =
    (case checked_frame_size (size_of (fr_topic f)) (size_of (fr_payload f)) lim of
       Inl e \<Rightarrow> Inl e | Inr n \<Rightarrow> Inr (frame_image f))"
proof (cases "checked_frame_size (size_of (fr_topic f)) (size_of (fr_payload f)) lim")
  case (Inl e)
  then show ?thesis by (simp add: encode_frame_def)
next
  case (Inr n)
  then show ?thesis using encode_frame_layout [OF assms] by simp
qed

lemma encode_frame_Inr:
  assumes "frame_ok f" and "encode_frame f lim = Inr bs"
  obtains n where "checked_frame_size (size_of (fr_topic f)) (size_of (fr_payload f)) lim = Inr n"
    and "bs = frame_image f"
  using assms by (auto simp: encode_frame_cases split: sum.splits)

lemma decode_frame_crc_mismatch:
  assumes "fits h" and "frame_size_from_header (Span h) lim = Inr n" and "size_of h = n"
    and "56 \<le> length h" and "crc32 (drop 56 h) \<noteq> read_u32 h kCrcOffset"
  shows "decode_frame (Span h) lim = Inl (TransportError ''frame CRC32 mismatch'')"
proof -
  have "unat (n - 56) = length h - 56"
    using assms(1,3,4) by (subst unat_sub) (auto simp: word_le_nat_alt)
  then show ?thesis
    using assms by (simp add: decode_frame_def require_pointer_def kHeaderSize_def)
qed

section \<open>Properties of the frame codec\<close>

text \<open>C1: A frame that \<^verbatim>\<open>encode_frame\<close> accepts is recovered exactly by
  \<^verbatim>\<open>decode_frame\<close> under the same limits: every header field, the topic and the payload.\<close>

theorem decode_encode_frame:
  assumes "frame_ok f" and "encode_frame f lim = Inr bs"
  shows "decode_frame (Span bs) lim = Inr f"
  using encode_frame_Inr [OF assms] decode_frame_image [OF assms(1)] by metis

text \<open>C2: The wire format is canonical: whenever \<^verbatim>\<open>decode_frame\<close> accepts a byte
  string, re-encoding the frame it returned yields the very same bytes.\<close>

theorem encode_decode_frame:
  assumes "fits bs" and "decode_frame (Span bs) lim = Inr f"
  shows "encode_frame f lim = Inr bs"
  using decode_frame_inverse [OF assms(2,1)] encode_frame_layout by metis

text \<open>On every branch, \<^verbatim>\<open>encode_frame\<close> reports the first violated limit in the
  order of the source, and otherwise produces the layout of the protocol document.\<close>

theorem encode_frame_behaviour:
  assumes "frame_ok f"
  shows "encode_frame f lim =
    (let t = length (fr_topic f); p = length (fr_payload f)
     in if t > 0xFFFF then Inl (TransportError ''topic is too large for the wire format'')
        else if p > 0xFFFFFFFF then Inl (TransportError ''payload is too large for the wire format'')
        else if t > unat (max_topic_size lim)
        then Inl (TransportError ''topic exceeds configured size limit'')
        else if p > unat (max_payload_size lim)
        then Inl (TransportError ''payload exceeds configured size limit'')
        else if 56 + t + p > unat (max_frame_size lim)
        then Inl (TransportError ''frame exceeds configured size limit'')
        else Inr (frame_header f (crc32 (frame_body f)) @ frame_body f))"
  using assms
  by (simp add: encode_frame_cases checked_frame_size_eq frame_ok_def Let_def frame_image_def)

text \<open>C3: Any corruption of an encoded frame that is confined to four consecutive bytes of the
  topic and payload (so every single-bit, single-byte and burst error of up to 32 bits) is
  rejected by \<^verbatim>\<open>decode_frame\<close> with the CRC error.\<close>

theorem decode_detects_corruption:
  assumes "frame_ok f" and "encode_frame f lim = Inr (h @ pre @ a @ post)" and "length h = 56"
    and "length b = length a" and "length a \<le> 4" and "b \<noteq> a"
  shows "decode_frame (Span (h @ pre @ b @ post)) lim = Inl (TransportError ''frame CRC32 mismatch'')"
proof -
  obtain n where n: "checked_frame_size (size_of (fr_topic f)) (size_of (fr_payload f)) lim = Inr n"
    and image: "h @ pre @ a @ post = frame_image f"
    using encode_frame_Inr [OF assms(1,2)] by metis
  let ?c = "crc32 (frame_body f)" and ?bad = "h @ pre @ b @ post"
  have h: "h = frame_header f ?c" and body: "pre @ a @ post = frame_body f"
    using image assms(3) by (simp_all add: frame_image_def append_eq_append_conv)
  have "length ?bad = length (frame_image f)" using image [symmetric] assms(4) by simp
  then have bad: "fits ?bad" "size_of ?bad = n"
    using frame_image_fits [OF assms(1) n] by (simp_all add: fits_def size_of_def)
  have "frame_size_from_header (Span ?bad) lim = Inr n"
    using frame_size_from_image [OF assms(1) n _ bad(1)] h by simp
  moreover have "crc32 (pre @ b @ post) \<noteq> ?c"
    using crc32_window_inj [of b a pre post] assms(4-6) body by auto
  then have "crc32 (drop 56 ?bad) \<noteq> read_u32 ?bad kCrcOffset"
    using assms(3) h by (simp add: read_frame_header)
  ultimately show ?thesis
    using bad assms(3) by (intro decode_frame_crc_mismatch) auto
qed

text \<open>The header alone determines the frame length: on any input that starts with the first 56
  bytes of an encoded frame, \<^verbatim>\<open>frame_size_from_header\<close> returns the length of the whole
  encoding.\<close>

theorem header_announces_size:
  assumes "frame_ok f" and "encode_frame f lim = Inr bs" and "fits (take 56 bs @ rest)"
  shows "frame_size_from_header (Span (take 56 bs @ rest)) lim = Inr (size_of bs)"
proof -
  obtain n where n: "checked_frame_size (size_of (fr_topic f)) (size_of (fr_payload f)) lim = Inr n"
    and bs: "bs = frame_image f"
    using encode_frame_Inr [OF assms(1,2)] by metis
  show ?thesis
    using frame_size_from_image [OF assms(1) n _ assms(3)] frame_image_fits(2) [OF assms(1) n]
    by (simp add: bs frame_image_def)
qed

text \<open>A declared size that passes the header check never wraps and never exceeds the
  configured limit, so no allocation follows a hostile length field: the total is exactly the
  header plus the two declared lengths.\<close>

theorem declared_size_bounded:
  assumes "frame_size_from_header (Span bs) lim = Inr n" and "fits bs"
  shows "unat n = 56 + unat (read_u16 bs kTopicSizeOffset) + unat (read_u32 bs kPayloadSizeOffset)
     \<and> unat n \<le> unat (max_frame_size lim)
     \<and> unat (read_u16 bs kTopicSizeOffset) \<le> unat (max_topic_size lim)
     \<and> unat (read_u32 bs kPayloadSizeOffset) \<le> unat (max_payload_size lim)
     \<and> 56 \<le> length bs"
proof -
  have size: "checked_frame_size (ucast (read_u16 bs kTopicSizeOffset))
      (ucast (read_u32 bs kPayloadSizeOffset)) lim = Inr n" and "56 \<le> length bs"
    using assms
    by (auto simp: frame_size_from_header_def require_pointer_def Let_def kHeaderSize_def
        word_less_nat_alt split: if_splits)
  then show ?thesis using checked_frame_size_Inr [OF size] by simp
qed

text \<open>On a 64-bit platform the \<^verbatim>\<open>size_t\<close> overflow guard of
  \<^verbatim>\<open>checked_frame_size\<close> never fires: the two earlier wire-format checks already bound
  the sum.\<close>

theorem overflow_guard_unreachable:
  "checked_frame_size t p lim \<noteq> Inl (TransportError ''declared frame size overflows size_t'')"
  by (simp add: checked_frame_size_eq)

section \<open>Witnesses\<close>

definition sample_frame :: frame where
  "sample_frame =
     \<lparr>fr_flags = 0, fr_type_id = 0x00010001, fr_schema_hash = 7, fr_sequence = 3,
      fr_publisher_id = 42, fr_send_time_ns = 1000, fr_topic = ''imu'', fr_payload = [1, 2, 3, 4, 5]\<rparr>"

lemma sample_frame_ok: "frame_ok sample_frame"
  by (simp add: frame_ok_def sample_frame_def fits_def)

lemma sample_frame_encoded: "encode_frame sample_frame default_limits = Inr (frame_image sample_frame)"
  by (subst encode_frame_cases [OF sample_frame_ok])
    (simp add: checked_frame_size_eq sample_frame_def default_limits_def size_of_def)

lemma sample_frame_fits: "fits (frame_image sample_frame)"
  by (simp add: fits_def frame_image_def sample_frame_def)

theorem decode_encode_frame_witness:
  "\<exists>bs. encode_frame sample_frame default_limits = Inr bs \<and>
        decode_frame (Span bs) default_limits = Inr sample_frame"
  using decode_encode_frame [OF sample_frame_ok sample_frame_encoded] sample_frame_encoded by blast

theorem encode_decode_frame_witness:
  "decode_frame (Span (frame_image sample_frame)) default_limits = Inr sample_frame \<and>
   encode_frame sample_frame default_limits = Inr (frame_image sample_frame)"
proof -
  have "checked_frame_size (size_of (fr_topic sample_frame)) (size_of (fr_payload sample_frame))
      default_limits = Inr 64"
    by (simp add: checked_frame_size_eq sample_frame_def default_limits_def size_of_def)
  then have d: "decode_frame (Span (frame_image sample_frame)) default_limits = Inr sample_frame"
    by (rule decode_frame_image [OF sample_frame_ok])
  show ?thesis using d encode_decode_frame [OF sample_frame_fits d] by blast
qed

theorem encode_frame_behaviour_witness:
  "encode_frame (sample_frame\<lparr>fr_payload := [9, 9]\<rparr>) (default_limits\<lparr>max_payload_size := 1\<rparr>) =
     Inl (TransportError ''payload exceeds configured size limit'')"
  by (subst encode_frame_behaviour)
    (simp_all add: frame_ok_def sample_frame_def default_limits_def fits_def)

theorem decode_detects_corruption_witness:
  "decode_frame (Span (frame_header sample_frame (crc32 (frame_body sample_frame)) @
       map byte_of_char ''imu'' @ [1, 2, 99, 4, 5])) default_limits =
     Inl (TransportError ''frame CRC32 mismatch'')"
  using decode_detects_corruption [OF sample_frame_ok, of default_limits
      "frame_header sample_frame (crc32 (frame_body sample_frame))"
      "map byte_of_char ''imu'' @ [1, 2]" "[3]" "[4, 5]" "[99]"] sample_frame_encoded
  by (simp add: frame_image_def frame_body_def sample_frame_def)

theorem header_announces_size_witness:
  "frame_size_from_header (Span (take 56 (frame_image sample_frame) @ [7, 7])) default_limits
     = Inr (size_of (frame_image sample_frame))"
  using header_announces_size [OF sample_frame_ok sample_frame_encoded, of "[7, 7]"]
  by (simp add: fits_def frame_image_def)

theorem declared_size_bounded_witness:
  "unat (size_of (frame_image sample_frame)) \<le> unat (max_frame_size default_limits)"
proof -
  have "frame_size_from_header (Span (frame_image sample_frame)) default_limits
      = Inr (size_of (frame_image sample_frame))"
    using frame_size_from_image [OF sample_frame_ok _ _ sample_frame_fits] frame_image_fits
      sample_frame_ok encode_frame_Inr [OF sample_frame_ok sample_frame_encoded]
    by (metis frame_image_def)
  then show ?thesis using declared_size_bounded [OF _ sample_frame_fits] by blast
qed

end
