(* ===== verification/Rml_Network_Message.thy ===== *)
theory Rml_Network_Message
  imports Rml_Message Rml_Frame
begin

text \<open>
  Frames that carry typed messages (\<^verbatim>\<open>serialization/network_message.hpp\<close>) and the
  control-plane heartbeat frames (\<^verbatim>\<open>transport/heartbeat.hpp\<close>). The clock
  (\<^verbatim>\<open>steady_clock::now()\<close>) is an argument \<open>now\<close> of the functions that read it.
\<close>

section \<open>Typed frames\<close>

definition make_frame ::
  "'m message_traits \<Rightarrow> string \<Rightarrow> 'm \<Rightarrow> u64 \<Rightarrow> u64 \<Rightarrow> u64 \<Rightarrow> frame result" where
  "make_frame tr topic message sequence publisher_id send_time_ns =
     (if topic = [] then Inl (SerializationError ''network topic cannot be empty'')
      else if size_of topic > 0xFFFF
      then Inl (SerializationError ''network topic exceeds the wire-format limit'')
      else Inr (empty_frame\<lparr>fr_type_id := mt_type_id tr, fr_schema_hash := mt_schema_hash tr,
                 fr_sequence := sequence, fr_publisher_id := publisher_id,
                 fr_send_time_ns := send_time_ns, fr_topic := topic,
                 fr_payload := serialize tr message\<rparr>))"

definition deserialize_frame :: "'m message_traits \<Rightarrow> frame \<Rightarrow> string \<Rightarrow> 'm result" where
  "deserialize_frame tr frame expected_topic =
     (if expected_topic \<noteq> [] \<and> fr_topic frame \<noteq> expected_topic
      then Inl (SerializationError ''network frame topic does not match subscription'')
      else if fr_type_id frame \<noteq> mt_type_id tr
      then Inl (SerializationError ''network frame message type does not match subscription'')
      else if fr_schema_hash frame \<noteq> mt_schema_hash tr
      then Inl (SerializationError ''network frame schema does not match subscription'')
      else deserialize tr (Span (fr_payload frame)))"

section \<open>Heartbeats\<close>

definition kHeartbeatFlag :: u8 where "kHeartbeatFlag = 0x01"

definition kHeartbeatTopic :: string where "kHeartbeatTopic = ''__rml/heartbeat''"

definition make_heartbeat_frame :: "u64 \<Rightarrow> u64 \<Rightarrow> u64 \<Rightarrow> frame" where
  "make_heartbeat_frame publisher_id sequence now =
     empty_frame\<lparr>fr_flags := kHeartbeatFlag, fr_sequence := sequence,
       fr_publisher_id := publisher_id, fr_send_time_ns := now, fr_topic := kHeartbeatTopic\<rparr>"

definition is_heartbeat_frame :: "frame \<Rightarrow> bool" where
  "is_heartbeat_frame frame \<longleftrightarrow>
     fr_flags frame = kHeartbeatFlag \<and> fr_topic frame = kHeartbeatTopic \<and>
     fr_type_id frame = 0 \<and> fr_schema_hash frame = 0 \<and> fr_payload frame = []"

definition has_heartbeat_flag :: "frame \<Rightarrow> bool" where
  "has_heartbeat_flag frame \<longleftrightarrow> fr_flags frame AND kHeartbeatFlag \<noteq> 0"

section \<open>Facts on typed frames\<close>

lemma make_frame_Inr:
  assumes "make_frame tr topic m s p t = Inr f"
  shows "topic \<noteq> []" and "unat (size_of topic) \<le> 0xFFFF"
    and "f = \<lparr>fr_flags = 0, fr_type_id = mt_type_id tr, fr_schema_hash = mt_schema_hash tr,
       fr_sequence = s, fr_publisher_id = p, fr_send_time_ns = t, fr_topic = topic,
       fr_payload = serialize tr m\<rparr>"
  using assms
  by (auto simp: make_frame_def empty_frame_def word_less_nat_alt not_less split: if_splits)

lemma has_heartbeat_flag_zero: "fr_flags f = 0 \<Longrightarrow> \<not> has_heartbeat_flag f"
  by (simp add: has_heartbeat_flag_def)

lemma is_heartbeat_has_flag: "is_heartbeat_frame f \<Longrightarrow> has_heartbeat_flag f"
  by (simp add: is_heartbeat_frame_def has_heartbeat_flag_def kHeartbeatFlag_def)

text \<open>What the network layer gets from any message type that fulfils the wire contract.\<close>

context wire_message begin

lemma made_frame_deserializes:
  assumes "make_frame tr topic m s p t = Inr f" and "expected = [] \<or> expected = topic"
  shows "deserialize_frame tr f expected = Inr m"
  using make_frame_Inr(3) [OF assms(1)] assms(2)
  by (auto simp: deserialize_frame_def deserialize_serialize)

lemma made_frame_fits_default_limits:
  assumes "make_frame tr topic m s p t = Inr f" and "fits topic"
  shows "frame_ok f" and "encode_frame f default_limits = Inr (frame_image f)"
    and "decode_frame (Span (frame_image f)) default_limits = Inr f"
proof -
  note f = make_frame_Inr [OF assms(1)]
  show ok: "frame_ok f"
    using assms(2) serialize_fits by (simp add: frame_ok_def f(3))
  have "length topic \<le> 65535" using f(2) assms(2) by simp
  then have "checked_frame_size (size_of (fr_topic f)) (size_of (fr_payload f)) default_limits
      = Inr (56 + size_of topic + size_of (serialize tr m))"
    using assms(2) serialize_fits serialize_length [of m] size_small
    by (simp add: f(3) checked_frame_size_eq default_limits_def)
  then show "encode_frame f default_limits = Inr (frame_image f)"
    and "decode_frame (Span (frame_image f)) default_limits = Inr f"
    using encode_frame_layout [OF ok] decode_frame_image [OF ok] by blast+
qed

lemma network_roundtrip:
  assumes "make_frame tr topic m s p t = Inr f" and "fits topic"
  shows "rbind (encode_frame f default_limits) (\<lambda>bs.
         rbind (decode_frame (Span bs) default_limits) (\<lambda>g. deserialize_frame tr g topic)) = Inr m"
  using made_frame_fits_default_limits [OF assms] made_frame_deserializes [OF assms(1)] by simp

end

section \<open>Properties of typed frames and heartbeats\<close>

text \<open>C4: End to end: a message wrapped by \<^verbatim>\<open>make_frame\<close> under the default limits,
  encoded, decoded and passed to \<^verbatim>\<open>deserialize_frame\<close> for its topic is the message that
  was sent, for each of the three built-in message types.\<close>

theorem message_network_roundtrip:
  assumes "fits topic"
  shows "(make_frame imu_traits topic imu s p t = Inr fi \<longrightarrow>
      rbind (encode_frame fi default_limits) (\<lambda>bs. rbind (decode_frame (Span bs) default_limits)
        (\<lambda>g. deserialize_frame imu_traits g topic)) = Inr imu) \<and>
    (make_frame pose_traits topic pose s p t = Inr fp \<longrightarrow>
      rbind (encode_frame fp default_limits) (\<lambda>bs. rbind (decode_frame (Span bs) default_limits)
        (\<lambda>g. deserialize_frame pose_traits g topic)) = Inr pose) \<and>
    (make_frame control_traits topic ctl s p t = Inr fc \<longrightarrow>
      rbind (encode_frame fc default_limits) (\<lambda>bs. rbind (decode_frame (Span bs) default_limits)
        (\<lambda>g. deserialize_frame control_traits g topic)) = Inr ctl)"
  using imu.network_roundtrip [OF _ assms] pose.network_roundtrip [OF _ assms]
    control.network_roundtrip [OF _ assms] by blast

theorem message_network_roundtrip_witness:
  "\<exists>f. make_frame control_traits ''cmd'' \<lparr>ctl_timestamp_ns = 1, ctl_linear_x = 2, ctl_linear_y = 3,
        ctl_angular_z = 4\<rparr> 0 7 9 = Inr f \<and>
     rbind (encode_frame f default_limits) (\<lambda>bs. rbind (decode_frame (Span bs) default_limits)
       (\<lambda>g. deserialize_frame control_traits g ''cmd'')) =
     Inr \<lparr>ctl_timestamp_ns = 1, ctl_linear_x = 2, ctl_linear_y = 3, ctl_angular_z = 4\<rparr>"
proof -
  have "fits ''cmd''" by (simp add: fits_def)
  moreover obtain f where "make_frame control_traits ''cmd'' \<lparr>ctl_timestamp_ns = 1,
      ctl_linear_x = 2, ctl_linear_y = 3, ctl_angular_z = 4\<rparr> 0 7 9 = Inr f"
    by (simp add: make_frame_def size_of_def)
  ultimately show ?thesis
    using message_network_roundtrip by blast
qed

text \<open>A frame made for one built-in message type is never accepted for another: whatever
  topic is expected, \<^verbatim>\<open>deserialize_frame\<close> for a different type throws.\<close>

theorem no_type_confusion:
  "(make_frame imu_traits topic imu s p t = Inr f \<longrightarrow>
      \<not> is_ok (deserialize_frame pose_traits f e) \<and> \<not> is_ok (deserialize_frame control_traits f e)) \<and>
   (make_frame pose_traits topic pose s p t = Inr f \<longrightarrow>
      \<not> is_ok (deserialize_frame imu_traits f e) \<and> \<not> is_ok (deserialize_frame control_traits f e)) \<and>
   (make_frame control_traits topic ctl s p t = Inr f \<longrightarrow>
      \<not> is_ok (deserialize_frame imu_traits f e) \<and> \<not> is_ok (deserialize_frame pose_traits f e))"
  by (auto dest!: make_frame_Inr(3) simp: deserialize_frame_def traits_type_id)

theorem no_type_confusion_witness:
  "\<exists>f. make_frame imu_traits ''imu'' \<lparr>imu_timestamp_ns = 1, imu_yaw = 2, imu_gyro_z = 3\<rparr> 0 7 9 = Inr f \<and>
     \<not> is_ok (deserialize_frame pose_traits f ''imu'')"
proof -
  obtain f where "make_frame imu_traits ''imu''
      \<lparr>imu_timestamp_ns = 1, imu_yaw = 2, imu_gyro_z = 3\<rparr> 0 7 9 = Inr f"
    by (simp add: make_frame_def size_of_def)
  then show ?thesis using no_type_confusion by blast
qed

text \<open>Control plane and data plane never mix: a heartbeat survives the wire under the default
  limits and is recognised as one, it is never accepted as a message of any built-in type, and a
  message frame never carries the heartbeat flag.\<close>

theorem heartbeat_separation:
  "is_heartbeat_frame (make_heartbeat_frame p s now) \<and>
   has_heartbeat_flag (make_heartbeat_frame p s now) \<and>
   rbind (encode_frame (make_heartbeat_frame p s now) default_limits)
     (\<lambda>bs. decode_frame (Span bs) default_limits) = Inr (make_heartbeat_frame p s now) \<and>
   (is_heartbeat_frame h \<longrightarrow> \<not> is_ok (deserialize_frame imu_traits h e) \<and>
      \<not> is_ok (deserialize_frame pose_traits h e) \<and> \<not> is_ok (deserialize_frame control_traits h e)) \<and>
   (make_frame tr topic m s p now = Inr f \<longrightarrow> \<not> has_heartbeat_flag f)"
proof -
  let ?h = "make_heartbeat_frame p s now"
  have hb: "is_heartbeat_frame ?h"
    by (simp add: is_heartbeat_frame_def make_heartbeat_frame_def empty_frame_def)
  have ok: "frame_ok ?h"
    by (simp add: frame_ok_def fits_def make_heartbeat_frame_def empty_frame_def kHeartbeatTopic_def)
  have "checked_frame_size (size_of (fr_topic ?h)) (size_of (fr_payload ?h)) default_limits = Inr 71"
    by (simp add: make_heartbeat_frame_def empty_frame_def kHeartbeatTopic_def size_of_def
        checked_frame_size_eq default_limits_def)
  then have wire: "rbind (encode_frame ?h default_limits)
      (\<lambda>bs. decode_frame (Span bs) default_limits) = Inr ?h"
    using encode_frame_layout [OF ok] decode_frame_image [OF ok] by simp
  have msg: "\<not> is_ok (deserialize_frame imu_traits h e) \<and> \<not> is_ok (deserialize_frame pose_traits h e) \<and>
      \<not> is_ok (deserialize_frame control_traits h e)" if "is_heartbeat_frame h"
    using that by (simp add: is_heartbeat_frame_def deserialize_frame_def traits_type_id)
  have "\<not> has_heartbeat_flag f" if "make_frame tr topic m s p now = Inr f"
    using make_frame_Inr(3) [OF that] by (simp add: has_heartbeat_flag_zero)
  then show ?thesis using hb is_heartbeat_has_flag [OF hb] wire msg by blast
qed

theorem heartbeat_separation_witness:
  "\<not> is_ok (deserialize_frame imu_traits (make_heartbeat_frame 1 2 3) [])"
  using heartbeat_separation [of 1 2 3 "make_heartbeat_frame 1 2 3" "[]" imu_traits "[]"
      "\<lparr>imu_timestamp_ns = 0, imu_yaw = 0, imu_gyro_z = 0\<rparr>" empty_frame] by blast

end
