(* ===== verification/Rml_Subscription.thy ===== *)
theory Rml_Subscription
  imports Rml_Prelude "HOL-Library.Sublist" "HOL-Library.Multiset"
begin

text \<open>
  \<^verbatim>\<open>SubscriptionControlBlock\<close> of \<^verbatim>\<open>core/runtime.cpp\<close>: the bounded mailbox of one
  subscriber and its serial delivery.

  The first part has the critical sections and the operations composed from them. The second part is
  the concurrent system around one control block: any number of \<^verbatim>\<open>enqueue\<close> and
  \<^verbatim>\<open>cancel_and_wait\<close> calls, the drain tasks handed to the executor, and the callbacks they
  run outside the lock, interleaved section by section. Messages are opaque, as the
  \<^verbatim>\<open>shared_ptr<const void>\<close> of the source is. The executor shows up as the outcome of
  \<^verbatim>\<open>execute\<close>: true, false, or an exception.
\<close>

section \<open>Data\<close>

datatype overflow_policy = DropOldest | RejectNewest

record subscription_options =
  queue_depth :: size_t
  overflow_policy :: overflow_policy
  receive_remote :: bool

definition default_options :: subscription_options where
  "default_options = \<lparr>queue_depth = 10, overflow_policy = DropOldest, receive_remote = True\<rparr>"

record delivery_outcome =
  do_enqueued :: bool
  do_dropped_oldest :: bool
  do_rejected_newest :: bool
  do_executor_rejected :: bool

definition no_outcome :: delivery_outcome where
  "no_outcome = \<lparr>do_enqueued = False, do_dropped_oldest = False, do_rejected_newest = False,
     do_executor_rejected = False\<rparr>"

record 'm control_block =
  cb_options :: subscription_options
  cb_pending :: "'m list"
  cb_active :: bool
  cb_scheduled :: bool
  cb_in_flight :: size_t
  cb_callback_thread :: "nat option"
  cb_enqueued :: u64
  cb_delivered :: u64
  cb_dropped_oldest :: u64
  cb_rejected_newest :: u64
  cb_executor_rejected :: u64
  cb_callback_errors :: u64

record subscription_stats =
  st_enqueued :: u64
  st_delivered :: u64
  st_dropped_oldest :: u64
  st_rejected_newest :: u64
  st_executor_rejected :: u64
  st_callback_errors :: u64
  st_pending :: size_t
  st_in_flight :: size_t
  st_active :: bool

section \<open>Operations\<close>

text \<open>\<open>has_callback\<close>: the callback is not an empty \<^verbatim>\<open>std::function\<close>.\<close>

definition control_block_new :: "subscription_options \<Rightarrow> bool \<Rightarrow> 'm control_block result" where
  "control_block_new options has_callback =
     (if queue_depth options = 0
      then Inl (MiddlewareError ''subscription queue_depth must be greater than zero'')
      else if \<not> has_callback
      then Inl (MiddlewareError ''subscription callback must not be empty'')
      else Inr \<lparr>cb_options = options, cb_pending = [], cb_active = True, cb_scheduled = False,
        cb_in_flight = 0, cb_callback_thread = None, cb_enqueued = 0, cb_delivered = 0,
        cb_dropped_oldest = 0, cb_rejected_newest = 0, cb_executor_rejected = 0,
        cb_callback_errors = 0\<rparr>)"

text \<open>
  The first critical section of \<^verbatim>\<open>enqueue\<close>: the outcome so far and whether a drain has to
  be scheduled.
\<close>

definition enqueue_push ::
  "'m \<Rightarrow> delivery_outcome \<Rightarrow> 'm control_block \<Rightarrow> delivery_outcome \<times> bool \<times> 'm control_block" where
  "enqueue_push m outcome b =
     (let b1 = b\<lparr>cb_pending := cb_pending b @ [m], cb_enqueued := cb_enqueued b + 1\<rparr>;
          outcome1 = outcome\<lparr>do_enqueued := True\<rparr>
      in if \<not> cb_scheduled b1 then (outcome1, True, b1\<lparr>cb_scheduled := True\<rparr>)
         else (outcome1, False, b1))"

definition enqueue_locked ::
  "'m \<Rightarrow> bool \<Rightarrow> 'm control_block \<Rightarrow> delivery_outcome \<times> bool \<times> 'm control_block" where
  "enqueue_locked m is_remote b =
     (if \<not> cb_active b then (no_outcome, False, b)
      else if is_remote \<and> \<not> receive_remote (cb_options b) then (no_outcome, False, b)
      else if length (cb_pending b) \<ge> unat (queue_depth (cb_options b))
      then (if overflow_policy (cb_options b) = RejectNewest
            then (no_outcome\<lparr>do_rejected_newest := True\<rparr>, False,
                  b\<lparr>cb_rejected_newest := cb_rejected_newest b + 1\<rparr>)
            else enqueue_push m (no_outcome\<lparr>do_dropped_oldest := True\<rparr>)
                   (b\<lparr>cb_pending := tl (cb_pending b), cb_dropped_oldest := cb_dropped_oldest b + 1\<rparr>))
      else enqueue_push m no_outcome b)"

text \<open>The critical section after a post that failed.\<close>

definition enqueue_rollback :: "'m control_block \<Rightarrow> 'm control_block" where
  "enqueue_rollback b =
     b\<lparr>cb_executor_rejected := cb_executor_rejected b + of_nat (length (cb_pending b)),
       cb_pending := [], cb_scheduled := False\<rparr>"

text \<open>The whole of \<^verbatim>\<open>enqueue\<close>, without interference; \<open>posted\<close> is the outcome of
  \<^verbatim>\<open>execute\<close> in case it is called.\<close>

definition enqueue ::
  "'m \<Rightarrow> bool result \<Rightarrow> bool \<Rightarrow> 'm control_block \<Rightarrow> delivery_outcome result \<times> 'm control_block" where
  "enqueue m posted is_remote b =
     (case enqueue_locked m is_remote b of (outcome, must_schedule, b1) \<Rightarrow>
        if must_schedule
        then (case posted of
            Inl e \<Rightarrow> (Inl e, enqueue_rollback b1)
          | Inr True \<Rightarrow> (Inr outcome, b1)
          | Inr False \<Rightarrow>
              (Inr (outcome\<lparr>do_enqueued := False, do_executor_rejected := True\<rparr>), enqueue_rollback b1))
        else (Inr outcome, b1))"

definition cancel :: "'m control_block \<Rightarrow> 'm control_block" where
  "cancel b = b\<lparr>cb_active := False, cb_pending := []\<rparr>"

text \<open>The second critical section of \<^verbatim>\<open>cancel_and_wait\<close> on thread \<open>tid\<close>; \<open>None\<close>: it waits.\<close>

definition wait_idle :: "nat \<Rightarrow> 'm control_block \<Rightarrow> unit result option" where
  "wait_idle tid b =
     (if cb_in_flight b \<noteq> 0 \<and> cb_callback_thread b = Some tid
      then Some (Inl (MiddlewareError ''cancel_and_wait cannot be called from the subscription callback''))
      else if cb_in_flight b = 0 then Some (Inr ())
      else None)"

definition control_block_stats :: "'m control_block \<Rightarrow> subscription_stats" where
  "control_block_stats b =
     \<lparr>st_enqueued = cb_enqueued b, st_delivered = cb_delivered b,
      st_dropped_oldest = cb_dropped_oldest b, st_rejected_newest = cb_rejected_newest b,
      st_executor_rejected = cb_executor_rejected b, st_callback_errors = cb_callback_errors b,
      st_pending = of_nat (length (cb_pending b)), st_in_flight = cb_in_flight b, st_active = cb_active b\<rparr>"

text \<open>The two critical sections of one round of \<^verbatim>\<open>drain\<close> on thread \<open>tid\<close>.\<close>

definition drain_begin :: "nat \<Rightarrow> 'm control_block \<Rightarrow> 'm option \<times> 'm control_block" where
  "drain_begin tid b =
     (if \<not> cb_active b then (None, b\<lparr>cb_pending := [], cb_scheduled := False\<rparr>)
      else (case cb_pending b of
          [] \<Rightarrow> (None, b\<lparr>cb_scheduled := False\<rparr>)
        | m # ms \<Rightarrow> (Some m, b\<lparr>cb_pending := ms, cb_in_flight := cb_in_flight b + 1,
            cb_callback_thread := Some tid\<rparr>)))"

definition drain_end :: "bool \<Rightarrow> 'm control_block \<Rightarrow> 'm control_block" where
  "drain_end callback_failed b =
     b\<lparr>cb_in_flight := cb_in_flight b - 1, cb_delivered := cb_delivered b + 1,
       cb_callback_errors := cb_callback_errors b + of_bool callback_failed,
       cb_callback_thread := None\<rparr>"

text \<open>
  The whole loop of \<^verbatim>\<open>drain\<close> when nothing interferes: \<open>fails m\<close> says whether the callback
  throws on \<open>m\<close>. The result lists the messages given to the callback.
\<close>

function drain :: "nat \<Rightarrow> ('m \<Rightarrow> bool) \<Rightarrow> 'm control_block \<Rightarrow> 'm list \<times> 'm control_block" where
  "drain tid fails b = (case drain_begin tid b of
       (None, b1) \<Rightarrow> ([], b1)
     | (Some m, b1) \<Rightarrow>
         (case drain tid fails (drain_end (fails m) b1) of (ms, b2) \<Rightarrow> (m # ms, b2)))"
  by pat_completeness auto

termination
  by (relation "measure (\<lambda>(tid, fails, b). length (cb_pending b))")
    (auto simp: drain_begin_def drain_end_def split: if_splits list.splits)

declare drain.simps [simp del]

section \<open>The concurrent system\<close>

datatype 'm enqueue_pc =
    EnqLock 'm bool
  | EnqPost delivery_outcome
  | EnqRollback "delivery_outcome result"
  | EnqDone "delivery_outcome result"

datatype 'm drain_pc =
    DrainQueued
  | DrainLock nat
  | DrainCall nat 'm
  | DrainUnlock nat bool
  | DrainDone

datatype wait_pc = WaitCancel | WaitLock | WaitSleep | WaitDone "unit result"

text \<open>
  The last five fields are history, in order: the messages put into the mailbox, those given to
  the callback, those dropped for newer ones, those thrown away because the executor refused
  the drain, and those thrown away by a cancellation. No step reads them.
\<close>

record 'm sub_system =
  ss_block :: "'m control_block"
  ss_enqueues :: "'m enqueue_pc list"
  ss_drains :: "'m drain_pc list"
  ss_waits :: "(nat \<times> wait_pc) list"
  ss_accepted :: "'m list"
  ss_started :: "'m list"
  ss_dropped :: "'m list"
  ss_refused :: "'m list"
  ss_cleared :: "'m list"

definition do_cancel :: "'m sub_system \<Rightarrow> 'm sub_system" where
  "do_cancel s = s\<lparr>ss_block := cancel (ss_block s),
     ss_cleared := ss_cleared s @ cb_pending (ss_block s)\<rparr>"

text \<open>One step of an \<^verbatim>\<open>enqueue\<close> call; \<open>posted\<close> is what \<^verbatim>\<open>execute\<close> returns.
  A successful post adds a drain task.\<close>

definition enqueue_step :: "bool result \<Rightarrow> nat \<Rightarrow> 'm sub_system \<Rightarrow> 'm sub_system option" where
  "enqueue_step posted i s = (case ss_enqueues s ! i of
       EnqLock m is_remote \<Rightarrow>
         (case enqueue_locked m is_remote (ss_block s) of (outcome, must_schedule, b) \<Rightarrow>
           Some (s\<lparr>ss_block := b,
             ss_enqueues := (ss_enqueues s)[i := if must_schedule then EnqPost outcome else EnqDone (Inr outcome)],
             ss_accepted := (if do_enqueued outcome then ss_accepted s @ [m] else ss_accepted s),
             ss_dropped := (if do_dropped_oldest outcome then ss_dropped s @ [hd (cb_pending (ss_block s))]
               else ss_dropped s)\<rparr>))
     | EnqPost outcome \<Rightarrow> (case posted of
           Inr True \<Rightarrow> Some (s\<lparr>ss_enqueues := (ss_enqueues s)[i := EnqDone (Inr outcome)],
             ss_drains := ss_drains s @ [DrainQueued]\<rparr>)
         | Inr False \<Rightarrow> Some (s\<lparr>ss_enqueues := (ss_enqueues s)
             [i := EnqRollback (Inr (outcome\<lparr>do_enqueued := False, do_executor_rejected := True\<rparr>))]\<rparr>)
         | Inl e \<Rightarrow> Some (s\<lparr>ss_enqueues := (ss_enqueues s)[i := EnqRollback (Inl e)]\<rparr>))
     | EnqRollback r \<Rightarrow> Some (s\<lparr>ss_block := enqueue_rollback (ss_block s),
         ss_enqueues := (ss_enqueues s)[i := EnqDone r],
         ss_refused := ss_refused s @ cb_pending (ss_block s)\<rparr>)
     | EnqDone r \<Rightarrow> None)"

text \<open>One step of a drain task; a queued one starts on some worker \<open>tid\<close>, and \<open>fails\<close> says how
  the callback ends.\<close>

definition drain_step :: "nat \<Rightarrow> bool \<Rightarrow> nat \<Rightarrow> 'm sub_system \<Rightarrow> 'm sub_system option" where
  "drain_step tid fails i s = (case ss_drains s ! i of
       DrainQueued \<Rightarrow> Some (s\<lparr>ss_drains := (ss_drains s)[i := DrainLock tid]\<rparr>)
     | DrainLock t \<Rightarrow> (case drain_begin t (ss_block s) of
           (None, b) \<Rightarrow> Some (s\<lparr>ss_block := b, ss_drains := (ss_drains s)[i := DrainDone],
             ss_cleared := ss_cleared s @ cb_pending (ss_block s)\<rparr>)
         | (Some m, b) \<Rightarrow> Some (s\<lparr>ss_block := b, ss_drains := (ss_drains s)[i := DrainCall t m],
             ss_started := ss_started s @ [m]\<rparr>))
     | DrainCall t m \<Rightarrow> Some (s\<lparr>ss_drains := (ss_drains s)[i := DrainUnlock t fails]\<rparr>)
     | DrainUnlock t f \<Rightarrow> Some (s\<lparr>ss_block := drain_end f (ss_block s),
         ss_drains := (ss_drains s)[i := DrainLock t]\<rparr>)
     | DrainDone \<Rightarrow> None)"

definition wait_step :: "nat \<Rightarrow> 'm sub_system \<Rightarrow> 'm sub_system option" where
  "wait_step i s = (case ss_waits s ! i of (tid, pc) \<Rightarrow> (case pc of
       WaitCancel \<Rightarrow> Some ((do_cancel s)\<lparr>ss_waits := (ss_waits s)[i := (tid, WaitLock)]\<rparr>)
     | WaitLock \<Rightarrow> (case wait_idle tid (ss_block s) of
           None \<Rightarrow> Some (s\<lparr>ss_waits := (ss_waits s)[i := (tid, WaitSleep)]\<rparr>)
         | Some r \<Rightarrow> Some (s\<lparr>ss_waits := (ss_waits s)[i := (tid, WaitDone r)]\<rparr>))
     | WaitSleep \<Rightarrow>
         (if cb_in_flight (ss_block s) = 0
          then Some (s\<lparr>ss_waits := (ss_waits s)[i := (tid, WaitDone (Inr ()))]\<rparr>) else None)
     | WaitDone r \<Rightarrow> None))"

inductive sub_step :: "'m sub_system \<Rightarrow> 'm sub_system \<Rightarrow> bool" where
  EnqueueCall: "sub_step s (s\<lparr>ss_enqueues := ss_enqueues s @ [EnqLock m is_remote]\<rparr>)"
| Enqueue: "i < length (ss_enqueues s) \<Longrightarrow> enqueue_step posted i s = Some s' \<Longrightarrow> sub_step s s'"
| Drain: "i < length (ss_drains s) \<Longrightarrow> drain_step tid fails i s = Some s' \<Longrightarrow> sub_step s s'"
| Cancel: "sub_step s (do_cancel s)"
| WaitCall: "sub_step s (s\<lparr>ss_waits := ss_waits s @ [(tid, WaitCancel)]\<rparr>)"
| Wait: "i < length (ss_waits s) \<Longrightarrow> wait_step i s = Some s' \<Longrightarrow> sub_step s s'"

definition sub_start :: "'m control_block \<Rightarrow> 'm sub_system" where
  "sub_start b = \<lparr>ss_block = b, ss_enqueues = [], ss_drains = [], ss_waits = [],
     ss_accepted = [], ss_started = [], ss_dropped = [], ss_refused = [], ss_cleared = []\<rparr>"

inductive sub_reach :: "'m sub_system \<Rightarrow> bool" where
  Start: "control_block_new options has_callback = Inr b \<Longrightarrow> sub_reach (sub_start b)"
| Step: "sub_reach s \<Longrightarrow> sub_step s s' \<Longrightarrow> sub_reach s'"

text \<open>Positions the invariants count.\<close>

fun live_drain :: "'m drain_pc \<Rightarrow> bool" where
  "live_drain DrainDone = False"
| "live_drain pc = True"

fun in_callback :: "'m drain_pc \<Rightarrow> bool" where
  "in_callback (DrainCall t m) = True"
| "in_callback (DrainUnlock t f) = True"
| "in_callback pc = False"

fun scheduling :: "'m enqueue_pc \<Rightarrow> bool" where
  "scheduling (EnqPost outcome) = True"
| "scheduling (EnqRollback r) = True"
| "scheduling pc = False"

section \<open>Invariants\<close>

lemmas block_ops = enqueue_push_def enqueue_locked_def enqueue_rollback_def cancel_def wait_idle_def
  drain_begin_def drain_end_def no_outcome_def Let_def

lemmas sub_steps = enqueue_step_def drain_step_def wait_step_def do_cancel_def

definition block_ok :: "'m control_block \<Rightarrow> bool" where
  "block_ok b \<longleftrightarrow> queue_depth (cb_options b) \<noteq> 0 \<and>
     length (cb_pending b) \<le> unat (queue_depth (cb_options b)) \<and>
     (cb_pending b \<noteq> [] \<longrightarrow> cb_scheduled b) \<and> (\<not> cb_active b \<longrightarrow> cb_pending b = [])"

text \<open>One drain at most: scheduled, being posted, or running.\<close>

definition single_drain :: "'m sub_system \<Rightarrow> bool" where
  "single_drain s \<longleftrightarrow>
     num live_drain (ss_drains s) + num scheduling (ss_enqueues s) = of_bool (cb_scheduled (ss_block s)) \<and>
     cb_in_flight (ss_block s) = of_nat (num in_callback (ss_drains s))"

text \<open>Where the messages are, and in which order they are delivered.\<close>

definition messages_ok :: "'m sub_system \<Rightarrow> bool" where
  "messages_ok s \<longleftrightarrow>
     subseq (ss_started s @ cb_pending (ss_block s)) (ss_accepted s) \<and>
     mset (ss_accepted s) = mset (ss_started s) + mset (cb_pending (ss_block s)) + mset (ss_dropped s) +
       mset (ss_refused s) + mset (ss_cleared s)"

definition sub_counters :: "'m sub_system \<Rightarrow> bool" where
  "sub_counters s \<longleftrightarrow>
     cb_enqueued (ss_block s) = of_nat (length (ss_accepted s)) \<and>
     cb_dropped_oldest (ss_block s) = of_nat (length (ss_dropped s)) \<and>
     cb_executor_rejected (ss_block s) = of_nat (length (ss_refused s)) \<and>
     cb_delivered (ss_block s) + of_nat (num in_callback (ss_drains s)) = of_nat (length (ss_started s))"

lemma depth_pos: "queue_depth opts \<noteq> 0 \<Longrightarrow> 0 < unat (queue_depth opts)"
  using unat_eq_0 [of "queue_depth opts"] by simp

lemma block_ok_enqueue:
  "block_ok b \<Longrightarrow> enqueue_locked m r b = (outcome, must, b') \<Longrightarrow> block_ok b'"
  using depth_pos [of "cb_options b"]
  by (auto simp: block_ops block_ok_def split: if_splits)

lemma block_ok_other:
  "block_ok b \<Longrightarrow> block_ok (enqueue_rollback b)" "block_ok b \<Longrightarrow> block_ok (cancel b)"
  "block_ok b \<Longrightarrow> block_ok (drain_end f b)" "block_ok b \<Longrightarrow> drain_begin t b = (r, b') \<Longrightarrow> block_ok b'"
  by (auto simp: block_ops block_ok_def split: if_splits list.splits)

text \<open>The transitions one by one, with the critical section each performs.\<close>

lemma enqueue_step_cases [consumes 1, case_names Lock Posted Refused Rollback]:
  assumes "enqueue_step posted i s = Some s'"
  obtains m r outcome must b where "ss_enqueues s ! i = EnqLock m r"
      "enqueue_locked m r (ss_block s) = (outcome, must, b)"
      "s' = s\<lparr>ss_block := b,
        ss_enqueues := (ss_enqueues s)[i := if must then EnqPost outcome else EnqDone (Inr outcome)],
        ss_accepted := (if do_enqueued outcome then ss_accepted s @ [m] else ss_accepted s),
        ss_dropped := (if do_dropped_oldest outcome then ss_dropped s @ [hd (cb_pending (ss_block s))]
          else ss_dropped s)\<rparr>"
  | outcome where "ss_enqueues s ! i = EnqPost outcome"
      "s' = s\<lparr>ss_enqueues := (ss_enqueues s)[i := EnqDone (Inr outcome)],
        ss_drains := ss_drains s @ [DrainQueued]\<rparr>"
  | outcome r where "ss_enqueues s ! i = EnqPost outcome"
      "s' = s\<lparr>ss_enqueues := (ss_enqueues s)[i := EnqRollback r]\<rparr>"
  | r where "ss_enqueues s ! i = EnqRollback r"
      "s' = s\<lparr>ss_block := enqueue_rollback (ss_block s), ss_enqueues := (ss_enqueues s)[i := EnqDone r],
        ss_refused := ss_refused s @ cb_pending (ss_block s)\<rparr>"
proof (cases "ss_enqueues s ! i")
  case (EnqLock m r)
  then show thesis
    using assms that(1) by (auto simp: enqueue_step_def split: prod.splits)
next
  case (EnqPost outcome)
  then show thesis
    using assms that(2,3) by (auto simp: enqueue_step_def split: sum.splits bool.splits)
qed (use assms that(4) in \<open>auto simp: enqueue_step_def\<close>)

lemma drain_step_cases [consumes 1, case_names Pick Begin Return Call End]:
  assumes "drain_step tid fails i s = Some s'"
  obtains "ss_drains s ! i = DrainQueued" "s' = s\<lparr>ss_drains := (ss_drains s)[i := DrainLock tid]\<rparr>"
  | t m b where "ss_drains s ! i = DrainLock t" "drain_begin t (ss_block s) = (Some m, b)"
      "s' = s\<lparr>ss_block := b, ss_drains := (ss_drains s)[i := DrainCall t m], ss_started := ss_started s @ [m]\<rparr>"
  | t b where "ss_drains s ! i = DrainLock t" "drain_begin t (ss_block s) = (None, b)"
      "s' = s\<lparr>ss_block := b, ss_drains := (ss_drains s)[i := DrainDone],
        ss_cleared := ss_cleared s @ cb_pending (ss_block s)\<rparr>"
  | t m where "ss_drains s ! i = DrainCall t m" "s' = s\<lparr>ss_drains := (ss_drains s)[i := DrainUnlock t fails]\<rparr>"
  | t f where "ss_drains s ! i = DrainUnlock t f"
      "s' = s\<lparr>ss_block := drain_end f (ss_block s), ss_drains := (ss_drains s)[i := DrainLock t]\<rparr>"
proof (cases "ss_drains s ! i")
  case (DrainLock t)
  then show thesis
    using assms that(2,3) by (auto simp: drain_step_def split: prod.splits option.splits)
qed (use assms that(1,4,5) in \<open>auto simp: drain_step_def\<close>)

lemma wait_step_cases [consumes 1, case_names Cancelled Checked]:
  assumes "wait_step i s = Some s'"
  obtains tid where "ss_waits s ! i = (tid, WaitCancel)"
      "s' = (do_cancel s)\<lparr>ss_waits := (ss_waits s)[i := (tid, WaitLock)]\<rparr>"
  | tid pc pc' where "ss_waits s ! i = (tid, pc)" "pc = WaitLock \<or> pc = WaitSleep"
      "s' = s\<lparr>ss_waits := (ss_waits s)[i := (tid, pc')]\<rparr>"
      "pc' = WaitDone (Inr ()) \<longrightarrow> cb_in_flight (ss_block s) = 0" "pc' \<noteq> WaitCancel"
proof -
  obtain tid pc where w: "ss_waits s ! i = (tid, pc)" by force
  show thesis
  proof (cases pc)
    case WaitLock
    then show thesis
      using assms w that(2) [of tid pc] by (auto simp: wait_step_def wait_idle_def split: if_splits)
  next
    case WaitSleep
    then show thesis
      using assms w that(2) [of tid pc] by (auto simp: wait_step_def split: if_splits)
  qed (use assms w that(1) in \<open>auto simp: wait_step_def\<close>)
qed

lemma sub_step_block_ok:
  assumes "sub_step s s'" and "block_ok (ss_block s)"
  shows "block_ok (ss_block s')"
  using assms(1)
proof cases
  case (Enqueue i posted)
  from Enqueue(2) show ?thesis
    by (cases rule: enqueue_step_cases) (use assms(2) block_ok_enqueue block_ok_other in auto)
next
  case (Drain i tid fails)
  from Drain(2) show ?thesis
    by (cases rule: drain_step_cases) (use assms(2) block_ok_other in auto)
next
  case (Wait i)
  from Wait(2) show ?thesis
    by (cases rule: wait_step_cases) (use assms(2) block_ok_other in \<open>auto simp: do_cancel_def\<close>)
qed (use assms(2) block_ok_other in \<open>auto simp: do_cancel_def\<close>)

lemma enqueue_locked_effect:
  assumes "enqueue_locked m r b = (outcome, must, b')" and "block_ok b"
  shows "must \<longleftrightarrow> do_enqueued outcome \<and> \<not> cb_scheduled b"
    "cb_scheduled b' \<longleftrightarrow> cb_scheduled b \<or> do_enqueued outcome"
    "do_dropped_oldest outcome \<Longrightarrow> do_enqueued outcome \<and> cb_pending b \<noteq> []"
    "cb_pending b' = (if do_enqueued outcome
       then (if do_dropped_oldest outcome then tl (cb_pending b) else cb_pending b) @ [m] else cb_pending b)"
    "cb_enqueued b' = cb_enqueued b + of_bool (do_enqueued outcome)"
    "cb_dropped_oldest b' = cb_dropped_oldest b + of_bool (do_dropped_oldest outcome)"
    "cb_in_flight b' = cb_in_flight b" "cb_delivered b' = cb_delivered b"
    "cb_executor_rejected b' = cb_executor_rejected b" "cb_active b' = cb_active b"
    "cb_callback_thread b' = cb_callback_thread b" "do_enqueued outcome \<Longrightarrow> cb_active b"
  using assms depth_pos [of "cb_options b"]
  by (auto simp: block_ops block_ok_def split: if_splits)

lemma drain_begin_effect:
  "drain_begin t b = (Some m, b') \<Longrightarrow> cb_active b \<and> cb_pending b = m # cb_pending b' \<and>
     cb_in_flight b' = cb_in_flight b + 1 \<and> cb_callback_thread b' = Some t \<and> cb_active b' \<and>
     cb_scheduled b' = cb_scheduled b \<and> cb_enqueued b' = cb_enqueued b \<and>
     cb_delivered b' = cb_delivered b \<and> cb_dropped_oldest b' = cb_dropped_oldest b \<and>
     cb_executor_rejected b' = cb_executor_rejected b"
  "drain_begin t b = (None, b') \<Longrightarrow> b' = b\<lparr>cb_pending := [], cb_scheduled := False\<rparr>"
  by (auto simp: drain_begin_def split: if_splits list.splits)

lemma enqueue_step_single_drain:
  assumes "enqueue_step posted i s = Some s'" and "i < length (ss_enqueues s)"
    and "single_drain s" and "block_ok (ss_block s)"
  shows "single_drain s'"
  using assms(1)
proof (cases rule: enqueue_step_cases)
  case (Lock m r outcome must b)
  note eff = enqueue_locked_effect [OF Lock(2) assms(4)]
  show ?thesis
    using assms(3) Lock(1,3) eff(1,2,7)
      num_update [OF assms(2), of scheduling "if must then EnqPost outcome else EnqDone (Inr outcome)"]
    by (auto simp: single_drain_def split: if_splits)
next
  case (Posted outcome)
  then show ?thesis
    using assms(3) num_update [OF assms(2), of scheduling "EnqDone (Inr outcome)"]
    by (simp add: single_drain_def)
next
  case (Refused outcome r)
  then show ?thesis
    using assms(3) num_update [OF assms(2), of scheduling "EnqRollback r"] by (simp add: single_drain_def)
next
  case (Rollback r)
  then show ?thesis
    using assms(3) num_update [OF assms(2), of scheduling "EnqDone r"]
    by (auto simp: single_drain_def enqueue_rollback_def of_bool_def split: if_splits)
qed

lemma drain_step_single_drain:
  assumes "drain_step tid fails i s = Some s'" and "i < length (ss_drains s)" and "single_drain s"
  shows "single_drain s'"
proof -
  have live: "0 < num live_drain (ss_drains s)" if "live_drain (ss_drains s ! i)"
    using that num_pos [OF assms(2)] by blast
  from assms(1) show ?thesis
  proof (cases rule: drain_step_cases)
    case (Return t b)
    then show ?thesis
      using assms(2,3) live num_update [OF assms(2), of live_drain DrainDone] drain_begin_effect(2) [OF Return(2)]
      by (auto simp: single_drain_def num_same of_bool_def split: if_splits)
  next
    case (Begin t m b)
    then show ?thesis
      using assms(2,3) drain_begin_effect(1) [OF Begin(2)] num_update [OF assms(2), of live_drain "DrainCall t m"]
      by (simp add: single_drain_def of_nat_num_update)
  qed (use assms(2,3) in
      \<open>auto simp: single_drain_def drain_end_def of_nat_num_update num_same [where P = live_drain]\<close>)
qed

lemma sub_step_single_drain:
  assumes "sub_step s s'" and "single_drain s" and "block_ok (ss_block s)"
  shows "single_drain s'"
  using assms(1)
proof cases
  case (Wait i)
  from Wait(2) show ?thesis
    by (cases rule: wait_step_cases) (use assms(2) in \<open>auto simp: single_drain_def do_cancel_def cancel_def\<close>)
next
  case (Enqueue i posted)
  then show ?thesis using assms(2,3) enqueue_step_single_drain by blast
next
  case (Drain i tid fails)
  then show ?thesis using assms(2) drain_step_single_drain by blast
qed (use assms(2) in \<open>auto simp: single_drain_def do_cancel_def cancel_def\<close>)

section \<open>Where the messages go\<close>

lemma subseq_left: "subseq (xs @ ys) zs \<Longrightarrow> subseq xs zs"
  by (meson prefix_order.eq_iff prefixI prefix_imp_subseq subseq_order.trans)

lemma subseq_drop: "subseq (xs @ y # ys) zs \<Longrightarrow> subseq (xs @ ys) zs"
proof (erule subseq_order.trans [rotated])
  show "subseq (xs @ ys) (xs @ y # ys)" by (intro list_emb_append_mono) auto
qed

lemma enqueue_step_messages:
  assumes "enqueue_step posted i s = Some s'" and "messages_ok s" and "block_ok (ss_block s)"
  shows "messages_ok s'"
  using assms(1)
proof (cases rule: enqueue_step_cases)
  case (Lock m r outcome must b)
  note eff = enqueue_locked_effect [OF Lock(2) assms(3)]
  let ?p = "cb_pending (ss_block s)"
  show ?thesis
  proof (cases "do_dropped_oldest outcome")
    case True
    then obtain x xs where p: "?p = x # xs" and "do_enqueued outcome"
      using eff(3) by (cases ?p) auto
    moreover have "subseq (ss_started s @ xs) (ss_accepted s)"
      using assms(2) p by (auto simp: messages_ok_def dest: subseq_drop)
    then have "subseq ((ss_started s @ xs) @ [m]) (ss_accepted s @ [m])"
      by (intro list_emb_append_mono) auto
    ultimately show ?thesis using Lock(3) True assms(2) eff(4) by (simp add: messages_ok_def)
  next
    case False
    have "subseq ((ss_started s @ ?p) @ [m]) (ss_accepted s @ [m])"
      using assms(2) by (intro list_emb_append_mono) (auto simp: messages_ok_def)
    then show ?thesis using Lock(3) False assms(2) eff(4) by (simp add: messages_ok_def)
  qed
next
  case (Rollback r)
  then show ?thesis
    using assms(2) by (auto simp: messages_ok_def enqueue_rollback_def dest: subseq_left)
qed (use assms(2) in \<open>simp_all add: messages_ok_def\<close>)

lemma drain_step_messages:
  assumes "drain_step tid fails i s = Some s'" and "messages_ok s"
  shows "messages_ok s'"
  using assms(1)
proof (cases rule: drain_step_cases)
  case (Begin t m b)
  then show ?thesis using assms(2) drain_begin_effect(1) [OF Begin(2)] by (auto simp: messages_ok_def)
next
  case (Return t b)
  then show ?thesis
    using assms(2) drain_begin_effect(2) [OF Return(2)] by (auto simp: messages_ok_def dest: subseq_left)
qed (use assms(2) in \<open>simp_all add: messages_ok_def drain_end_def\<close>)

lemma do_cancel_messages: "messages_ok s \<Longrightarrow> messages_ok (do_cancel s)"
  by (auto simp: messages_ok_def do_cancel_def cancel_def dest: subseq_left)

lemma sub_step_messages:
  assumes "sub_step s s'" and "messages_ok s" and "block_ok (ss_block s)"
  shows "messages_ok s'"
  using assms(1)
proof cases
  case (Wait i)
  from Wait(2) show ?thesis
    by (cases rule: wait_step_cases)
      (use assms(2) do_cancel_messages [OF assms(2)] in \<open>auto simp: messages_ok_def\<close>)
next
  case (Enqueue i posted)
  then show ?thesis using assms(2,3) enqueue_step_messages by blast
next
  case (Drain i tid fails)
  then show ?thesis using assms(2) drain_step_messages by blast
qed (use assms(2) do_cancel_messages in \<open>auto simp: messages_ok_def\<close>)

lemma sub_step_counters:
  assumes "sub_step s s'" and "sub_counters s" and "block_ok (ss_block s)"
  shows "sub_counters s'"
  using assms(1)
proof cases
  case (Wait i)
  from Wait(2) show ?thesis
    by (cases rule: wait_step_cases) (use assms(2) in \<open>auto simp: sub_counters_def do_cancel_def cancel_def\<close>)
next
  case (Enqueue i posted)
  from Enqueue(2) show ?thesis
  proof (cases rule: enqueue_step_cases)
    case (Lock m r outcome must b)
    then show ?thesis
      using assms(2) enqueue_locked_effect [OF Lock(2) assms(3)] by (auto simp: sub_counters_def)
  qed (use assms(2) in \<open>auto simp: sub_counters_def enqueue_rollback_def\<close>)
next
  case (Drain i tid fails)
  from Drain(2) show ?thesis
  proof (cases rule: drain_step_cases)
    case (Begin t m b)
    then show ?thesis
      using assms(2) Drain(1) drain_begin_effect(1) [OF Begin(2)]
      by (simp add: sub_counters_def of_nat_num_update)
  next
    case (Return t b)
    then show ?thesis
      using assms(2) Drain(1) drain_begin_effect(2) [OF Return(2)] by (simp add: sub_counters_def num_same)
  qed (use assms(2) Drain(1) in \<open>auto simp: sub_counters_def drain_end_def of_nat_num_update\<close>)
qed (use assms(2) in \<open>auto simp: sub_counters_def do_cancel_def cancel_def\<close>)

section \<open>Cancellation\<close>

text \<open>After a cancellation nothing starts any more.\<close>

lemma inactive_step:
  assumes "sub_step s s'" and "\<not> cb_active (ss_block s)" and "block_ok (ss_block s)"
  shows "\<not> cb_active (ss_block s') \<and> ss_started s' = ss_started s \<and> ss_accepted s' = ss_accepted s \<and>
    num in_callback (ss_drains s') \<le> num in_callback (ss_drains s)"
  using assms(1)
proof cases
  case (Wait i)
  from Wait(2) show ?thesis
    by (cases rule: wait_step_cases) (use assms(2) in \<open>auto simp: do_cancel_def cancel_def\<close>)
next
  case (Enqueue i posted)
  from Enqueue(2) show ?thesis
  proof (cases rule: enqueue_step_cases)
    case (Lock m r outcome must b)
    then show ?thesis
      using assms(2) enqueue_locked_effect [OF Lock(2) assms(3)] by auto
  qed (use assms(2) in \<open>auto simp: enqueue_rollback_def\<close>)
next
  case (Drain i tid fails)
  from Drain(2) show ?thesis
  proof (cases rule: drain_step_cases)
    case (Begin t m b)
    then show ?thesis using assms(2) drain_begin_effect(1) [OF Begin(2)] by simp
  next
    case (Return t b)
    then show ?thesis
      using assms(2) Drain(1) drain_begin_effect(2) [OF Return(2)] by (simp add: num_same)
  next
    case (End t f)
    then show ?thesis
      using assms(2) num_update [OF Drain(1), of in_callback "DrainLock t"] by (simp add: drain_end_def)
  qed (use assms(2) Drain(1) in \<open>auto simp: num_same\<close>)
qed (use assms(2) in \<open>auto simp: do_cancel_def cancel_def\<close>)

text \<open>
  A \<^verbatim>\<open>cancel_and_wait\<close> call past its first section has deactivated the block, and one that
  returned normally has seen the last callback end.
\<close>

definition waits_ok :: "'m sub_system \<Rightarrow> bool" where
  "waits_ok s \<longleftrightarrow> (\<forall>(tid, pc) \<in> set (ss_waits s).
     (pc \<noteq> WaitCancel \<longrightarrow> \<not> cb_active (ss_block s)) \<and>
     (pc = WaitDone (Inr ()) \<longrightarrow> num in_callback (ss_drains s) = 0))"

lemma sub_step_active: "sub_step s s' \<Longrightarrow> block_ok (ss_block s) \<Longrightarrow> \<not> cb_active (ss_block s) \<Longrightarrow> \<not> cb_active (ss_block s')"
  using inactive_step by blast

lemma in_callback_live: "num in_callback ds \<le> num live_drain ds"
proof (rule num_mono)
  fix d :: "'a drain_pc"
  show "in_callback d \<Longrightarrow> live_drain d" by (cases d) auto
qed

lemma single_drain_le: "single_drain s \<Longrightarrow> num in_callback (ss_drains s) \<le> 1 \<and> num live_drain (ss_drains s) \<le> 1"
  using in_callback_live [of "ss_drains s"] by (auto simp: single_drain_def of_bool_def split: if_splits)

lemma in_flight_zero:
  assumes "single_drain s"
  shows "cb_in_flight (ss_block s) = 0 \<longleftrightarrow> num in_callback (ss_drains s) = 0"
proof -
  have "num in_callback (ss_drains s) = 0 \<or> num in_callback (ss_drains s) = 1"
    using single_drain_le [OF assms] by auto
  then show ?thesis using assms by (auto simp: single_drain_def)
qed

lemma waits_ok_later:
  assumes "waits_ok s" and "ss_waits s' = ss_waits s" and "sub_step s s'" and "block_ok (ss_block s)"
  shows "waits_ok s'"
  using assms inactive_step [OF assms(3) _ assms(4)]
  unfolding waits_ok_def by (fastforce split: prod.splits)

lemma sub_step_waits:
  assumes "sub_step s s'" and "waits_ok s" and "block_ok (ss_block s)" and "single_drain s"
  shows "waits_ok s'"
  using assms(1)
proof cases
  case (Wait i)
  from Wait(2) show ?thesis
  proof (cases rule: wait_step_cases)
    case (Cancelled tid)
    then show ?thesis
      using assms(2) set_update_subset_insert [of "ss_waits s" i "(tid, WaitLock)"]
      by (auto simp: waits_ok_def do_cancel_def cancel_def)
  next
    case (Checked tid pc pc')
    have "(tid, pc) \<in> set (ss_waits s)" using Wait(1) Checked(1) nth_mem by metis
    then have "\<not> cb_active (ss_block s)" using assms(2) Checked(2) by (auto simp: waits_ok_def)
    then show ?thesis
      using Checked(3-5) assms(2) in_flight_zero [OF assms(4)] set_update_subset_insert [of "ss_waits s" i "(tid, pc')"]
      by (auto simp: waits_ok_def)
  qed
next
  case (Enqueue i posted)
  moreover have "ss_waits s' = ss_waits s"
    using Enqueue(2) by (cases rule: enqueue_step_cases) auto
  ultimately show ?thesis using waits_ok_later assms by blast
next
  case (Drain i tid fails)
  moreover have "ss_waits s' = ss_waits s"
    using Drain(2) by (cases rule: drain_step_cases) auto
  ultimately show ?thesis using waits_ok_later assms by blast
next
  case Cancel
  then show ?thesis using waits_ok_later [OF assms(2) _ assms(1,3)] by (simp add: do_cancel_def)
qed (use assms(2) in \<open>auto simp: waits_ok_def\<close>)

text \<open>The recorded callback thread is the thread that runs the callback.\<close>

fun drain_thread :: "'m drain_pc \<Rightarrow> nat option" where
  "drain_thread (DrainLock t) = Some t"
| "drain_thread (DrainCall t m) = Some t"
| "drain_thread (DrainUnlock t f) = Some t"
| "drain_thread pc = None"

definition thread_ok :: "'m sub_system \<Rightarrow> bool" where
  "thread_ok s \<longleftrightarrow> (\<forall>d \<in> set (ss_drains s). in_callback d \<longrightarrow>
     cb_callback_thread (ss_block s) = drain_thread d)"

lemma live_alone:
  assumes "single_drain s" and "i < length (ss_drains s)" and "live_drain (ss_drains s ! i)"
    and "d \<in> set ((ss_drains s)[i := x])" and "in_callback d"
  shows "d = x"
proof (rule ccontr)
  assume "d \<noteq> x"
  obtain k where k: "k < length (ss_drains s)" "(ss_drains s)[i := x] ! k = d"
    using assms(4) by (auto simp: in_set_conv_nth)
  have "k \<noteq> i" using k \<open>d \<noteq> x\<close> by auto
  with k obtain j where j: "j < length (ss_drains s)" "ss_drains s ! j = d" "j \<noteq> i" by auto
  have "live_drain d" using assms(5) by (cases d) auto
  then show False
    using num_le_1_unique [of live_drain "ss_drains s" i j] single_drain_le [OF assms(1)] assms(2,3) j by auto
qed

lemma thread_ok_update:
  assumes "single_drain s" and "i < length (ss_drains s)" and "live_drain (ss_drains s ! i)"
    and "ss_drains s' = (ss_drains s)[i := x]"
    and "in_callback x \<Longrightarrow> cb_callback_thread (ss_block s') = drain_thread x"
  shows "thread_ok s'"
  unfolding thread_ok_def
proof (intro ballI impI)
  fix d
  assume "d \<in> set (ss_drains s')" and "in_callback d"
  then have "d = x" using live_alone [OF assms(1-3)] assms(4) by simp
  then show "cb_callback_thread (ss_block s') = drain_thread d" using \<open>in_callback d\<close> assms(5) by simp
qed

lemma sub_step_thread:
  assumes "sub_step s s'" and "thread_ok s" and "block_ok (ss_block s)" and "single_drain s"
  shows "thread_ok s'"
  using assms(1)
proof cases
  case (Wait i)
  from Wait(2) show ?thesis
    by (cases rule: wait_step_cases) (use assms(2) in \<open>auto simp: thread_ok_def do_cancel_def cancel_def\<close>)
next
  case (Enqueue i posted)
  from Enqueue(2) show ?thesis
  proof (cases rule: enqueue_step_cases)
    case (Lock m r outcome must b)
    then show ?thesis
      using assms(2) enqueue_locked_effect(11) [OF Lock(2) assms(3)] by (simp add: thread_ok_def)
  qed (use assms(2) in \<open>auto simp: thread_ok_def enqueue_rollback_def\<close>)
next
  case (Drain i tid fails)
  note upd = thread_ok_update [OF assms(4) Drain(1)]
  have old: "ss_drains s ! i \<in> set (ss_drains s)" using Drain(1) by simp
  from Drain(2) show ?thesis
  proof (cases rule: drain_step_cases)
    case (Begin t m b)
    then show ?thesis using upd [of s' "DrainCall t m"] drain_begin_effect(1) [OF Begin(2)] by simp
  next
    case (Call t m)
    then have "cb_callback_thread (ss_block s) = Some t" using assms(2) old by (force simp: thread_ok_def)
    with Call show ?thesis using upd [of s' "DrainUnlock t fails"] by simp
  next
    case (Return t b)
    then show ?thesis using upd [of s' DrainDone] by simp
  next
    case Pick
    then show ?thesis using upd [of s' "DrainLock tid"] by simp
  next
    case (End t f)
    then show ?thesis using upd [of s' "DrainLock t"] by simp
  qed
qed (use assms(2) in \<open>auto simp: thread_ok_def do_cancel_def cancel_def\<close>)

definition sub_inv :: "'m sub_system \<Rightarrow> bool" where
  "sub_inv s \<longleftrightarrow> block_ok (ss_block s) \<and> single_drain s \<and> messages_ok s \<and> sub_counters s \<and>
     waits_ok s \<and> thread_ok s"

lemma sub_reach_inv: "sub_reach s \<Longrightarrow> sub_inv s"
proof (induction rule: sub_reach.induct)
  case (Start options has_callback b)
  then show ?case
    by (auto simp: sub_inv_def sub_start_def control_block_new_def block_ok_def single_drain_def
        messages_ok_def sub_counters_def waits_ok_def thread_ok_def split: if_splits)
next
  case (Step s s')
  then show ?case
    using sub_step_block_ok [OF Step.hyps(2)] sub_step_single_drain [OF Step.hyps(2)]
      sub_step_messages [OF Step.hyps(2)] sub_step_counters [OF Step.hyps(2)]
      sub_step_waits [OF Step.hyps(2)] sub_step_thread [OF Step.hyps(2)]
    by (simp add: sub_inv_def)
qed

lemma inactive_steps:
  "sub_step\<^sup>*\<^sup>* s s' \<Longrightarrow> sub_inv s \<Longrightarrow> \<not> cb_active (ss_block s) \<Longrightarrow>
     \<not> cb_active (ss_block s') \<and> ss_started s' = ss_started s \<and> ss_accepted s' = ss_accepted s \<and>
     num in_callback (ss_drains s') \<le> num in_callback (ss_drains s) \<and> block_ok (ss_block s')"
proof (induction rule: rtranclp_induct)
  case base
  then show ?case by (simp add: sub_inv_def)
next
  case (step y z)
  then show ?case using inactive_step [OF step.hyps(2)] sub_step_block_ok [OF step.hyps(2)] by auto
qed

section \<open>Sequential behaviour\<close>

lemma drain_active:
  assumes "cb_active b"
  shows "drain tid fails b = (cb_pending b,
     b\<lparr>cb_pending := [], cb_scheduled := False,
       cb_callback_thread := (if cb_pending b = [] then cb_callback_thread b else None),
       cb_delivered := cb_delivered b + of_nat (length (cb_pending b)),
       cb_callback_errors := cb_callback_errors b + of_nat (num fails (cb_pending b))\<rparr>)"
  using assms
proof (induction "cb_pending b" arbitrary: b)
  case Nil
  then show ?case by (subst drain.simps) (simp add: drain_begin_def num_def)
next
  case (Cons m ms)
  let ?b = "drain_end (fails m) (b\<lparr>cb_pending := ms, cb_in_flight := cb_in_flight b + 1,
      cb_callback_thread := Some tid\<rparr>)"
  have p: "cb_pending b = m # ms" using Cons.hyps(2) by simp
  have "drain tid fails ?b = (ms, ?b\<lparr>cb_pending := [], cb_scheduled := False,
       cb_callback_thread := (if ms = [] then cb_callback_thread ?b else None),
       cb_delivered := cb_delivered ?b + of_nat (length ms),
       cb_callback_errors := cb_callback_errors ?b + of_nat (num fails ms)\<rparr>)"
    using Cons.hyps(1) [of ?b] Cons.prems by (simp add: drain_end_def)
  then show ?case
    using Cons.prems p by (subst drain.simps) (simp add: drain_begin_def drain_end_def algebra_simps)
qed

section \<open>Properties of a subscription\<close>

text \<open>C19: Serial, bounded, ordered delivery: under every interleaving of publishers, drains and
  cancellations at most one drain exists and at most one callback runs, the mailbox never holds more
  than \<^verbatim>\<open>queue_depth\<close> messages, and the messages given to the callback followed by those
  waiting appear in the order in which they were enqueued.\<close>

theorem serial_ordered_delivery:
  assumes "sub_reach s"
  shows "num live_drain (ss_drains s) \<le> 1 \<and> num in_callback (ss_drains s) \<le> 1 \<and>
    length (cb_pending (ss_block s)) \<le> unat (queue_depth (cb_options (ss_block s))) \<and>
    subseq (ss_started s @ cb_pending (ss_block s)) (ss_accepted s)"
  using sub_reach_inv [OF assms] single_drain_le [of s]
  by (simp add: sub_inv_def block_ok_def messages_ok_def)

text \<open>C20: No message disappears silently: every message put into the mailbox is, exactly once,
  delivered, waiting, dropped for a newer one, refused by the executor or cleared by a
  cancellation, the counters say how many of each (modulo \<open>2\<^sup>6\<^sup>4\<close>), and while a message waits there
  is exactly one drain scheduled or about to be posted that will come for it.\<close>

theorem messages_conserved:
  assumes "sub_reach s"
  shows "mset (ss_accepted s) = mset (ss_started s) + mset (cb_pending (ss_block s)) +
      mset (ss_dropped s) + mset (ss_refused s) + mset (ss_cleared s) \<and>
    cb_enqueued (ss_block s) = of_nat (length (ss_accepted s)) \<and>
    cb_delivered (ss_block s) + cb_in_flight (ss_block s) = of_nat (length (ss_started s)) \<and>
    cb_dropped_oldest (ss_block s) = of_nat (length (ss_dropped s)) \<and>
    cb_executor_rejected (ss_block s) = of_nat (length (ss_refused s)) \<and>
    (cb_pending (ss_block s) \<noteq> [] \<longrightarrow>
       num live_drain (ss_drains s) + num scheduling (ss_enqueues s) = 1)"
  using sub_reach_inv [OF assms]
  by (simp add: sub_inv_def messages_ok_def sub_counters_def single_drain_def block_ok_def)

text \<open>C21: After a cancellation no callback starts any more, whatever happens afterwards: no message is
  accepted, none is given to the callback, and a callback that was running can only end.\<close>

theorem no_callback_after_cancel:
  assumes "sub_reach s" and "\<not> cb_active (ss_block s)" and "sub_step\<^sup>*\<^sup>* s s'"
  shows "\<not> cb_active (ss_block s') \<and> ss_started s' = ss_started s \<and> ss_accepted s' = ss_accepted s \<and>
    num in_callback (ss_drains s') \<le> num in_callback (ss_drains s)"
  using inactive_steps [OF assms(3) sub_reach_inv [OF assms(1)] assms(2)] by blast

text \<open>C22: When \<^verbatim>\<open>cancel_and_wait\<close> returns normally, no callback of the subscription is running
  and none will ever run; called from inside the callback it throws instead of waiting for
  itself.\<close>

theorem cancel_and_wait_quiesces:
  assumes "sub_reach s"
  shows "((tid, WaitDone (Inr ())) \<in> set (ss_waits s) \<and> sub_step\<^sup>*\<^sup>* s s' \<longrightarrow>
      num in_callback (ss_drains s') = 0 \<and> ss_started s' = ss_started s) \<and>
    (DrainCall tid m \<in> set (ss_drains s) \<longrightarrow> wait_idle tid (ss_block s) = Some (Inl (MiddlewareError
      ''cancel_and_wait cannot be called from the subscription callback'')))"
proof (intro conjI impI)
  have inv: "sub_inv s" using sub_reach_inv [OF assms] .
  assume w: "(tid, WaitDone (Inr ())) \<in> set (ss_waits s) \<and> sub_step\<^sup>*\<^sup>* s s'"
  then have "\<not> cb_active (ss_block s)" "num in_callback (ss_drains s) = 0"
    using inv by (auto simp: sub_inv_def waits_ok_def)
  with w inv inactive_steps [of s s'] show "num in_callback (ss_drains s') = 0" "ss_started s' = ss_started s"
    by auto
next
  have inv: "sub_inv s" using sub_reach_inv [OF assms] .
  assume d: "DrainCall tid m \<in> set (ss_drains s)"
  then have "cb_callback_thread (ss_block s) = Some tid"
    using inv by (force simp: sub_inv_def thread_ok_def)
  moreover have "num in_callback (ss_drains s) \<noteq> 0"
    using num_pos_mem [OF d, of in_callback] by simp
  then have "cb_in_flight (ss_block s) \<noteq> 0" using inv in_flight_zero [of s] by (simp add: sub_inv_def)
  ultimately show "wait_idle tid (ss_block s) = Some (Inl (MiddlewareError
      ''cancel_and_wait cannot be called from the subscription callback''))"
    by (simp add: wait_idle_def)
qed

text \<open>The two overflow policies: into an active mailbox that obeys its bound, a message that is
  not filtered leaves the newest \<^verbatim>\<open>queue_depth\<close> messages under \<^verbatim>\<open>DropOldest\<close> and
  the oldest ones under \<^verbatim>\<open>RejectNewest\<close>; cancelled and filtered mailboxes are untouched;
  a refused drain empties the mailbox and is reported.\<close>

theorem enqueue_behaviour:
  assumes "block_ok b"
  shows "(let n = unat (queue_depth (cb_options b)); xs = cb_pending b @ [m];
      full = (length (cb_pending b) = n); out = enqueue m posted is_remote b
    in if \<not> cb_active b \<or> is_remote \<and> \<not> receive_remote (cb_options b)
       then out = (Inr no_outcome, b)
       else if full \<and> overflow_policy (cb_options b) = RejectNewest
       then fst out = Inr (no_outcome\<lparr>do_rejected_newest := True\<rparr>) \<and> cb_pending (snd out) = take n xs
       else if cb_scheduled b \<or> posted = Inr True
       then fst out = Inr (no_outcome\<lparr>do_enqueued := True, do_dropped_oldest := full\<rparr>) \<and>
         cb_pending (snd out) = drop (length xs - n) xs \<and> cb_scheduled (snd out)
       else cb_pending (snd out) = [] \<and> \<not> cb_scheduled (snd out) \<and>
         (case posted of Inl e \<Rightarrow> fst out = Inl e
          | Inr ok \<Rightarrow> fst out = Inr (no_outcome\<lparr>do_dropped_oldest := full, do_executor_rejected := True\<rparr>)))"
proof -
  have n: "0 < unat (queue_depth (cb_options b))" using assms depth_pos [of "cb_options b"] by (simp add: block_ok_def)
  have tl: "tl (cb_pending b) @ [m] = drop 1 (cb_pending b @ [m])" if "cb_pending b \<noteq> []"
    using that by (cases "cb_pending b") auto
  have le: "length (cb_pending b) \<le> unat (queue_depth (cb_options b))" using assms by (simp add: block_ok_def)
  show ?thesis
    using n le tl
    by (cases "overflow_policy (cb_options b)")
      (auto simp: enqueue_def block_ops split: sum.splits bool.splits if_splits)
qed

text \<open>An undisturbed drain of an active subscription terminates, gives every waiting message to the
  callback in order, counts each delivery and each callback that threw, and leaves the mailbox empty
  and unscheduled; after a cancellation it delivers nothing.\<close>

theorem drain_delivers_all:
  "drain tid fails b =
    (if cb_active b
     then (cb_pending b, b\<lparr>cb_pending := [], cb_scheduled := False,
       cb_callback_thread := (if cb_pending b = [] then cb_callback_thread b else None),
       cb_delivered := cb_delivered b + of_nat (length (cb_pending b)),
       cb_callback_errors := cb_callback_errors b + of_nat (num fails (cb_pending b))\<rparr>)
     else ([], b\<lparr>cb_pending := [], cb_scheduled := False\<rparr>))"
proof (cases "cb_active b")
  case True
  then show ?thesis using drain_active [OF True] by simp
next
  case False
  then show ?thesis by (subst drain.simps) (simp add: drain_begin_def)
qed

section \<open>Concrete runs\<close>

text \<open>A schedule of calls and steps, to be run on a concrete system.\<close>

datatype 'm sub_action =
    NewEnqueue 'm bool
  | DoEnqueue "bool result" nat
  | DoDrain nat bool nat
  | NewWait nat
  | DoWait nat

fun sub_act :: "'m sub_action \<Rightarrow> 'm sub_system \<Rightarrow> 'm sub_system option" where
  "sub_act (NewEnqueue m r) s = Some (s\<lparr>ss_enqueues := ss_enqueues s @ [EnqLock m r]\<rparr>)"
| "sub_act (DoEnqueue posted i) s = (if i < length (ss_enqueues s) then enqueue_step posted i s else None)"
| "sub_act (DoDrain tid fails i) s = (if i < length (ss_drains s) then drain_step tid fails i s else None)"
| "sub_act (NewWait tid) s = Some (s\<lparr>ss_waits := ss_waits s @ [(tid, WaitCancel)]\<rparr>)"
| "sub_act (DoWait i) s = (if i < length (ss_waits s) then wait_step i s else None)"

fun sub_run :: "'m sub_action list \<Rightarrow> 'm sub_system \<Rightarrow> 'm sub_system option" where
  "sub_run [] s = Some s"
| "sub_run (a # as) s = (case sub_act a s of None \<Rightarrow> None | Some s' \<Rightarrow> sub_run as s')"

lemma sub_act_step: "sub_act a s = Some s' \<Longrightarrow> sub_step s s'"
  by (cases a) (auto split: if_splits intro: sub_step.intros)

lemma sub_run_reach: "sub_run as s = Some s' \<Longrightarrow> sub_reach s \<Longrightarrow> sub_reach s'"
  by (induction as arbitrary: s) (auto split: option.splits dest: sub_act_step intro: sub_reach.Step)

definition sample_block :: "nat control_block" where
  "sample_block = \<lparr>cb_options = default_options\<lparr>queue_depth := 1\<rparr>, cb_pending = [], cb_active = True,
     cb_scheduled = False, cb_in_flight = 0, cb_callback_thread = None, cb_enqueued = 0, cb_delivered = 0,
     cb_dropped_oldest = 0, cb_rejected_newest = 0, cb_executor_rejected = 0, cb_callback_errors = 0\<rparr>"

lemma sample_reach: "sub_reach (sub_start sample_block)"
  using sub_reach.Start [of "default_options\<lparr>queue_depth := 1\<rparr>" True sample_block]
  by (simp add: control_block_new_def sample_block_def default_options_def)

text \<open>Three messages into a mailbox of depth one: the second is dropped while the first is in its callback.\<close>

definition sample_busy :: "nat sub_system" where
  "sample_busy = \<lparr>ss_block = sample_block\<lparr>cb_pending := [7], cb_scheduled := True, cb_in_flight := 1,
       cb_callback_thread := Some 3, cb_enqueued := 3, cb_dropped_oldest := 1\<rparr>,
     ss_enqueues = [EnqDone (Inr (no_outcome\<lparr>do_enqueued := True\<rparr>)),
       EnqDone (Inr (no_outcome\<lparr>do_enqueued := True\<rparr>)),
       EnqDone (Inr (no_outcome\<lparr>do_enqueued := True, do_dropped_oldest := True\<rparr>))],
     ss_drains = [DrainCall 3 5], ss_waits = [], ss_accepted = [5, 6, 7], ss_started = [5],
     ss_dropped = [6], ss_refused = [], ss_cleared = []\<rparr>"

lemma sample_busy_run:
  "sub_run [NewEnqueue 5 False, DoEnqueue (Inr True) 0, DoEnqueue (Inr True) 0, DoDrain 3 False 0,
     DoDrain 3 False 0, NewEnqueue 6 False, DoEnqueue (Inr True) 1, NewEnqueue 7 True,
     DoEnqueue (Inr True) 2] (sub_start sample_block) = Some sample_busy"
  by (simp add: sub_start_def sample_busy_def sample_block_def default_options_def sub_steps block_ops)

lemma sample_busy_reach: "sub_reach sample_busy"
  by (rule sub_run_reach [OF sample_busy_run sample_reach])

text \<open>Another thread cancels and waits; the callback ends, the drain returns, the waiter returns.\<close>

definition sample_quiet :: "nat sub_system" where
  "sample_quiet = sample_busy\<lparr>ss_block := sample_block\<lparr>cb_active := False, cb_enqueued := 3,
       cb_delivered := 1, cb_dropped_oldest := 1\<rparr>,
     ss_drains := [DrainDone], ss_waits := [(9, WaitDone (Inr ()))], ss_cleared := [7]\<rparr>"

lemma sample_quiet_run:
  "sub_run [NewWait 9, DoWait 0, DoWait 0, DoDrain 3 False 0, DoDrain 3 False 0, DoDrain 3 False 0, DoWait 0]
     sample_busy = Some sample_quiet"
  by (simp add: sample_quiet_def sample_busy_def sample_block_def sub_steps block_ops)

lemma sample_quiet_reach: "sub_reach sample_quiet"
  by (rule sub_run_reach [OF sample_quiet_run sample_busy_reach])

theorem serial_ordered_delivery_witness:
  "num in_callback (ss_drains sample_busy) \<le> 1 \<and> subseq [5, 7] (ss_accepted sample_busy)"
  using serial_ordered_delivery [OF sample_busy_reach] by (simp add: sample_busy_def sample_block_def)

theorem messages_conserved_witness:
  "mset (ss_accepted sample_busy) = {#5#} + {#7#} + {#6#}"
  using messages_conserved [OF sample_busy_reach] by (simp add: sample_busy_def sample_block_def)

theorem no_callback_after_cancel_witness:
  "ss_started (sample_quiet\<lparr>ss_enqueues := ss_enqueues sample_quiet @ [EnqLock 8 False]\<rparr>) = [5]"
proof -
  have "\<not> cb_active (ss_block sample_quiet)" "ss_started sample_quiet = [5]"
    by (simp_all add: sample_quiet_def sample_busy_def)
  moreover have "sub_step\<^sup>*\<^sup>* sample_quiet
      (sample_quiet\<lparr>ss_enqueues := ss_enqueues sample_quiet @ [EnqLock 8 False]\<rparr>)"
    by (rule r_into_rtranclp, rule sub_step.EnqueueCall)
  ultimately show ?thesis
    using no_callback_after_cancel [OF sample_quiet_reach] by metis
qed

theorem cancel_and_wait_quiesces_witness:
  "num in_callback (ss_drains sample_quiet) = 0 \<and>
   wait_idle 3 (ss_block sample_busy) = Some (Inl (MiddlewareError
     ''cancel_and_wait cannot be called from the subscription callback''))"
proof -
  have "(9, WaitDone (Inr ())) \<in> set (ss_waits sample_quiet)" "DrainCall 3 5 \<in> set (ss_drains sample_busy)"
    by (simp_all add: sample_quiet_def sample_busy_def)
  then show ?thesis
    using cancel_and_wait_quiesces [OF sample_quiet_reach, of 9 sample_quiet]
      cancel_and_wait_quiesces [OF sample_busy_reach, of 3 _ 5] by blast
qed

theorem enqueue_behaviour_witness:
  "cb_pending (snd (enqueue 8 (Inr True) False (sample_block\<lparr>cb_pending := [7], cb_scheduled := True\<rparr>))) = [8]"
  using enqueue_behaviour [of "sample_block\<lparr>cb_pending := [7], cb_scheduled := True\<rparr>" 8 "Inr True" False]
  by (simp add: block_ok_def sample_block_def default_options_def Let_def)

end
