(* ===== verification/Rml_Topic_Bus.thy ===== *)
theory Rml_Topic_Bus
  imports Rml_Subscription Rml_Message "HOL-Library.AList"
begin

text \<open>
  \<^verbatim>\<open>TopicBus\<close>, \<^verbatim>\<open>Publisher\<close>, \<^verbatim>\<open>Subscription\<close>,
  \<^verbatim>\<open>Node\<close> (\<^verbatim>\<open>core/runtime.hpp\<close>, \<^verbatim>\<open>core/runtime.cpp\<close>).

  The registry is a list of topics, each with its type contract and its subscriptions in a list of
  pairs of an identifier and the address of a control block. The control blocks live in a store:
  an address without a block is an expired \<^verbatim>\<open>weak_ptr\<close>. Registry operations run under
  the registry mutex and are atomic; a fan-out enqueues into one control block after the other. What
  the executor answers to the drain posted for a block is the argument \<open>posts\<close>. The iteration
  order of the source's \<^verbatim>\<open>unordered_map\<close> is unspecified; the model iterates in order of
  registration, and the theorems about counts and blocks do not depend on the order.
\<close>

section \<open>Data\<close>

text \<open>\<^verbatim>\<open>std::type_index\<close> is only compared: any type with equality will do.\<close>

type_synonym type_index = string

record topic_record =
  tr_type_id :: u32
  tr_schema_hash :: u64
  tr_local_type :: type_index
  tr_subscriptions :: "(u64 \<times> nat) list"

type_synonym 'm block_store = "nat \<Rightarrow> 'm control_block option"

record 'm topic_bus =
  bus_accepting :: bool
  bus_next_id :: u64
  bus_topics :: "(string \<times> topic_record) list"
  bus_blocks :: "'m block_store"
  bus_next_block :: nat

record publish_result =
  pr_matched :: size_t
  pr_enqueued :: size_t
  pr_dropped_oldest :: size_t
  pr_rejected_newest :: size_t
  pr_executor_rejected :: size_t

section \<open>Registry\<close>

definition validate_topic :: "string \<Rightarrow> unit result" where
  "validate_topic topic =
     (if topic = [] then Inl (MiddlewareError ''topic name must not be empty'') else Inr ())"

definition validate_type ::
  "string \<Rightarrow> topic_record \<Rightarrow> u32 \<Rightarrow> u64 \<Rightarrow> type_index \<Rightarrow> unit result" where
  "validate_type topic r type_id schema_hash local_type =
     (if tr_type_id r \<noteq> type_id \<or> tr_schema_hash r \<noteq> schema_hash \<or> tr_local_type r \<noteq> local_type
      then Inl (MiddlewareError (''message type conflict on topic '' @ [CHR 0x27] @ topic @ [CHR 0x27]))
      else Inr ())"

definition new_record :: "u32 \<Rightarrow> u64 \<Rightarrow> type_index \<Rightarrow> topic_record" where
  "new_record type_id schema_hash local_type =
     \<lparr>tr_type_id = type_id, tr_schema_hash = schema_hash, tr_local_type = local_type, tr_subscriptions = []\<rparr>"

text \<open>\<open>has_executor\<close>: the pointer given to the constructor is not null.\<close>

definition topic_bus_new :: "bool \<Rightarrow> 'm topic_bus result" where
  "topic_bus_new has_executor =
     (if \<not> has_executor then Inl (MiddlewareError ''topic bus requires an executor'')
      else Inr \<lparr>bus_accepting = True, bus_next_id = 1, bus_topics = [], bus_blocks = (\<lambda>h. None),
        bus_next_block = 0\<rparr>)"

definition advertise ::
  "string \<Rightarrow> u32 \<Rightarrow> u64 \<Rightarrow> type_index \<Rightarrow> 'm topic_bus \<Rightarrow> unit result \<times> 'm topic_bus" where
  "advertise topic type_id schema_hash local_type s =
     (case validate_topic topic of
        Inl e \<Rightarrow> (Inl e, s)
      | Inr _ \<Rightarrow>
          if \<not> bus_accepting s then (Inl (MiddlewareError ''middleware runtime is stopped''), s)
          else (case map_of (bus_topics s) topic of
              None \<Rightarrow> (Inr (), s\<lparr>bus_topics :=
                AList.update topic (new_record type_id schema_hash local_type) (bus_topics s)\<rparr>)
            | Some r \<Rightarrow> (validate_type topic r type_id schema_hash local_type, s)))"

text \<open>Adding a subscription to a topic record: \<^verbatim>\<open>emplace\<close> keeps an existing entry.\<close>

definition add_subscription :: "u64 \<Rightarrow> nat \<Rightarrow> topic_record \<Rightarrow> topic_record" where
  "add_subscription sid h r =
     (case map_of (tr_subscriptions r) sid of
        None \<Rightarrow> r\<lparr>tr_subscriptions := tr_subscriptions r @ [(sid, h)]\<rparr>
      | Some h' \<Rightarrow> r)"

definition subscribe_locked ::
  "string \<Rightarrow> u32 \<Rightarrow> u64 \<Rightarrow> type_index \<Rightarrow> 'm control_block \<Rightarrow> 'm topic_bus \<Rightarrow>
   (u64 \<times> nat) result \<times> 'm topic_bus" where
  "subscribe_locked topic type_id schema_hash local_type b s =
     (if \<not> bus_accepting s then (Inl (MiddlewareError ''middleware runtime is stopped''), s)
      else
        let found = map_of (bus_topics s) topic;
            r = (case found of None \<Rightarrow> new_record type_id schema_hash local_type | Some r \<Rightarrow> r)
        in (case validate_type topic r type_id schema_hash local_type of
              Inl e \<Rightarrow> (Inl e, s)
            | Inr _ \<Rightarrow>
                let sid = bus_next_id s; h = bus_next_block s
                in (Inr (sid, h), s\<lparr>bus_next_id := sid + 1,
                      bus_topics := AList.update topic (add_subscription sid h r) (bus_topics s),
                      bus_blocks := (bus_blocks s)(h := Some b), bus_next_block := h + 1\<rparr>)))"

definition subscribe ::
  "string \<Rightarrow> u32 \<Rightarrow> u64 \<Rightarrow> type_index \<Rightarrow> subscription_options \<Rightarrow> bool \<Rightarrow> 'm topic_bus \<Rightarrow>
   (u64 \<times> nat) result \<times> 'm topic_bus" where
  "subscribe topic type_id schema_hash local_type options has_callback s =
     (case rbind (validate_topic topic) (\<lambda>_. control_block_new options has_callback) of
        Inl e \<Rightarrow> (Inl e, s)
      | Inr b \<Rightarrow> subscribe_locked topic type_id schema_hash local_type b s)"

section \<open>Fan-out\<close>

definition no_result :: "nat \<Rightarrow> publish_result" where
  "no_result matched = \<lparr>pr_matched = of_nat matched, pr_enqueued = 0, pr_dropped_oldest = 0,
     pr_rejected_newest = 0, pr_executor_rejected = 0\<rparr>"

definition add_outcome :: "delivery_outcome \<Rightarrow> publish_result \<Rightarrow> publish_result" where
  "add_outcome d res =
     res\<lparr>pr_enqueued := pr_enqueued res + of_bool (do_enqueued d),
         pr_dropped_oldest := pr_dropped_oldest res + of_bool (do_dropped_oldest d),
         pr_rejected_newest := pr_rejected_newest res + of_bool (do_rejected_newest d),
         pr_executor_rejected := pr_executor_rejected res + of_bool (do_executor_rejected d)\<rparr>"

text \<open>\<open>deliver h\<close> enqueues the message into the block at \<open>h\<close>; an exception ends the fan-out.\<close>

fun fan_out ::
  "(nat \<Rightarrow> 'b \<Rightarrow> delivery_outcome result \<times> 'b) \<Rightarrow> nat list \<Rightarrow> publish_result \<Rightarrow> (nat \<Rightarrow> 'b option) \<Rightarrow>
   publish_result result \<times> (nat \<Rightarrow> 'b option)" where
  "fan_out deliver [] res st = (Inr res, st)"
| "fan_out deliver (h # hs) res st = (case st h of
       None \<Rightarrow> fan_out deliver hs res st
     | Some b \<Rightarrow> (case deliver h b of
           (Inl e, b') \<Rightarrow> (Inl e, st(h := Some b'))
         | (Inr d, b') \<Rightarrow> fan_out deliver hs (add_outcome d res) (st(h := Some b'))))"

text \<open>The registry part of \<^verbatim>\<open>publish\<close>: expired entries are removed, the rest is the snapshot.\<close>

definition live_subscriptions :: "'m block_store \<Rightarrow> topic_record \<Rightarrow> (u64 \<times> nat) list" where
  "live_subscriptions st r = filter (\<lambda>(sid, h). st h \<noteq> None) (tr_subscriptions r)"

definition publish ::
  "(nat \<Rightarrow> bool result) \<Rightarrow> string \<Rightarrow> u32 \<Rightarrow> u64 \<Rightarrow> type_index \<Rightarrow> 'm \<Rightarrow> bool \<Rightarrow> 'm topic_bus \<Rightarrow>
   publish_result result \<times> 'm topic_bus" where
  "publish posts topic type_id schema_hash local_type m is_remote s =
     (if \<not> bus_accepting s then (Inl (MiddlewareError ''middleware runtime is stopped''), s)
      else (case map_of (bus_topics s) topic of
          None \<Rightarrow> (Inl (MiddlewareError ''publisher topic is not registered''), s)
        | Some r \<Rightarrow> (case validate_type topic r type_id schema_hash local_type of
              Inl e \<Rightarrow> (Inl e, s)
            | Inr _ \<Rightarrow>
                let live = live_subscriptions (bus_blocks s) r;
                    s1 = s\<lparr>bus_topics := AList.update topic (r\<lparr>tr_subscriptions := live\<rparr>) (bus_topics s)\<rparr>;
                    hs = map snd live
                in (case fan_out (\<lambda>h. enqueue m (posts h) is_remote) hs (no_result (length hs)) (bus_blocks s1) of
                      (res, st) \<Rightarrow> (res, s1\<lparr>bus_blocks := st\<rparr>)))))"

section \<open>Unsubscribing and stopping\<close>

definition unsubscribe :: "string \<Rightarrow> u64 \<Rightarrow> 'm topic_bus \<Rightarrow> 'm topic_bus" where
  "unsubscribe topic sid s = (case map_of (bus_topics s) topic of
       None \<Rightarrow> s
     | Some r \<Rightarrow> s\<lparr>bus_topics := AList.update topic
         (r\<lparr>tr_subscriptions := filter (\<lambda>e. fst e \<noteq> sid) (tr_subscriptions r)\<rparr>) (bus_topics s)\<rparr>)"

definition cancel_block :: "nat \<Rightarrow> 'm block_store \<Rightarrow> 'm block_store" where
  "cancel_block h st = (case st h of None \<Rightarrow> st | Some b \<Rightarrow> st(h := Some (cancel b)))"

definition stop :: "'m topic_bus \<Rightarrow> 'm topic_bus" where
  "stop s =
     (if \<not> bus_accepting s then s
      else
        let hs = concat (map (\<lambda>(t, r). map snd (live_subscriptions (bus_blocks s) r)) (bus_topics s))
        in s\<lparr>bus_accepting := False,
             bus_topics := map (\<lambda>(t, r). (t, r\<lparr>tr_subscriptions := []\<rparr>)) (bus_topics s),
             bus_blocks := fold cancel_block hs (bus_blocks s)\<rparr>)"

definition bus_is_accepting :: "'m topic_bus \<Rightarrow> bool" where
  "bus_is_accepting s = bus_accepting s"

section \<open>Handles\<close>

text \<open>A \<^verbatim>\<open>Subscription\<close>: \<open>sh_block\<close> is its \<^verbatim>\<open>state_\<close>, \<open>sh_bus\<close> whether it
  has a bus.\<close>

record sub_handle =
  sh_bus :: bool
  sh_topic :: string
  sh_id :: u64
  sh_block :: "nat option"

definition empty_handle :: sub_handle where
  "empty_handle = \<lparr>sh_bus = False, sh_topic = [], sh_id = 0, sh_block = None\<rparr>"

text \<open>Dropping the handle's reference destroys the block unless a scheduled drain still owns it.\<close>

definition release :: "nat \<Rightarrow> 'm block_store \<Rightarrow> 'm block_store" where
  "release h st = (case st h of
       None \<Rightarrow> st
     | Some b \<Rightarrow> if cb_scheduled b then st else st(h := None))"

definition subscription_cancel :: "sub_handle \<Rightarrow> 'm topic_bus \<Rightarrow> sub_handle \<times> 'm topic_bus" where
  "subscription_cancel sh s = (case sh_block sh of
       None \<Rightarrow> (sh, s)
     | Some h \<Rightarrow>
         let s1 = s\<lparr>bus_blocks := cancel_block h (bus_blocks s)\<rparr>;
             s2 = (if sh_bus sh then unsubscribe (sh_topic sh) (sh_id sh) s1 else s1)
         in (empty_handle, s2\<lparr>bus_blocks := release h (bus_blocks s2)\<rparr>))"

text \<open>
  \<^verbatim>\<open>cancel_and_wait\<close> on thread \<open>tid\<close>, when no other thread moves: \<open>None\<close> stands for waiting
  on a callback that runs elsewhere. After an exception the handle keeps its block.
\<close>

definition subscription_cancel_and_wait ::
  "nat \<Rightarrow> sub_handle \<Rightarrow> 'm topic_bus \<Rightarrow> (unit result \<times> sub_handle \<times> 'm topic_bus) option" where
  "subscription_cancel_and_wait tid sh s = (case sh_block sh of
       None \<Rightarrow> Some (Inr (), sh, s)
     | Some h \<Rightarrow>
         let s1 = s\<lparr>bus_blocks := cancel_block h (bus_blocks s)\<rparr>;
             s2 = (if sh_bus sh then unsubscribe (sh_topic sh) (sh_id sh) s1 else s1)
         in (case bus_blocks s2 h of
               None \<Rightarrow> None
             | Some b \<Rightarrow> (case wait_idle tid b of
                   None \<Rightarrow> None
                 | Some (Inl e) \<Rightarrow> Some (Inl e, sh, s2)
                 | Some (Inr _) \<Rightarrow> Some (Inr (), empty_handle, s2\<lparr>bus_blocks := release h (bus_blocks s2)\<rparr>))))"

text \<open>Queries; an empty handle has empty statistics, and a block a handle refers to exists.\<close>

definition empty_stats :: subscription_stats where
  "empty_stats = \<lparr>st_enqueued = 0, st_delivered = 0, st_dropped_oldest = 0, st_rejected_newest = 0,
     st_executor_rejected = 0, st_callback_errors = 0, st_pending = 0, st_in_flight = 0, st_active = False\<rparr>"

definition subscription_stats_of :: "sub_handle \<Rightarrow> 'm topic_bus \<Rightarrow> subscription_stats" where
  "subscription_stats_of sh s =
     (case Option.bind (sh_block sh) (bus_blocks s) of
        None \<Rightarrow> empty_stats
      | Some b \<Rightarrow> control_block_stats b)"

definition subscription_topic :: "sub_handle \<Rightarrow> string" where
  "subscription_topic sh = sh_topic sh"

definition subscription_valid :: "sub_handle \<Rightarrow> bool" where
  "subscription_valid sh \<longleftrightarrow> sh_block sh \<noteq> None"

text \<open>Move construction and move assignment: the target, the emptied source and the bus.\<close>

definition move_from :: "sub_handle \<Rightarrow> sub_handle \<times> sub_handle" where
  "move_from other = (other, empty_handle)"

definition move_assign ::
  "sub_handle \<Rightarrow> sub_handle \<Rightarrow> 'm topic_bus \<Rightarrow> sub_handle \<times> sub_handle \<times> 'm topic_bus" where
  "move_assign this other s =
     (case subscription_cancel this s of (_, s1) \<Rightarrow>
        (case move_from other of (this', other') \<Rightarrow> (this', other', s1)))"

section \<open>Publishers and nodes\<close>

record publisher =
  pub_bus :: bool
  pub_topic :: string

definition publisher_topic :: "publisher \<Rightarrow> string" where
  "publisher_topic p = pub_topic p"

definition publisher_valid :: "publisher \<Rightarrow> bool" where
  "publisher_valid p = pub_bus p"

definition publish_shared ::
  "(nat \<Rightarrow> bool result) \<Rightarrow> 'a message_traits \<Rightarrow> type_index \<Rightarrow> publisher \<Rightarrow> 'm \<Rightarrow> bool \<Rightarrow> 'm topic_bus \<Rightarrow>
   publish_result result \<times> 'm topic_bus" where
  "publish_shared posts tr local_type p m is_remote s =
     (if \<not> pub_bus p then (Inl (MiddlewareError ''publisher is not initialized''), s)
      else publish posts (pub_topic p) (mt_type_id tr) (mt_schema_hash tr) local_type m is_remote s)"

definition publisher_publish ::
  "(nat \<Rightarrow> bool result) \<Rightarrow> 'a message_traits \<Rightarrow> type_index \<Rightarrow> publisher \<Rightarrow> 'm \<Rightarrow> 'm topic_bus \<Rightarrow>
   publish_result result \<times> 'm topic_bus" where
  "publisher_publish posts tr local_type p m s = publish_shared posts tr local_type p m False s"

definition publish_remote ::
  "(nat \<Rightarrow> bool result) \<Rightarrow> 'a message_traits \<Rightarrow> type_index \<Rightarrow> publisher \<Rightarrow> 'm \<Rightarrow> 'm topic_bus \<Rightarrow>
   publish_result result \<times> 'm topic_bus" where
  "publish_remote posts tr local_type p m s = publish_shared posts tr local_type p m True s"

record node =
  node_name :: string
  node_bus :: bool

definition name_of_node :: "node \<Rightarrow> string" where
  "name_of_node n = node_name n"

definition require_initialized :: "node \<Rightarrow> unit result" where
  "require_initialized n =
     (if \<not> node_bus n then Inl (MiddlewareError ''node is not initialized'') else Inr ())"

definition create_publisher ::
  "'a message_traits \<Rightarrow> type_index \<Rightarrow> node \<Rightarrow> string \<Rightarrow> 'm topic_bus \<Rightarrow> publisher result \<times> 'm topic_bus" where
  "create_publisher tr local_type n topic s =
     (case require_initialized n of
        Inl e \<Rightarrow> (Inl e, s)
      | Inr _ \<Rightarrow> (case advertise topic (mt_type_id tr) (mt_schema_hash tr) local_type s of
            (Inl e, s1) \<Rightarrow> (Inl e, s1)
          | (Inr _, s1) \<Rightarrow> (Inr \<lparr>pub_bus = True, pub_topic = topic\<rparr>, s1)))"

text \<open>The wrapped callback is never an empty function.\<close>

definition create_subscription ::
  "'a message_traits \<Rightarrow> type_index \<Rightarrow> node \<Rightarrow> string \<Rightarrow> subscription_options \<Rightarrow> 'm topic_bus \<Rightarrow>
   sub_handle result \<times> 'm topic_bus" where
  "create_subscription tr local_type n topic options s =
     (case require_initialized n of
        Inl e \<Rightarrow> (Inl e, s)
      | Inr _ \<Rightarrow> (case subscribe topic (mt_type_id tr) (mt_schema_hash tr) local_type options True s of
            (Inl e, s1) \<Rightarrow> (Inl e, s1)
          | (Inr (sid, h), s1) \<Rightarrow>
              (Inr \<lparr>sh_bus = True, sh_topic = topic, sh_id = sid, sh_block = Some h\<rparr>, s1)))"

section \<open>The bus as a system\<close>

text \<open>
  Any sequence of calls, with the control blocks moving on their own in between (drains, callbacks,
  cancellations). Identifiers are 64 bits wide: a subscription is only made while they last.
\<close>

inductive bus_step :: "'m topic_bus \<Rightarrow> 'm topic_bus \<Rightarrow> bool" where
  Advertise: "bus_step s (snd (advertise topic ti sh lt s))"
| Subscribe: "unat (bus_next_id s) + 1 < 2 ^ 64 \<Longrightarrow> bus_step s (snd (subscribe topic ti sh lt options cb s))"
| Publish: "bus_step s (snd (publish posts topic ti sh lt m is_remote s))"
| Unsubscribe: "bus_step s (unsubscribe topic sid s)"
| CancelHandle: "bus_step s (snd (subscription_cancel handle s))"
| Stop: "bus_step s (stop s)"
| Block: "bus_blocks s h \<noteq> None \<Longrightarrow> block_ok b \<Longrightarrow> bus_step s (s\<lparr>bus_blocks := (bus_blocks s)(h \<mapsto> b)\<rparr>)"

inductive bus_reach :: "'m topic_bus \<Rightarrow> bool" where
  Start: "topic_bus_new True = Inr s \<Longrightarrow> bus_reach s"
| Step: "bus_reach s \<Longrightarrow> bus_step s s' \<Longrightarrow> bus_reach s'"

section \<open>The fan-out of a mailbox\<close>

text \<open>What one delivery reports about its message, as a predicate on the report.\<close>

fun reports :: "(delivery_outcome \<Rightarrow> bool) \<Rightarrow> delivery_outcome result \<Rightarrow> bool" where
  "reports P (Inl e) = False"
| "reports P (Inr d) = P d"

text \<open>The counts of a fan-out, from what each block of the snapshot reports on its own.\<close>

definition tally :: "(nat \<Rightarrow> delivery_outcome result) \<Rightarrow> nat list \<Rightarrow> publish_result \<Rightarrow> publish_result" where
  "tally out hs res = res\<lparr>
     pr_enqueued := pr_enqueued res + of_nat (num (\<lambda>h. reports do_enqueued (out h)) hs),
     pr_dropped_oldest := pr_dropped_oldest res + of_nat (num (\<lambda>h. reports do_dropped_oldest (out h)) hs),
     pr_rejected_newest := pr_rejected_newest res + of_nat (num (\<lambda>h. reports do_rejected_newest (out h)) hs),
     pr_executor_rejected := pr_executor_rejected res + of_nat (num (\<lambda>h. reports do_executor_rejected (out h)) hs)\<rparr>"

lemma tally_Cons: "out h = Inr d \<Longrightarrow> tally out (h # hs) res = tally out hs (add_outcome d res)"
  by (simp add: tally_def add_outcome_def algebra_simps)

lemma tally_cong: "(\<And>h. h \<in> set hs \<Longrightarrow> out h = out' h) \<Longrightarrow> tally out hs res = tally out' hs res"
  by (simp add: tally_def num_def cong: filter_cong)

text \<open>
  What the bus needs of a mailbox: a delivery that keeps the mailbox well-formed and reports at most one
  of enqueued, rejected and refused by the executor.
\<close>

locale mailbox =
  fixes deliver :: "nat \<Rightarrow> 'b \<Rightarrow> delivery_outcome result \<times> 'b" and ok :: "'b \<Rightarrow> bool"
  assumes deliver_ok: "ok b \<Longrightarrow> ok (snd (deliver h b))"
    and deliver_exclusive: "ok b \<Longrightarrow> deliver h b = (Inr d, b') \<Longrightarrow>
      of_bool (do_enqueued d) + of_bool (do_rejected_newest d) + of_bool (do_executor_rejected d) \<le> (1::nat)"
begin

lemma fan_out_ok:
  "(\<forall>h b. st h = Some b \<longrightarrow> ok b) \<Longrightarrow> snd (fan_out deliver hs res st) h = Some b \<Longrightarrow> ok b"
proof (induction hs arbitrary: res st)
  case Nil
  then show ?case by simp
next
  case (Cons k hs)
  show ?case
  proof (cases "st k")
    case None
    then show ?thesis using Cons by simp
  next
    case (Some c)
    then have "ok (snd (deliver k c))" using Cons.prems(1) deliver_ok by blast
    then have all: "\<forall>h b. (st(k := Some (snd (deliver k c)))) h = Some b \<longrightarrow> ok b" using Cons.prems(1) by auto
    show ?thesis
    proof (cases "fst (deliver k c)")
      case (Inl e)
      then have "snd (fan_out deliver (k # hs) res st) = st(k := Some (snd (deliver k c)))"
        using Some by (auto split: prod.splits)
      then show ?thesis using Cons.prems(2) all by metis
    next
      case (Inr d)
      then have "fan_out deliver (k # hs) res st =
          fan_out deliver hs (add_outcome d res) (st(k := Some (snd (deliver k c))))"
        using Some by (auto split: prod.splits)
      then show ?thesis using Cons.IH [OF all] Cons.prems(2) by metis
    qed
  qed
qed

text \<open>A fan-out that returns has delivered once to every block of the snapshot and to no other.\<close>

lemma fan_out_returns:
  assumes "fan_out deliver hs res st = (Inr res', st')" and "distinct hs" and "\<forall>h \<in> set hs. st h \<noteq> None"
  shows "st' = (\<lambda>h. if h \<in> set hs then Some (snd (deliver h (the (st h)))) else st h) \<and>
    res' = tally (\<lambda>h. fst (deliver h (the (st h)))) hs res"
  using assms
proof (induction hs arbitrary: res st)
  case Nil
  then show ?case by (simp add: tally_def)
next
  case (Cons k hs)
  obtain c where c: "st k = Some c" using Cons.prems(3) by auto
  obtain d b' where d: "deliver k c = (Inr d, b')"
    using Cons.prems(1) c by (cases "deliver k c"; cases "fst (deliver k c)") auto
  let ?st = "st(k := Some b')"
  have run: "fan_out deliver hs (add_outcome d res) ?st = (Inr res', st')" using Cons.prems(1) c d by simp
  have same: "?st h = st h" if "h \<in> set hs" for h using that Cons.prems(2) by auto
  have "tally (\<lambda>h. fst (deliver h (the (?st h)))) hs (add_outcome d res) =
      tally (\<lambda>h. fst (deliver h (the (st h)))) (k # hs) res"
    using same c d by (simp add: tally_Cons cong: tally_cong)
  moreover have "\<forall>h \<in> set hs. ?st h \<noteq> None" using Cons.prems(3) by auto
  ultimately show ?case
    using Cons.IH [OF run] Cons.prems(2) c d by (auto simp: fun_eq_iff)
qed

lemma counts_exclusive:
  assumes "\<forall>h \<in> set hs. \<exists>b. st h = Some b \<and> ok b"
  shows "num (\<lambda>h. reports do_enqueued (fst (deliver h (the (st h))))) hs +
    num (\<lambda>h. reports do_rejected_newest (fst (deliver h (the (st h))))) hs +
    num (\<lambda>h. reports do_executor_rejected (fst (deliver h (the (st h))))) hs \<le> length hs"
  using assms
proof (induction hs)
  case (Cons h hs)
  then obtain b where b: "st h = Some b" "ok b" by auto
  then have "of_bool (reports do_enqueued (fst (deliver h b))) +
      of_bool (reports do_rejected_newest (fst (deliver h b))) +
      of_bool (reports do_executor_rejected (fst (deliver h b))) \<le> (1::nat)"
    using deliver_exclusive [OF b(2), of h] by (cases "deliver h b"; cases "fst (deliver h b)") auto
  then show ?case using Cons b by simp
qed simp

end

lemma block_ok_enqueue_full:
  assumes "block_ok b"
  shows "block_ok (snd (enqueue m posted r b))"
proof -
  obtain outcome must b' where e: "enqueue_locked m r b = (outcome, must, b')"
    using prod_cases3 by metis
  then show ?thesis
    using block_ok_enqueue [OF assms e] block_ok_other(1) [of b']
    by (auto simp: enqueue_def split: sum.splits bool.splits)
qed

interpretation blocks: mailbox "\<lambda>h. enqueue m (posts h) is_remote" block_ok
proof unfold_locales
  show "block_ok b \<Longrightarrow> block_ok (snd (enqueue m (posts h) is_remote b))" for b :: "'a control_block" and h
    by (rule block_ok_enqueue_full)
  show "of_bool (do_enqueued d) + of_bool (do_rejected_newest d) + of_bool (do_executor_rejected d) \<le> (1::nat)"
    if "enqueue m (posts h) is_remote b = (Inr d, b')" for b b' :: "'a control_block" and h d
    using that by (auto simp: enqueue_def block_ops split: if_splits sum.splits bool.splits)
qed

section \<open>The registry invariant\<close>

definition entries :: "'m topic_bus \<Rightarrow> string \<Rightarrow> (u64 \<times> nat) list" where
  "entries s topic = (case map_of (bus_topics s) topic of None \<Rightarrow> [] | Some r \<Rightarrow> tr_subscriptions r)"

definition registered :: "'m topic_bus \<Rightarrow> (string \<times> u64 \<times> nat) set" where
  "registered s = {(topic, sid, h). (sid, h) \<in> set (entries s topic)}"

text \<open>
  Identifiers and control blocks are used once over all topics, identifiers are older than the next
  one, and every block in the store is well-formed.
\<close>

definition bus_ok :: "'m topic_bus \<Rightarrow> bool" where
  "bus_ok s \<longleftrightarrow>
     inj_on (\<lambda>(topic, sid, h). sid) (registered s) \<and> inj_on (\<lambda>(topic, sid, h). h) (registered s) \<and>
     (\<forall>topic. distinct (entries s topic)) \<and>
     (\<forall>(topic, sid, h) \<in> registered s. unat sid < unat (bus_next_id s) \<and> h < bus_next_block s) \<and>
     (\<forall>h b. bus_blocks s h = Some b \<longrightarrow> block_ok b \<and> h < bus_next_block s)"

definition contract :: "topic_record \<Rightarrow> u32 \<times> u64 \<times> type_index" where
  "contract r = (tr_type_id r, tr_schema_hash r, tr_local_type r)"

lemma validate_type_iff: "validate_type topic r ti sh lt = Inr () \<longleftrightarrow> contract r = (ti, sh, lt)"
  by (simp add: validate_type_def contract_def)

lemma validate_type_cases:
  "validate_type topic r ti sh lt =
     (if contract r = (ti, sh, lt) then Inr ()
      else Inl (MiddlewareError (''message type conflict on topic '' @ [CHR 0x27] @ topic @ [CHR 0x27])))"
  by (simp add: validate_type_def contract_def)

lemma bus_ok_shrink:
  assumes "bus_ok s" and "registered s' \<subseteq> registered s" and "\<forall>topic. distinct (entries s' topic)"
    and "bus_next_id s' = bus_next_id s" and "bus_next_block s' = bus_next_block s"
    and "\<forall>h b. bus_blocks s' h = Some b \<longrightarrow> block_ok b \<and> h < bus_next_block s"
  shows "bus_ok s'"
  using assms unfolding bus_ok_def by (auto intro: inj_on_subset)

lemma entries_update:
  "entries (s\<lparr>bus_topics := AList.update topic r (bus_topics s)\<rparr>) t =
     (if t = topic then tr_subscriptions r else entries s t)"
  by (simp add: entries_def AList.update_conv')

lemma topics_update:
  "map_of (bus_topics (s\<lparr>bus_topics := AList.update topic r (bus_topics s)\<rparr>)) =
     (map_of (bus_topics s))(topic \<mapsto> r)"
  by (simp add: AList.update_conv')

lemma bus_ok_advertise:
  assumes "bus_ok s"
  shows "bus_ok (snd (advertise topic ti sh lt s))"
proof (cases "validate_topic topic = Inr () \<and> bus_accepting s \<and> map_of (bus_topics s) topic = None")
  case True
  let ?s = "s\<lparr>bus_topics := AList.update topic (new_record ti sh lt) (bus_topics s)\<rparr>"
  have e: "entries ?s t = entries s t" for t
    using True unfolding entries_update by (simp add: entries_def new_record_def)
  then have "bus_ok ?s"
    using assms by (intro bus_ok_shrink [OF assms]) (auto simp: registered_def bus_ok_def)
  then show ?thesis using True by (simp add: advertise_def)
next
  case False
  then have "snd (advertise topic ti sh lt s) = s"
    by (auto simp: advertise_def validate_topic_def split: option.splits if_splits)
  then show ?thesis using assms by simp
qed

lemma subscribe_locked_cases:
  assumes "subscribe_locked topic ti sh lt b s = (Inr (sid, h), s')"
  obtains r where "bus_accepting s" "contract r = (ti, sh, lt)" "sid = bus_next_id s" "h = bus_next_block s"
    "r = (case map_of (bus_topics s) topic of None \<Rightarrow> new_record ti sh lt | Some r \<Rightarrow> r)"
    "s' = s\<lparr>bus_next_id := sid + 1,
       bus_topics := AList.update topic (add_subscription sid h r) (bus_topics s),
       bus_blocks := (bus_blocks s)(h \<mapsto> b), bus_next_block := h + 1\<rparr>"
  using assms by (auto simp: subscribe_locked_def Let_def validate_type_cases split: if_splits option.splits)

lemma subscribe_registers:
  assumes ok: "bus_ok s" and sub: "subscribe_locked topic ti sh lt b s = (Inr (sid, h), s')"
  shows "entries s' t = (if t = topic then entries s t @ [(sid, h)] else entries s t)"
    and "(t, sid, k) \<notin> registered s" and "(t, i, h) \<notin> registered s"
proof -
  from sub obtain r where r: "sid = bus_next_id s" "h = bus_next_block s"
    "r = (case map_of (bus_topics s) topic of None \<Rightarrow> new_record ti sh lt | Some r \<Rightarrow> r)"
    "s' = s\<lparr>bus_next_id := sid + 1,
       bus_topics := AList.update topic (add_subscription sid h r) (bus_topics s),
       bus_blocks := (bus_blocks s)(h \<mapsto> b), bus_next_block := h + 1\<rparr>"
    by (rule subscribe_locked_cases) blast
  show fresh: "(t, sid, k) \<notin> registered s" for t k using ok r(1) by (auto simp: bus_ok_def)
  show "(t, i, h) \<notin> registered s" using ok r(2) by (auto simp: bus_ok_def)
  have subs: "tr_subscriptions r = entries s topic"
    using r(3) by (auto simp: entries_def new_record_def split: option.splits)
  then have "map_of (tr_subscriptions r) sid = None"
    using fresh by (auto simp: map_of_eq_None_iff registered_def)
  then have "tr_subscriptions (add_subscription sid h r) = entries s topic @ [(sid, h)]"
    using subs by (simp add: add_subscription_def)
  then show "entries s' t = (if t = topic then entries s t @ [(sid, h)] else entries s t)"
    by (simp add: r(4) entries_def AList.update_conv')
qed

lemma bus_ok_subscribe:
  assumes ok: "bus_ok s" and sub: "subscribe_locked topic ti sh lt b s = (Inr (sid, h), s')"
    and "block_ok b" and "unat (bus_next_id s) + 1 < 2 ^ 64"
  shows "bus_ok s'"
proof -
  from sub obtain r where r: "sid = bus_next_id s" "h = bus_next_block s"
    "bus_next_id s' = sid + 1" "bus_next_block s' = h + 1" "bus_blocks s' = (bus_blocks s)(h \<mapsto> b)"
    by (rule subscribe_locked_cases) simp
  note reg = subscribe_registers [OF ok sub]
  have R: "registered s' = insert (topic, sid, h) (registered s)"
    using reg(1) by (auto simp: registered_def split: if_splits)
  have succ: "unat (sid + 1) = unat sid + 1" using assms(4) r(1) by (simp add: unat_word_ariths)
  show ?thesis
    unfolding bus_ok_def
  proof (intro conjI)
    show "inj_on (\<lambda>(topic, sid, h). sid) (registered s')" "inj_on (\<lambda>(topic, sid, h). h) (registered s')"
      using ok reg(2,3) unfolding R by (auto simp: bus_ok_def)
    show "\<forall>topic. distinct (entries s' topic)"
      using ok reg by (auto simp: bus_ok_def registered_def)
    show "\<forall>(topic, sid, h) \<in> registered s'. unat sid < unat (bus_next_id s') \<and> h < bus_next_block s'"
      using ok r(1-4) succ unfolding R by (fastforce simp: bus_ok_def)
    show "\<forall>h b. bus_blocks s' h = Some b \<longrightarrow> block_ok b \<and> h < bus_next_block s'"
      using ok assms(3) r(2,4,5) by (auto simp: bus_ok_def less_Suc_eq)
  qed
qed

lemma control_block_new_ok: "control_block_new options c = Inr b \<Longrightarrow> block_ok b \<and> cb_active b"
  by (auto simp: control_block_new_def block_ok_def split: if_splits)

lemma subscribe_cases:
  "snd (subscribe topic ti sh lt options c s) = s \<or>
   (\<exists>b sid h. control_block_new options c = Inr b \<and>
      subscribe_locked topic ti sh lt b s = (Inr (sid, h), snd (subscribe topic ti sh lt options c s)))"
proof (cases "rbind (validate_topic topic) (\<lambda>_. control_block_new options c :: 'a control_block result)")
  case (Inr b)
  then have b: "control_block_new options c = Inr b" by auto
  show ?thesis
  proof (cases "subscribe_locked topic ti sh lt b s")
    case (Pair r s')
    then show ?thesis
      using Inr b by (cases r) (auto simp: subscribe_def subscribe_locked_def Let_def split: if_splits sum.splits)
  qed
qed (simp add: subscribe_def)

lemma live_snapshot:
  assumes "bus_ok s" and "map_of (bus_topics s) topic = Some r"
  shows "distinct (map snd (live_subscriptions (bus_blocks s) r))"
    and "\<forall>h \<in> set (map snd (live_subscriptions (bus_blocks s) r)). bus_blocks s h \<noteq> None"
    and "distinct (live_subscriptions (bus_blocks s) r)"
    and "set (live_subscriptions (bus_blocks s) r) \<subseteq> set (entries s topic)"
proof -
  let ?l = "live_subscriptions (bus_blocks s) r"
  have e: "entries s topic = tr_subscriptions r" using assms(2) by (simp add: entries_def)
  show sub: "set ?l \<subseteq> set (entries s topic)" by (auto simp: live_subscriptions_def e)
  have "distinct (entries s topic)" using assms(1) by (simp add: bus_ok_def)
  then show d: "distinct ?l" by (simp add: live_subscriptions_def e)
  have "inj_on snd (set ?l)"
  proof (rule inj_onI)
    fix x y
    assume "x \<in> set ?l" "y \<in> set ?l" and h: "snd x = snd y"
    then have "(topic, x) \<in> registered s" "(topic, y) \<in> registered s"
      using sub by (auto simp: registered_def)
    moreover have "(\<lambda>(topic, sid, h). h) (topic, x) = (\<lambda>(topic, sid, h). h) (topic, y)"
      using h by (auto split: prod.splits)
    ultimately show "x = y" using assms(1) unfolding bus_ok_def by (metis inj_onD prod.inject)
  qed
  then show "distinct (map snd ?l)" using d by (simp add: distinct_map)
  show "\<forall>h \<in> set (map snd ?l). bus_blocks s h \<noteq> None" by (auto simp: live_subscriptions_def)
qed

text \<open>A publish either throws before touching anything or performs the fan-out of its snapshot.\<close>

lemma publish_cases:
  obtains (Rejected) e where "publish posts topic ti sh lt m rem s = (Inl e, s)"
  | (Sent) r live where "bus_accepting s" "map_of (bus_topics s) topic = Some r" "contract r = (ti, sh, lt)"
      "live = live_subscriptions (bus_blocks s) r"
      "publish posts topic ti sh lt m rem s =
         (case fan_out (\<lambda>h. enqueue m (posts h) rem) (map snd live) (no_result (length live)) (bus_blocks s) of
            (res, st) \<Rightarrow> (res, s\<lparr>bus_topics := AList.update topic (r\<lparr>tr_subscriptions := live\<rparr>) (bus_topics s),
               bus_blocks := st\<rparr>))"
proof (cases "\<exists>r. bus_accepting s \<and> map_of (bus_topics s) topic = Some r \<and> contract r = (ti, sh, lt)")
  case True
  then obtain r where "bus_accepting s" "map_of (bus_topics s) topic = Some r" "contract r = (ti, sh, lt)" by blast
  then show ?thesis using Sent by (simp add: publish_def validate_type_cases Let_def)
next
  case False
  then have "\<exists>e. publish posts topic ti sh lt m rem s = (Inl e, s)"
    by (auto simp: publish_def validate_type_cases split: option.splits)
  then show ?thesis using Rejected by blast
qed

lemma fan_out_domain:
  "snd (fan_out deliver hs res st) h = None \<longleftrightarrow> st h = None"
proof (induction hs arbitrary: res st)
  case (Cons k hs)
  show ?case
  proof (cases "st k")
    case (Some b)
    then show ?thesis using Cons.IH by (cases "deliver k b"; cases "fst (deliver k b)") auto
  qed (use Cons.IH in simp)
qed simp

lemma bus_ok_publish:
  assumes ok: "bus_ok s"
  shows "bus_ok (snd (publish posts topic ti sh lt m rem s))"
proof (cases rule: publish_cases [of posts topic ti sh lt m rem s])
  case (Sent r live)
  note snap = live_snapshot [OF ok Sent(2), folded Sent(4)]
  let ?run = "fan_out (\<lambda>h. enqueue m (posts h) rem) (map snd live) (no_result (length live)) (bus_blocks s)"
  let ?s = "s\<lparr>bus_topics := AList.update topic (r\<lparr>tr_subscriptions := live\<rparr>) (bus_topics s), bus_blocks := snd ?run\<rparr>"
  have e: "entries ?s t = (if t = topic then live else entries s t)" for t
    by (simp add: entries_def AList.update_conv')
  have "bus_ok ?s"
  proof (rule bus_ok_shrink [OF ok])
    show "registered ?s \<subseteq> registered s" using snap(4) by (auto simp: registered_def e split: if_splits)
    show "\<forall>topic. distinct (entries ?s topic)" using snap(3) ok by (simp add: e bus_ok_def)
    show "\<forall>h b. bus_blocks ?s h = Some b \<longrightarrow> block_ok b \<and> h < bus_next_block s"
    proof (intro allI impI conjI)
      fix h b
      assume "bus_blocks ?s h = Some b"
      then have b: "snd ?run h = Some b" by simp
      have "\<forall>h b. bus_blocks s h = Some b \<longrightarrow> block_ok b" using ok by (simp add: bus_ok_def)
      then show "block_ok b" using b by (rule blocks.fan_out_ok)
      have "bus_blocks s h \<noteq> None" using b by (metis fan_out_domain option.distinct(1))
      then show "h < bus_next_block s" using ok by (auto simp: bus_ok_def)
    qed
  qed simp_all
  then show ?thesis using Sent(5) by (simp add: case_prod_beta)
qed (use ok in simp)

lemma bus_ok_unsubscribe:
  assumes "bus_ok s"
  shows "bus_ok (unsubscribe topic sid s)"
proof (cases "map_of (bus_topics s) topic")
  case (Some r)
  let ?s = "unsubscribe topic sid s"
  have e: "entries ?s t = (if t = topic then filter (\<lambda>e. fst e \<noteq> sid) (entries s t) else entries s t)" for t
    using Some by (simp add: unsubscribe_def entries_def AList.update_conv')
  have same: "bus_next_id ?s = bus_next_id s" "bus_next_block ?s = bus_next_block s" "bus_blocks ?s = bus_blocks s"
    by (simp_all add: unsubscribe_def split: option.splits)
  show ?thesis
    using assms by (intro bus_ok_shrink [OF assms]) (auto simp: registered_def e same bus_ok_def split: if_splits)
qed (use assms in \<open>simp add: unsubscribe_def\<close>)

lemma fold_cancel_block:
  "fold cancel_block hs st h = (if h \<in> set hs then map_option cancel (st h) else st h)"
proof (induction hs arbitrary: st)
  case (Cons k hs)
  have cc: "cancel (cancel b) = cancel b" for b :: "'a control_block" by (simp add: cancel_def)
  then show ?case
    using Cons by (cases "st k") (auto simp: cancel_block_def option.map_comp o_def cong: option.map_cong)
qed simp

lemma map_of_map_snd: "map_of (map (\<lambda>(k, v). (k, f v)) xs) k = map_option f (map_of xs k)"
  by (induction xs) auto

lemma stop_registry: "bus_accepting s \<Longrightarrow> entries (stop s) topic = []"
  by (auto simp: stop_def Let_def entries_def map_of_map_snd split: option.splits)

lemma bus_ok_stop:
  assumes "bus_ok s"
  shows "bus_ok (stop s)"
proof (cases "bus_accepting s")
  case True
  have "block_ok (cancel b)" if "block_ok b" for b :: "'a control_block" using that block_ok_other(2) by blast
  then show ?thesis
    using assms stop_registry [OF True]
    by (intro bus_ok_shrink [OF assms])
      (auto simp: registered_def bus_ok_def stop_def Let_def fold_cancel_block split: if_splits)
qed (use assms in \<open>simp add: stop_def\<close>)

lemma release_sub: "release h st k = Some b \<Longrightarrow> st k = Some b"
  by (auto simp: release_def split: option.splits if_splits)

lemma cancel_block_cases: "cancel_block h st k = (if k = h then map_option cancel (st k) else st k)"
  by (auto simp: cancel_block_def split: option.splits)

lemma bus_ok_blocks:
  assumes "bus_ok s" and "\<And>h b. st h = Some b \<Longrightarrow> block_ok b \<and> h < bus_next_block s"
  shows "bus_ok (s\<lparr>bus_blocks := st\<rparr>)"
  using assms by (intro bus_ok_shrink [OF assms(1)]) (auto simp: registered_def entries_def bus_ok_def)

lemma bus_ok_cancel:
  assumes "bus_ok s"
  shows "bus_ok (snd (subscription_cancel sh s))"
proof (cases "sh_block sh")
  case (Some h)
  let ?s1 = "s\<lparr>bus_blocks := cancel_block h (bus_blocks s)\<rparr>"
  let ?s2 = "if sh_bus sh then unsubscribe (sh_topic sh) (sh_id sh) ?s1 else ?s1"
  have "block_ok (cancel b)" if "block_ok b" for b :: "'a control_block" using that by (rule block_ok_other(2))
  then have "bus_ok ?s1"
    using assms by (intro bus_ok_blocks) (auto simp: bus_ok_def cancel_block_cases split: if_splits)
  then have ok: "bus_ok ?s2" by (simp add: bus_ok_unsubscribe)
  then have "bus_ok (?s2\<lparr>bus_blocks := release h (bus_blocks ?s2)\<rparr>)"
    by (intro bus_ok_blocks) (auto dest!: release_sub simp: bus_ok_def)
  then show ?thesis using Some by (simp add: subscription_cancel_def Let_def)
qed (use assms in \<open>simp add: subscription_cancel_def\<close>)

lemma bus_step_ok:
  assumes "bus_step s s'" and ok: "bus_ok s"
  shows "bus_ok s'"
  using assms(1)
proof cases
  case (Subscribe topic ti sh lt options c)
  then show ?thesis
    using subscribe_cases [of topic ti sh lt options c s] ok bus_ok_subscribe control_block_new_ok by metis
next
  case (Block h b)
  have "bus_ok (s\<lparr>bus_blocks := (bus_blocks s)(h \<mapsto> b)\<rparr>)"
    using Block(2,3) ok by (intro bus_ok_blocks) (auto simp: bus_ok_def split: if_splits)
  then show ?thesis using Block(1) by simp
qed (use ok bus_ok_advertise bus_ok_publish bus_ok_unsubscribe bus_ok_cancel bus_ok_stop in auto)

lemma bus_reach_ok: "bus_reach s \<Longrightarrow> bus_ok s"
proof (induction rule: bus_reach.induct)
  case (Start s)
  then show ?case by (auto simp: topic_bus_new_def bus_ok_def registered_def entries_def inj_on_def)
qed (rule bus_step_ok)

text \<open>The type contract of a topic, and the fact that nothing changes it.\<close>

definition topic_contract :: "'m topic_bus \<Rightarrow> string \<Rightarrow> (u32 \<times> u64 \<times> type_index) option" where
  "topic_contract s topic = map_option contract (map_of (bus_topics s) topic)"

lemma contract_simps [simp]: "contract (r\<lparr>tr_subscriptions := xs\<rparr>) = contract r"
  "contract (add_subscription sid h r) = contract r" "contract (new_record ti sh lt) = (ti, sh, lt)"
  by (auto simp: contract_def add_subscription_def new_record_def split: option.splits)

lemma bus_step_contract:
  assumes "bus_step s s'" and c: "topic_contract s t = Some c"
  shows "topic_contract s' t = Some c"
  using assms(1)
proof cases
  case (Advertise topic ti sh lt)
  then show ?thesis
    using c by (auto simp: advertise_def topic_contract_def AList.update_conv' split: sum.splits option.splits)
next
  case (Subscribe topic ti sh lt options cb)
  from subscribe_cases [of topic ti sh lt options cb s] show ?thesis
  proof (elim disjE exE conjE)
    fix b sid h
    assume "subscribe_locked topic ti sh lt b s = (Inr (sid, h), snd (subscribe topic ti sh lt options cb s))"
    then show ?thesis
      using c Subscribe
      by (auto elim!: subscribe_locked_cases simp: topic_contract_def AList.update_conv' split: option.splits)
  qed (use c Subscribe in simp)
next
  case (Publish posts topic ti sh lt m rem)
  then show ?thesis
    using c by (cases rule: publish_cases [of posts topic ti sh lt m rem s])
      (auto simp: topic_contract_def AList.update_conv' case_prod_beta)
next
  case (Unsubscribe topic sid)
  then show ?thesis
    using c by (auto simp: unsubscribe_def topic_contract_def AList.update_conv' split: option.splits)
next
  case (CancelHandle handle)
  then show ?thesis
    using c by (auto simp: subscription_cancel_def unsubscribe_def topic_contract_def AList.update_conv' Let_def
        split: option.splits)
next
  case Stop
  then show ?thesis using c by (auto simp: stop_def Let_def topic_contract_def map_of_map_snd)
qed (use c in \<open>simp add: topic_contract_def\<close>)

lemma bus_steps_contract: "bus_step\<^sup>*\<^sup>* s s' \<Longrightarrow> topic_contract s t = Some c \<Longrightarrow> topic_contract s' t = Some c"
  by (induction rule: rtranclp_induct) (auto intro: bus_step_contract)

lemma fan_out_skip:
  "(\<And>b. st h = Some b \<Longrightarrow> snd (deliver h b) = b) \<Longrightarrow> snd (fan_out deliver hs res st) h = st h"
proof (induction hs arbitrary: res st)
  case (Cons k hs)
  show ?case
  proof (cases "st k")
    case (Some b)
    let ?st = "st(k := Some (snd (deliver k b)))"
    have same: "?st h = st h" using Cons.prems Some by (cases "h = k") auto
    then have "snd (fan_out deliver hs res' ?st) h = st h" for res'
      using Cons.IH [of ?st] Cons.prems by metis
    then show ?thesis using Some same by (auto split: prod.splits sum.splits)
  qed (use Cons in simp)
qed simp

lemma enqueue_filtered: "\<not> cb_active b \<or> rem \<and> \<not> receive_remote (cb_options b) \<Longrightarrow> snd (enqueue m posted rem b) = b"
  by (auto simp: enqueue_def enqueue_locked_def)

lemma publish_filtered:
  assumes "bus_blocks s h = Some b" and "\<not> cb_active b \<or> rem \<and> \<not> receive_remote (cb_options b)"
  shows "bus_blocks (snd (publish posts topic ti sh lt m rem s)) h = Some b"
proof (cases rule: publish_cases [of posts topic ti sh lt m rem s])
  case (Sent r live)
  have "snd (fan_out (\<lambda>h. enqueue m (posts h) rem) (map snd live) (no_result (length live)) (bus_blocks s)) h = bus_blocks s h"
    using assms enqueue_filtered [OF assms(2)] by (intro fan_out_skip) auto
  then show ?thesis using Sent(5) assms(1) by (simp add: case_prod_beta)
qed (use assms in simp)

lemma registered_unique:
  assumes "bus_ok s" and "(t, i, h) \<in> registered s" and "(u, j, h) \<in> registered s"
  shows "t = u \<and> i = j"
  using assms inj_onD [of "\<lambda>(topic, sid, h). h" "registered s" "(t, i, h)" "(u, j, h)"]
  by (simp add: bus_ok_def)

section \<open>Properties of the topic bus\<close>

text \<open>C23: The type contract of a topic is fixed by its first registration: whatever calls follow, it
  stays, and as long as the bus runs every \<^verbatim>\<open>advertise\<close>, \<^verbatim>\<open>subscribe\<close> or
  \<^verbatim>\<open>publish\<close> with another type, schema or local type is refused with the conflict error
  and changes nothing.\<close>

theorem topic_contract_fixed:
  assumes "topic_contract s topic = Some c" and "bus_step\<^sup>*\<^sup>* s s'" and "(ti, sh, lt) \<noteq> c"
    and "bus_accepting s'" and "topic \<noteq> []"
  shows "topic_contract s' topic = Some c \<and>
    (let conflict = MiddlewareError (''message type conflict on topic '' @ [CHR 0x27] @ topic @ [CHR 0x27])
     in advertise topic ti sh lt s' = (Inl conflict, s') \<and>
        subscribe_locked topic ti sh lt b s' = (Inl conflict, s') \<and>
        publish posts topic ti sh lt m is_remote s' = (Inl conflict, s'))"
proof -
  have c: "topic_contract s' topic = Some c" using bus_steps_contract assms(1,2) by blast
  then obtain r where "map_of (bus_topics s') topic = Some r" "contract r = c"
    by (auto simp: topic_contract_def)
  then show ?thesis
    using c assms(3-5)
    by (auto simp: Let_def advertise_def subscribe_locked_def publish_def validate_topic_def validate_type_cases)
qed

text \<open>A subscription gets an identifier and a control block that no registered subscription of any
  topic has, starts active and empty, is added to its topic only, and keeps the registry
  well-formed.\<close>

theorem subscribe_fresh:
  assumes "bus_reach s" and "unat (bus_next_id s) + 1 < 2 ^ 64"
    and "subscribe topic ti sh lt options cb s = (Inr (sid, h), s')"
  shows "(\<forall>t k. (t, sid, k) \<notin> registered s) \<and> (\<forall>t i. (t, i, h) \<notin> registered s) \<and>
    registered s' = insert (topic, sid, h) (registered s) \<and>
    (\<exists>b. bus_blocks s' = (bus_blocks s)(h \<mapsto> b) \<and> bus_blocks s h = None \<and> cb_active b \<and>
       cb_pending b = [] \<and> cb_options b = options) \<and> bus_ok s'"
proof -
  have ok: "bus_ok s" using assms(1) by (rule bus_reach_ok)
  obtain b where b: "control_block_new options cb = Inr b"
    and sub: "subscribe_locked topic ti sh lt b s = (Inr (sid, h), s')"
    using assms(3) by (auto simp: subscribe_def split: sum.splits)
  note reg = subscribe_registers [OF ok sub]
  have "registered s' = insert (topic, sid, h) (registered s)"
    using reg(1) by (auto simp: registered_def split: if_splits)
  moreover have "bus_blocks s' = (bus_blocks s)(h \<mapsto> b)" "h = bus_next_block s"
    using sub by (auto elim: subscribe_locked_cases)
  moreover have "cb_active b" "cb_pending b = []" "cb_options b = options"
    using b by (auto simp: control_block_new_def split: if_splits)
  moreover have "bus_blocks s (bus_next_block s) = None"
    using ok unfolding bus_ok_def by (metis less_irrefl not_Some_eq)
  moreover have "bus_ok s'" using bus_ok_subscribe [OF ok sub _ assms(2)] control_block_new_ok [OF b] by blast
  ultimately show ?thesis using reg(2,3) by blast
qed

text \<open>C24: A publish that returns has enqueued its message exactly once into every live subscription
  of the topic and has touched no other control block; the counts in its result are the numbers of
  subscriptions that reported each outcome, and each subscription is counted at most once as
  enqueued, rejected or refused.\<close>

theorem publish_fan_out:
  assumes "bus_reach s" and "publish posts topic ti sh lt m is_remote s = (Inr res, s')"
  shows "\<exists>hs. set hs = {h. bus_blocks s h \<noteq> None \<and> (\<exists>sid. (topic, sid, h) \<in> registered s)} \<and> distinct hs \<and>
    bus_blocks s' = (\<lambda>h. if h \<in> set hs then Some (snd (enqueue m (posts h) is_remote (the (bus_blocks s h))))
      else bus_blocks s h) \<and>
    res = tally (\<lambda>h. fst (enqueue m (posts h) is_remote (the (bus_blocks s h)))) hs (no_result (length hs)) \<and>
    num (\<lambda>h. reports do_enqueued (fst (enqueue m (posts h) is_remote (the (bus_blocks s h))))) hs +
    num (\<lambda>h. reports do_rejected_newest (fst (enqueue m (posts h) is_remote (the (bus_blocks s h))))) hs +
    num (\<lambda>h. reports do_executor_rejected (fst (enqueue m (posts h) is_remote (the (bus_blocks s h))))) hs
      \<le> length hs"
proof -
  have ok: "bus_ok s" using assms(1) by (rule bus_reach_ok)
  show ?thesis
  proof (cases rule: publish_cases [of posts topic ti sh lt m is_remote s])
    case (Sent r live)
    note snap = live_snapshot [OF ok Sent(2), folded Sent(4)]
    let ?hs = "map snd live"
    obtain st where run: "fan_out (\<lambda>h. enqueue m (posts h) is_remote) ?hs (no_result (length ?hs)) (bus_blocks s)
        = (Inr res, st)" and st: "bus_blocks s' = st"
      using Sent(5) assms(2) by (auto split: prod.splits)
    have hs: "set ?hs = {h. bus_blocks s h \<noteq> None \<and> (\<exists>sid. (topic, sid, h) \<in> registered s)}"
      using Sent(2,4) by (force simp: live_subscriptions_def registered_def entries_def)
    have "\<forall>h \<in> set ?hs. \<exists>b. bus_blocks s h = Some b \<and> block_ok b"
      using snap(2) ok by (auto simp: bus_ok_def)
    note counts = blocks.counts_exclusive [OF this, of m posts is_remote]
    note ret = blocks.fan_out_returns [OF run snap(1,2)]
    show ?thesis
      unfolding st by (intro exI [of _ ?hs] conjI hs snap(1) ret [THEN conjunct1] ret [THEN conjunct2] counts)
  qed (use assms(2) in simp)
qed

text \<open>No echo: a message injected from the network never reaches a subscription that asked for
  local messages only, and no message at all reaches a cancelled one; also when the
  publish fails half-way.\<close>

theorem remote_not_echoed:
  assumes "bus_blocks s h = Some b" and "is_remote \<and> \<not> receive_remote (cb_options b) \<or> \<not> cb_active b"
  shows "bus_blocks (snd (publish posts topic ti sh lt m is_remote s)) h = Some b"
  using publish_filtered [OF assms(1), of is_remote] assms(2) by blast

text \<open>C25: \<^verbatim>\<open>stop\<close> ends all delivery: afterwards every registration and publish is refused
  without effect, every subscription that was registered is cancelled with an empty mailbox, the
  registry is empty but keeps the type contracts, and stopping again changes nothing.\<close>

theorem stop_ends_delivery:
  assumes "bus_reach s" and "bus_accepting s" and "topic \<noteq> []"
  shows "registered (stop s) = {} \<and> stop (stop s) = stop s \<and>
    ((t, sid, h) \<in> registered s \<and> bus_blocks s h = Some b \<longrightarrow>
       bus_blocks (stop s) h = Some (b\<lparr>cb_active := False, cb_pending := []\<rparr>)) \<and>
    (let stopped = MiddlewareError ''middleware runtime is stopped''
     in advertise topic ti sh lt (stop s) = (Inl stopped, stop s) \<and>
        subscribe_locked topic ti sh lt cb (stop s) = (Inl stopped, stop s) \<and>
        publish posts topic ti sh lt m is_remote (stop s) = (Inl stopped, stop s))"
proof -
  have off: "\<not> bus_accepting (stop s)" using assms(2) by (simp add: stop_def Let_def)
  have "bus_blocks (stop s) h = Some (b\<lparr>cb_active := False, cb_pending := []\<rparr>)"
    if reg: "(t, sid, h) \<in> registered s" and b: "bus_blocks s h = Some b"
  proof -
    obtain r where r: "map_of (bus_topics s) t = Some r" "(sid, h) \<in> set (tr_subscriptions r)"
      using reg by (cases "map_of (bus_topics s) t") (auto simp: registered_def entries_def)
    then have "(t, r) \<in> set (bus_topics s)" by (simp add: map_of_SomeD)
    moreover have "h \<in> set (map snd (live_subscriptions (bus_blocks s) r))"
      using r(2) b by (force simp: live_subscriptions_def)
    ultimately show ?thesis
      using assms(2) b by (auto simp: stop_def Let_def fold_cancel_block cancel_def)
  qed
  moreover have "stop (stop s) = stop s" using off by (simp add: stop_def [of "stop s"])
  ultimately show ?thesis
    using off assms(3) stop_registry [OF assms(2)]
    by (auto simp: registered_def advertise_def subscribe_locked_def publish_def validate_topic_def Let_def)
qed

text \<open>Cancelling a subscription handle detaches it for good: its block is deactivated and its mailbox
  emptied, or destroyed when no drain owns it, no topic lists it any more, the handle is empty, and
  cancelling the empty handle changes nothing.\<close>

theorem handle_cancel_detaches:
  assumes "bus_reach s" and "(topic, sid, h) \<in> registered s"
    and "sh = \<lparr>sh_bus = True, sh_topic = topic, sh_id = sid, sh_block = Some h\<rparr>"
    and "subscription_cancel sh s = (sh', s')"
  shows "sh' = empty_handle \<and> (\<forall>t i. (t, i, h) \<notin> registered s') \<and>
    (\<forall>b. bus_blocks s' h = Some b \<longrightarrow> \<not> cb_active b \<and> cb_pending b = [] \<and> cb_scheduled b) \<and>
    subscription_cancel sh' s'' = (sh', s'')"
proof -
  have ok: "bus_ok s" using assms(1) by (rule bus_reach_ok)
  let ?s1 = "s\<lparr>bus_blocks := cancel_block h (bus_blocks s)\<rparr>"
  have s': "sh' = empty_handle" "s' = (unsubscribe topic sid ?s1)
      \<lparr>bus_blocks := release h (bus_blocks (unsubscribe topic sid ?s1))\<rparr>"
    using assms(3,4) by (auto simp: subscription_cancel_def Let_def)
  obtain r where r: "map_of (bus_topics s) topic = Some r"
    using assms(2) by (cases "map_of (bus_topics s) topic") (auto simp: registered_def entries_def)
  have e: "entries s' t = (if t = topic then filter (\<lambda>e. fst e \<noteq> sid) (entries s t) else entries s t)" for t
    using r by (simp add: s'(2) unsubscribe_def entries_def AList.update_conv')
  have "(t, i, h) \<notin> registered s'" for t i
  proof
    assume "(t, i, h) \<in> registered s'"
    then have "(t, i, h) \<in> registered s" and "\<not> (t = topic \<and> i = sid)"
      by (auto simp: registered_def e split: if_splits)
    then show False using registered_unique [OF ok assms(2)] by blast
  qed
  moreover have "bus_blocks s' h = release h (cancel_block h (bus_blocks s)) h"
    by (simp add: s'(2) unsubscribe_def split: option.splits)
  then have "\<not> cb_active b \<and> cb_pending b = [] \<and> cb_scheduled b" if "bus_blocks s' h = Some b" for b
    using that by (auto simp: release_def cancel_block_def cancel_def split: option.splits if_splits)
  ultimately show ?thesis
    using s'(1) by (auto simp: subscription_cancel_def empty_handle_def)
qed

section \<open>Concrete runs\<close>

definition bus0 :: "nat topic_bus" where
  "bus0 = \<lparr>bus_accepting = True, bus_next_id = 1, bus_topics = [], bus_blocks = (\<lambda>h. None), bus_next_block = 0\<rparr>"

definition bus1 :: "nat topic_bus" where
  "bus1 = snd (subscribe ''imu'' 7 8 ''ImuMsg'' (default_options\<lparr>receive_remote := False\<rparr>) True bus0)"

lemma bus0_reach: "bus_reach bus0"
  by (rule bus_reach.Start) (simp add: topic_bus_new_def bus0_def)

lemma bus1_reach: "bus_reach bus1"
  unfolding bus1_def by (rule bus_reach.Step [OF bus0_reach], rule bus_step.Subscribe) (simp add: bus0_def)

lemmas bus_eval = bus0_def bus1_def subscribe_def subscribe_locked_def validate_topic_def validate_type_def
  control_block_new_def new_record_def add_subscription_def default_options_def Let_def

lemma bus1_registered: "registered bus1 = {(''imu'', 1, 0)}"
  by (auto simp: bus_eval registered_def entries_def split: if_splits)

theorem topic_contract_fixed_witness:
  "fst (advertise ''imu'' 9 8 ''ImuMsg'' bus1) =
     Inl (MiddlewareError (''message type conflict on topic '' @ [CHR 0x27] @ ''imu'' @ [CHR 0x27]))"
proof -
  have "topic_contract bus1 ''imu'' = Some (7, 8, ''ImuMsg'')" "bus_accepting bus1"
    by (simp_all add: bus_eval topic_contract_def contract_def)
  then show ?thesis
    using topic_contract_fixed [of bus1 "''imu''" "(7, 8, ''ImuMsg'')" bus1 9 8 "''ImuMsg''"] by (simp add: Let_def)
qed

theorem subscribe_fresh_witness:
  "\<exists>s' sid h. subscribe ''imu'' 7 8 ''ImuMsg'' default_options True bus1 = (Inr (sid, h), s') \<and>
     registered s' = insert (''imu'', sid, h) (registered bus1)"
proof -
  obtain sid h s' where s: "subscribe ''imu'' 7 8 ''ImuMsg'' default_options True bus1 = (Inr (sid, h), s')"
    by (simp add: bus_eval)
  moreover have "unat (bus_next_id bus1) + 1 < 2 ^ 64" by (simp add: bus_eval)
  ultimately show ?thesis using subscribe_fresh [OF bus1_reach] by blast
qed

theorem publish_fan_out_witness:
  "\<exists>res s'. publish (\<lambda>h. Inr True) ''imu'' 7 8 ''ImuMsg'' 5 False bus1 = (Inr res, s') \<and>
     pr_enqueued res = 1 \<and> (\<exists>hs. set hs = {0::nat} \<and> distinct hs)"
proof -
  obtain res s' where p: "publish (\<lambda>h. Inr True) ''imu'' 7 8 ''ImuMsg'' 5 False bus1 = (Inr res, s')"
    and one: "pr_enqueued res = 1"
    by (simp add: bus_eval publish_def live_subscriptions_def no_result_def enqueue_def block_ops add_outcome_def)
  have "{h. bus_blocks bus1 h \<noteq> None \<and> (\<exists>sid. (''imu'', sid, h) \<in> registered bus1)} = {0}"
    unfolding bus1_registered by (auto simp: bus_eval)
  moreover have "\<exists>hs. set hs = {h. bus_blocks bus1 h \<noteq> None \<and> (\<exists>sid. (''imu'', sid, h) \<in> registered bus1)} \<and> distinct hs"
    using publish_fan_out [OF bus1_reach p] by (elim exE) (intro exI, elim conjE, intro conjI, assumption+)
  ultimately show ?thesis using p one by (intro exI [of _ res] exI [of _ s'] conjI) simp_all
qed

theorem remote_not_echoed_witness:
  "\<exists>b. bus_blocks bus1 0 = Some b \<and>
     bus_blocks (snd (publish (\<lambda>h. Inr True) ''imu'' 7 8 ''ImuMsg'' 5 True bus1)) 0 = Some b"
proof -
  obtain b where "bus_blocks bus1 0 = Some b" "\<not> receive_remote (cb_options b)" by (simp add: bus_eval)
  then show ?thesis using remote_not_echoed [of bus1 0 b True] by blast
qed

theorem stop_ends_delivery_witness:
  "registered (stop bus1) = {} \<and> fst (advertise ''imu'' 7 8 ''ImuMsg'' (stop bus1)) =
     Inl (MiddlewareError ''middleware runtime is stopped'')"
proof -
  have "bus_accepting bus1" by (simp add: bus_eval)
  then show ?thesis using stop_ends_delivery [OF bus1_reach, of "''imu''" _ _ _ _ 7 8 "''ImuMsg''"] by (simp add: Let_def)
qed

theorem handle_cancel_detaches_witness:
  "\<exists>s'. subscription_cancel \<lparr>sh_bus = True, sh_topic = ''imu'', sh_id = 1, sh_block = Some 0\<rparr> bus1 = (empty_handle, s') \<and>
     (\<forall>t i. (t, i, 0) \<notin> registered s')"
proof -
  obtain sh' s' where c: "subscription_cancel \<lparr>sh_bus = True, sh_topic = ''imu'', sh_id = 1, sh_block = Some 0\<rparr> bus1
      = (sh', s')" by force
  show ?thesis using handle_cancel_detaches [OF bus1_reach _ refl c] c by (auto simp: bus1_registered)
qed

end
