(* ===== verification/Rml_Queue.thy ===== *)
theory Rml_Queue
  imports Rml_Prelude
begin

text \<open>
  \<^verbatim>\<open>ThreadSafeQueue<T>\<close> of \<^verbatim>\<open>core/thread_safe_queue.hpp\<close>.

  First the critical sections, one definition per operation: what the call does between taking
  \<^verbatim>\<open>mutex_\<close> and releasing it, when its wait predicate (if it has one) is evaluated in
  that state; \<open>None\<close> means the predicate is false and the call goes to sleep. Then the operations
  as a contract (\<open>fifo_queue\<close>) that the thread pool relies on, and last the whole monitor: any
  number of threads, the two condition variables, the notifications that are sent after the mutex
  has been released, spurious wake-ups and time-outs, as a step relation.
\<close>

section \<open>State and critical sections\<close>

record 'a ts_queue =
  q_capacity :: size_t
  q_items :: "'a list"
  q_closed :: bool

definition ts_queue_new :: "size_t \<Rightarrow> 'a ts_queue" where
  "ts_queue_new capacity = \<lparr>q_capacity = capacity, q_items = [], q_closed = False\<rparr>"

definition full_locked :: "'a ts_queue \<Rightarrow> bool" where
  "full_locked q \<longleftrightarrow> q_capacity q \<noteq> 0 \<and> length (q_items q) \<ge> unat (q_capacity q)"

text \<open>
  \<^verbatim>\<open>queue_.emplace_back\<close> allocates: \<open>alloc\<close> says whether the allocation succeeds. When it
  does not, the exception leaves the queue as it was.
\<close>

definition emplace_back :: "bool \<Rightarrow> 'a \<Rightarrow> 'a ts_queue \<Rightarrow> (bool \<times> 'a ts_queue) result" where
  "emplace_back alloc x q =
     (if alloc then Inr (True, q\<lparr>q_items := q_items q @ [x]\<rparr>) else Inl BadAlloc)"

definition pop_front :: "'a ts_queue \<Rightarrow> 'a option \<times> 'a ts_queue" where
  "pop_front q = (case q_items q of
       [] \<Rightarrow> (None, q)
     | x # xs \<Rightarrow> (Some x, q\<lparr>q_items := xs\<rparr>))"

definition push_impl :: "bool \<Rightarrow> 'a \<Rightarrow> 'a ts_queue \<Rightarrow> (bool \<times> 'a ts_queue) result option" where
  "push_impl alloc x q =
     (if \<not> (q_closed q \<or> \<not> full_locked q) then None
      else if q_closed q then Some (Inr (False, q))
      else Some (emplace_back alloc x q))"

definition emplace :: "bool \<Rightarrow> 'a \<Rightarrow> 'a ts_queue \<Rightarrow> (bool \<times> 'a ts_queue) result option" where
  "emplace alloc x q =
     (if \<not> (q_closed q \<or> \<not> full_locked q) then None
      else if q_closed q then Some (Inr (False, q))
      else Some (emplace_back alloc x q))"

definition try_push_impl :: "bool \<Rightarrow> 'a \<Rightarrow> 'a ts_queue \<Rightarrow> (bool \<times> 'a ts_queue) result" where
  "try_push_impl alloc x q =
     (if q_closed q \<or> full_locked q then Inr (False, q) else emplace_back alloc x q)"

definition try_emplace :: "bool \<Rightarrow> 'a \<Rightarrow> 'a ts_queue \<Rightarrow> (bool \<times> 'a ts_queue) result" where
  "try_emplace alloc x q =
     (if q_closed q \<or> full_locked q then Inr (False, q) else emplace_back alloc x q)"

definition push :: "bool \<Rightarrow> 'a \<Rightarrow> 'a ts_queue \<Rightarrow> (bool \<times> 'a ts_queue) result option" where
  "push alloc x q = push_impl alloc x q"

definition try_push :: "bool \<Rightarrow> 'a \<Rightarrow> 'a ts_queue \<Rightarrow> (bool \<times> 'a ts_queue) result" where
  "try_push alloc x q = try_push_impl alloc x q"

definition try_pop :: "'a ts_queue \<Rightarrow> 'a option \<times> 'a ts_queue" where
  "try_pop q = (if q_items q = [] then (None, q) else pop_front q)"

definition wait_pop :: "'a ts_queue \<Rightarrow> ('a option \<times> 'a ts_queue) option" where
  "wait_pop q =
     (if \<not> (q_closed q \<or> q_items q \<noteq> []) then None
      else if q_items q = [] then Some (None, q)
      else Some (pop_front q))"

text \<open>\<open>expired\<close>: the timeout has passed when the predicate is evaluated.\<close>

definition wait_pop_for :: "bool \<Rightarrow> 'a ts_queue \<Rightarrow> ('a option \<times> 'a ts_queue) option" where
  "wait_pop_for expired q =
     (if \<not> (q_closed q \<or> q_items q \<noteq> []) then (if expired then Some (None, q) else None)
      else if q_items q = [] then Some (None, q)
      else Some (pop_front q))"

definition queue_close :: "'a ts_queue \<Rightarrow> bool \<times> 'a ts_queue" where
  "queue_close q = (if q_closed q then (False, q) else (True, q\<lparr>q_closed := True\<rparr>))"

definition queue_is_closed :: "'a ts_queue \<Rightarrow> bool" where
  "queue_is_closed q = q_closed q"

definition queue_empty :: "'a ts_queue \<Rightarrow> bool" where
  "queue_empty q = (q_items q = [])"

definition queue_size :: "'a ts_queue \<Rightarrow> size_t" where
  "queue_size q = size_of (q_items q)"

section \<open>The monitor: threads, condition variables, notifications\<close>

text \<open>
  Where a thread is. The \<open>Lock\<close> positions are about to take the mutex (a fresh call, or a waiter
  that was woken and must evaluate its predicate again), the \<open>Wait\<close> positions sleep on
  \<^verbatim>\<open>not_full_\<close> and \<^verbatim>\<open>not_empty_\<close>, the \<open>Signal\<close> positions have released the
  mutex and still have their notification to send. The first flag of \<open>PopLock\<close> and the flag of
  \<open>PopWait\<close> tell \<^verbatim>\<open>wait_pop_for\<close> from \<^verbatim>\<open>wait_pop\<close>, the second says that the
  time is over.
\<close>

datatype 'a qpc =
    Idle
  | PushLock 'a
  | PushWait 'a
  | TryPushLock 'a
  | PopLock bool bool
  | PopWait bool
  | TryPopLock
  | CloseLock
  | SignalNotEmpty
  | SignalNotFull
  | SignalAllEmpty
  | SignalAllFull

record 'a monitor =
  mon_queue :: "'a ts_queue"
  mon_threads :: "'a qpc list"

text \<open>The atomic section of a thread that gets the mutex: where it goes next, and the queue.\<close>

fun after_push :: "'a ts_queue \<Rightarrow> (bool \<times> 'a ts_queue) result \<Rightarrow> 'a qpc \<times> 'a ts_queue" where
  "after_push q (Inl e) = (Idle, q)"
| "after_push q (Inr (True, q')) = (SignalNotEmpty, q')"
| "after_push q (Inr (False, q')) = (Idle, q')"

fun after_pop :: "'a option \<times> 'a ts_queue \<Rightarrow> 'a qpc \<times> 'a ts_queue" where
  "after_pop (None, q) = (Idle, q)"
| "after_pop (Some x, q) = (SignalNotFull, q)"

fun locked_section :: "bool \<Rightarrow> 'a qpc \<Rightarrow> 'a ts_queue \<Rightarrow> ('a qpc \<times> 'a ts_queue) option" where
  "locked_section alloc (PushLock x) q = Some (case push alloc x q of
       None \<Rightarrow> (PushWait x, q) | Some r \<Rightarrow> after_push q r)"
| "locked_section alloc (TryPushLock x) q = Some (after_push q (try_push alloc x q))"
| "locked_section alloc (PopLock timed expired) q = Some
     (case (if timed then wait_pop_for expired q else wait_pop q) of
       None \<Rightarrow> (PopWait timed, q) | Some r \<Rightarrow> after_pop r)"
| "locked_section alloc TryPopLock q = Some (after_pop (try_pop q))"
| "locked_section alloc CloseLock q = Some (case queue_close q of
       (True, q') \<Rightarrow> (SignalAllEmpty, q') | (False, q') \<Rightarrow> (Idle, q'))"
| "locked_section alloc pc q = None"

fun starts_call :: "'a qpc \<Rightarrow> bool" where
  "starts_call (PushLock x) = True"
| "starts_call (TryPushLock x) = True"
| "starts_call (PopLock timed expired) = (\<not> expired)"
| "starts_call TryPopLock = True"
| "starts_call CloseLock = True"
| "starts_call pc = False"

fun wake_not_empty :: "'a qpc \<Rightarrow> 'a qpc" where
  "wake_not_empty (PopWait timed) = PopLock timed False"
| "wake_not_empty pc = pc"

fun wake_not_full :: "'a qpc \<Rightarrow> 'a qpc" where
  "wake_not_full (PushWait x) = PushLock x"
| "wake_not_full pc = pc"

fun sleeps_not_empty :: "'a qpc \<Rightarrow> bool" where
  "sleeps_not_empty (PopWait timed) = True"
| "sleeps_not_empty pc = False"

fun sleeps_not_full :: "'a qpc \<Rightarrow> bool" where
  "sleeps_not_full (PushWait x) = True"
| "sleeps_not_full pc = False"

text \<open>
  One step of one thread. \<open>may_fail\<close> says whether allocations may fail. A notification wakes one
  sleeper if there is one and is lost otherwise.
\<close>

inductive qstep :: "bool \<Rightarrow> 'a monitor \<Rightarrow> 'a monitor \<Rightarrow> bool" for may_fail :: bool where
  Call: "i < length ts \<Longrightarrow> ts ! i = Idle \<Longrightarrow> starts_call pc \<Longrightarrow>
    qstep may_fail \<lparr>mon_queue = q, mon_threads = ts\<rparr> \<lparr>mon_queue = q, mon_threads = ts[i := pc]\<rparr>"
| Locked: "i < length ts \<Longrightarrow> alloc \<or> may_fail \<Longrightarrow> locked_section alloc (ts ! i) q = Some (pc, q') \<Longrightarrow>
    qstep may_fail \<lparr>mon_queue = q, mon_threads = ts\<rparr> \<lparr>mon_queue = q', mon_threads = ts[i := pc]\<rparr>"
| NotifyEmpty: "i < length ts \<Longrightarrow> ts ! i = SignalNotEmpty \<Longrightarrow> j < length ts \<Longrightarrow>
    sleeps_not_empty (ts ! j) \<Longrightarrow>
    qstep may_fail \<lparr>mon_queue = q, mon_threads = ts\<rparr>
      \<lparr>mon_queue = q, mon_threads = ts[i := Idle, j := wake_not_empty (ts ! j)]\<rparr>"
| NotifyEmptyLost: "i < length ts \<Longrightarrow> ts ! i = SignalNotEmpty \<Longrightarrow>
    \<not> list_ex sleeps_not_empty ts \<Longrightarrow>
    qstep may_fail \<lparr>mon_queue = q, mon_threads = ts\<rparr> \<lparr>mon_queue = q, mon_threads = ts[i := Idle]\<rparr>"
| NotifyFull: "i < length ts \<Longrightarrow> ts ! i = SignalNotFull \<Longrightarrow> j < length ts \<Longrightarrow>
    sleeps_not_full (ts ! j) \<Longrightarrow>
    qstep may_fail \<lparr>mon_queue = q, mon_threads = ts\<rparr>
      \<lparr>mon_queue = q, mon_threads = ts[i := Idle, j := wake_not_full (ts ! j)]\<rparr>"
| NotifyFullLost: "i < length ts \<Longrightarrow> ts ! i = SignalNotFull \<Longrightarrow>
    \<not> list_ex sleeps_not_full ts \<Longrightarrow>
    qstep may_fail \<lparr>mon_queue = q, mon_threads = ts\<rparr> \<lparr>mon_queue = q, mon_threads = ts[i := Idle]\<rparr>"
| NotifyAllEmpty: "i < length ts \<Longrightarrow> ts ! i = SignalAllEmpty \<Longrightarrow>
    qstep may_fail \<lparr>mon_queue = q, mon_threads = ts\<rparr>
      \<lparr>mon_queue = q, mon_threads = map wake_not_empty (ts[i := SignalAllFull])\<rparr>"
| NotifyAllFull: "i < length ts \<Longrightarrow> ts ! i = SignalAllFull \<Longrightarrow>
    qstep may_fail \<lparr>mon_queue = q, mon_threads = ts\<rparr>
      \<lparr>mon_queue = q, mon_threads = map wake_not_full (ts[i := Idle])\<rparr>"
| SpuriousEmpty: "i < length ts \<Longrightarrow> ts ! i = PopWait timed \<Longrightarrow>
    qstep may_fail \<lparr>mon_queue = q, mon_threads = ts\<rparr>
      \<lparr>mon_queue = q, mon_threads = ts[i := PopLock timed False]\<rparr>"
| SpuriousFull: "i < length ts \<Longrightarrow> ts ! i = PushWait x \<Longrightarrow>
    qstep may_fail \<lparr>mon_queue = q, mon_threads = ts\<rparr> \<lparr>mon_queue = q, mon_threads = ts[i := PushLock x]\<rparr>"
| Timeout: "i < length ts \<Longrightarrow> ts ! i = PopWait True \<Longrightarrow>
    qstep may_fail \<lparr>mon_queue = q, mon_threads = ts\<rparr>
      \<lparr>mon_queue = q, mon_threads = ts[i := PopLock True True]\<rparr>"

definition monitor_new :: "size_t \<Rightarrow> nat \<Rightarrow> 'a monitor" where
  "monitor_new capacity n = \<lparr>mon_queue = ts_queue_new capacity, mon_threads = replicate n Idle\<rparr>"

inductive qreach :: "bool \<Rightarrow> 'a monitor \<Rightarrow> bool" for may_fail :: bool where
  Start: "qreach may_fail (monitor_new capacity n)"
| Step: "qreach may_fail s \<Longrightarrow> qstep may_fail s s' \<Longrightarrow> qreach may_fail s'"

text \<open>A thread that has neither work to do nor a notification to send: outside, or asleep.\<close>

fun at_rest :: "'a qpc \<Rightarrow> bool" where
  "at_rest Idle = True"
| "at_rest (PushWait x) = True"
| "at_rest (PopWait timed) = True"
| "at_rest pc = False"

fun wants_pop :: "'a qpc \<Rightarrow> bool" where
  "wants_pop (PopLock timed expired) = True"
| "wants_pop pc = False"

fun wants_push :: "'a qpc \<Rightarrow> bool" where
  "wants_push (PushLock x) = True"
| "wants_push pc = False"

text \<open>
  What clients see of a queue over a whole sequence of calls: \<open>run_ops\<close> performs the calls in
  order and returns the values that were accepted and the values that were handed out. A pop
  that would sleep, and a push that throws, leave the queue as it is.
\<close>

datatype 'a queue_op = OpPush bool 'a | OpPop | OpClose

fun run_ops ::
  "(bool \<Rightarrow> 'a \<Rightarrow> 'q \<Rightarrow> (bool \<times> 'q) result) \<Rightarrow> ('q \<Rightarrow> ('a option \<times> 'q) option) \<Rightarrow> ('q \<Rightarrow> bool \<times> 'q) \<Rightarrow>
   'a queue_op list \<Rightarrow> 'q \<Rightarrow> 'a list \<times> 'a list \<times> 'q" where
  "run_ops enq deq cls [] q = ([], [], q)"
| "run_ops enq deq cls (OpPush alloc x # ops) q = (case enq alloc x q of
       Inl e \<Rightarrow> run_ops enq deq cls ops q
     | Inr (b, q') \<Rightarrow> (case run_ops enq deq cls ops q' of
         (ins, outs, q'') \<Rightarrow> (if b then x # ins else ins, outs, q'')))"
| "run_ops enq deq cls (OpPop # ops) q = (case deq q of
       None \<Rightarrow> run_ops enq deq cls ops q
     | Some (r, q') \<Rightarrow> (case run_ops enq deq cls ops q' of
         (ins, outs, q'') \<Rightarrow> (ins, case r of None \<Rightarrow> outs | Some x \<Rightarrow> x # outs, q'')))"
| "run_ops enq deq cls (OpClose # ops) q = run_ops enq deq cls ops (snd (cls q))"

section \<open>Critical sections\<close>

lemmas queue_ops = push_impl_def emplace_def try_push_impl_def try_emplace_def push_def try_push_def
  try_pop_def wait_pop_def wait_pop_for_def queue_close_def emplace_back_def pop_front_def

text \<open>The two invariants of a queue: the capacity bound, and (below) no lost wake-up.\<close>

definition within_capacity :: "'a ts_queue \<Rightarrow> bool" where
  "within_capacity q \<longleftrightarrow> q_capacity q = 0 \<or> length (q_items q) \<le> unat (q_capacity q)"

lemma locked_section_capacity:
  "locked_section alloc pc q = Some (pc', q') \<Longrightarrow> within_capacity q \<Longrightarrow>
     within_capacity q' \<and> q_capacity q' = q_capacity q"
  by (cases pc; cases "q_items q"; cases alloc)
    (auto simp: queue_ops within_capacity_def full_locked_def split: if_splits)

lemma qstep_capacity:
  assumes "qstep may_fail s s'" and "within_capacity (mon_queue s)"
  shows "within_capacity (mon_queue s')"
  using assms by cases (auto dest: locked_section_capacity)

section \<open>No lost wake-ups\<close>

text \<open>
  While the queue is open, either no consumer sleeps, or every element has a consumer that is
  on its way to the mutex or a notification still to be sent; and the same for producers and free
  slots. Once it is closed, a sleeper means that the closing thread has not sent its
  \<^verbatim>\<open>notify_all\<close> yet.
\<close>

definition consumers_ok :: "'a ts_queue \<Rightarrow> 'a qpc list \<Rightarrow> bool" where
  "consumers_ok q ts \<longleftrightarrow> num sleeps_not_empty ts = 0 \<or>
     (if q_closed q then 0 < num (\<lambda>pc. pc = SignalAllEmpty) ts
      else length (q_items q) \<le> num wants_pop ts + num (\<lambda>pc. pc = SignalNotEmpty) ts)"

definition producers_ok :: "'a ts_queue \<Rightarrow> 'a qpc list \<Rightarrow> bool" where
  "producers_ok q ts \<longleftrightarrow> num sleeps_not_full ts = 0 \<or>
     (if q_closed q then 0 < num (\<lambda>pc. pc = SignalAllEmpty) ts + num (\<lambda>pc. pc = SignalAllFull) ts
      else q_capacity q \<noteq> 0 \<and>
        unat (q_capacity q) \<le> length (q_items q) + num wants_push ts + num (\<lambda>pc. pc = SignalNotFull) ts)"

lemma consumers_ok_locked:
  assumes "locked_section alloc (ts ! i) q = Some (pc, q')" and "i < length ts" and "consumers_ok q ts"
  shows "consumers_ok q' (ts[i := pc])"
  using assms num_update [OF assms(2), of sleeps_not_empty pc] num_update [OF assms(2), of wants_pop pc]
    num_update [OF assms(2), of "\<lambda>pc. pc = SignalNotEmpty" pc]
    num_update [OF assms(2), of "\<lambda>pc. pc = SignalAllEmpty" pc]
  by (cases "ts ! i"; cases "q_items q"; cases alloc)
    (auto simp: queue_ops consumers_ok_def split: if_splits)

lemma producers_ok_locked:
  assumes "locked_section True (ts ! i) q = Some (pc, q')" and "i < length ts" and "producers_ok q ts"
  shows "producers_ok q' (ts[i := pc])"
  using assms num_update [OF assms(2), of sleeps_not_full pc] num_update [OF assms(2), of wants_push pc]
    num_update [OF assms(2), of "\<lambda>pc. pc = SignalNotFull" pc]
    num_update [OF assms(2), of "\<lambda>pc. pc = SignalAllEmpty" pc]
    num_update [OF assms(2), of "\<lambda>pc. pc = SignalAllFull" pc]
  by (cases "ts ! i"; cases "q_items q")
    (auto simp: queue_ops producers_ok_def full_locked_def split: if_splits)

text \<open>Moves outside the mutex that put nobody to sleep and drop no wake-up.\<close>

lemma consumers_ok_move:
  assumes "i < length ts" and "consumers_ok q ts"
    and "sleeps_not_empty pc \<Longrightarrow> sleeps_not_empty (ts ! i)" and "wants_pop (ts ! i) \<Longrightarrow> wants_pop pc"
    and "ts ! i \<noteq> SignalNotEmpty" and "ts ! i \<noteq> SignalAllEmpty"
  shows "consumers_ok q (ts[i := pc])"
  using assms num_update [OF assms(1), of sleeps_not_empty pc] num_update [OF assms(1), of wants_pop pc]
    num_update [OF assms(1), of "\<lambda>pc. pc = SignalNotEmpty" pc]
    num_update [OF assms(1), of "\<lambda>pc. pc = SignalAllEmpty" pc]
  by (auto simp: consumers_ok_def of_bool_def split: if_splits)

lemma producers_ok_move:
  assumes "i < length ts" and "producers_ok q ts"
    and "sleeps_not_full pc \<Longrightarrow> sleeps_not_full (ts ! i)" and "wants_push (ts ! i) \<Longrightarrow> wants_push pc"
    and "ts ! i \<noteq> SignalNotFull" and "ts ! i \<noteq> SignalAllEmpty" and "ts ! i \<noteq> SignalAllFull"
  shows "producers_ok q (ts[i := pc])"
  using assms num_update [OF assms(1), of sleeps_not_full pc] num_update [OF assms(1), of wants_push pc]
    num_update [OF assms(1), of "\<lambda>pc. pc = SignalNotFull" pc]
    num_update [OF assms(1), of "\<lambda>pc. pc = SignalAllEmpty" pc]
    num_update [OF assms(1), of "\<lambda>pc. pc = SignalAllFull" pc]
  by (auto simp: producers_ok_def of_bool_def split: if_splits)

lemma sleeps_not_emptyE: "sleeps_not_empty pc \<Longrightarrow> (\<And>timed. pc = PopWait timed \<Longrightarrow> P) \<Longrightarrow> P"
  by (cases pc) auto

lemma sleeps_not_fullE: "sleeps_not_full pc \<Longrightarrow> (\<And>x. pc = PushWait x \<Longrightarrow> P) \<Longrightarrow> P"
  by (cases pc) auto

lemma wake_not_empty_simps [simp]:
  "\<not> sleeps_not_empty (wake_not_empty pc)" "sleeps_not_full (wake_not_empty pc) = sleeps_not_full pc"
  "wants_push (wake_not_empty pc) = wants_push pc"
  "wake_not_empty pc = SignalNotFull \<longleftrightarrow> pc = SignalNotFull"
  "wake_not_empty pc = SignalAllEmpty \<longleftrightarrow> pc = SignalAllEmpty"
  "wake_not_empty pc = SignalAllFull \<longleftrightarrow> pc = SignalAllFull"
  by (cases pc; simp)+

lemma wake_not_full_simps [simp]:
  "\<not> sleeps_not_full (wake_not_full pc)" "sleeps_not_empty (wake_not_full pc) = sleeps_not_empty pc"
  "wants_pop (wake_not_full pc) = wants_pop pc"
  "wake_not_full pc = SignalNotEmpty \<longleftrightarrow> pc = SignalNotEmpty"
  "wake_not_full pc = SignalAllEmpty \<longleftrightarrow> pc = SignalAllEmpty"
  "wake_not_full pc = SignalAllFull \<longleftrightarrow> pc = SignalAllFull"
  by (cases pc; simp)+

lemma consumers_ok_wake:
  "consumers_ok q (map wake_not_empty ts)" "consumers_ok q (map wake_not_full ts) = consumers_ok q ts"
  by (simp_all add: consumers_ok_def o_def)

lemma producers_ok_wake:
  "producers_ok q (map wake_not_full ts)" "producers_ok q (map wake_not_empty ts) = producers_ok q ts"
  by (simp_all add: producers_ok_def o_def)

text \<open>A notification that finds a sleeper is handed over to it.\<close>

lemma consumers_ok_notify:
  assumes "i < length ts" "ts ! i = SignalNotEmpty" "j < length ts" "sleeps_not_empty (ts ! j)"
    and "consumers_ok q ts"
  shows "consumers_ok q (ts[i := Idle, j := wake_not_empty (ts ! j)])"
proof -
  have ij: "i \<noteq> j" using assms(2,4) by auto
  let ?us = "ts[i := Idle]"
  obtain timed where j: "ts ! j = PopWait timed" using assms(4) by (rule sleeps_not_emptyE)
  have upd: "num P ?us + of_bool (P SignalNotEmpty) = num P ts + of_bool (P Idle)"
    "num P (?us[j := PopLock timed False]) + of_bool (P (PopWait timed)) =
       num P ?us + of_bool (P (PopLock timed False))" for P
    using num_update [of i ts P Idle] num_update [of j ?us P "PopLock timed False"] assms(1-3) ij j
    by simp_all
  show ?thesis
    using assms(5) j upd [of sleeps_not_empty] upd [of wants_pop] upd [of "\<lambda>pc. pc = SignalNotEmpty"]
      upd [of "\<lambda>pc. pc = SignalAllEmpty"]
    by (auto simp: consumers_ok_def split: if_splits)
qed

lemma producers_ok_notify:
  assumes "i < length ts" "ts ! i = SignalNotFull" "j < length ts" "sleeps_not_full (ts ! j)"
    and "producers_ok q ts"
  shows "producers_ok q (ts[i := Idle, j := wake_not_full (ts ! j)])"
proof -
  have ij: "i \<noteq> j" using assms(2,4) by auto
  let ?us = "ts[i := Idle]"
  obtain x where j: "ts ! j = PushWait x" using assms(4) by (rule sleeps_not_fullE)
  have upd: "num P ?us + of_bool (P SignalNotFull) = num P ts + of_bool (P Idle)"
    "num P (?us[j := PushLock x]) + of_bool (P (PushWait x)) = num P ?us + of_bool (P (PushLock x))" for P
    using num_update [of i ts P Idle] num_update [of j ?us P "PushLock x"] assms(1-3) ij j
    by simp_all
  show ?thesis
    using assms(5) j upd [of sleeps_not_full] upd [of wants_push] upd [of "\<lambda>pc. pc = SignalNotFull"]
      upd [of "\<lambda>pc. pc = SignalAllEmpty"] upd [of "\<lambda>pc. pc = SignalAllFull"]
    by (auto simp: producers_ok_def split: if_splits)
qed

lemma starts_call_simps [simp]:
  "starts_call pc \<Longrightarrow> \<not> sleeps_not_empty pc" "starts_call pc \<Longrightarrow> \<not> sleeps_not_full pc"
  by (cases pc; simp)+

lemma lost_notify:
  assumes "i < length ts" and "\<not> list_ex P ts" and "\<not> P pc"
  shows "num P (ts[i := pc]) = 0"
  using assms num_update [OF assms(1), of P pc] by (simp add: num_eq_0 [symmetric])

lemma qstep_consumers_ok:
  assumes "qstep may_fail s s'" and "consumers_ok (mon_queue s) (mon_threads s)"
  shows "consumers_ok (mon_queue s') (mon_threads s')"
  using assms
proof cases
  case (NotifyEmptyLost i ts q)
  then show ?thesis using lost_notify [of i ts sleeps_not_empty Idle] by (simp add: consumers_ok_def)
next
  case (Locked i ts alloc q pc q')
  then show ?thesis using consumers_ok_locked assms(2) by auto
next
  case (NotifyEmpty i ts j q)
  then show ?thesis using consumers_ok_notify assms(2) by auto
next
  case (NotifyFull i ts j q)
  then have "i \<noteq> j" by auto
  moreover obtain x where "ts ! j = PushWait x" using NotifyFull(6) by (rule sleeps_not_fullE)
  ultimately show ?thesis using NotifyFull assms(2) by (auto intro!: consumers_ok_move)
qed (use assms(2) in \<open>auto simp: consumers_ok_wake intro!: consumers_ok_move\<close>)

lemma qstep_producers_ok:
  assumes "qstep False s s'" and "producers_ok (mon_queue s) (mon_threads s)"
  shows "producers_ok (mon_queue s') (mon_threads s')"
  using assms
proof cases
  case (NotifyFullLost i ts q)
  then show ?thesis using lost_notify [of i ts sleeps_not_full Idle] by (simp add: producers_ok_def)
next
  case (Locked i ts alloc q pc q')
  then show ?thesis using producers_ok_locked assms(2) by auto
next
  case (NotifyFull i ts j q)
  then show ?thesis using producers_ok_notify assms(2) by auto
next
  case (NotifyEmpty i ts j q)
  then have "i \<noteq> j" by auto
  moreover obtain x where "ts ! j = PopWait x" using NotifyEmpty(6) by (rule sleeps_not_emptyE)
  ultimately show ?thesis using NotifyEmpty assms(2) by (auto intro!: producers_ok_move)
next
  case (NotifyAllEmpty i ts q)
  then show ?thesis
    using assms(2) num_update [of i ts sleeps_not_full SignalAllFull] num_update [of i ts wants_push SignalAllFull]
      num_update [of i ts "\<lambda>pc. pc = SignalNotFull" SignalAllFull]
      num_update [of i ts "\<lambda>pc. pc = SignalAllEmpty" SignalAllFull]
      num_update [of i ts "\<lambda>pc. pc = SignalAllFull" SignalAllFull]
    by (auto simp: producers_ok_def o_def split: if_splits)
qed (use assms(2) in \<open>auto simp: producers_ok_wake intro!: producers_ok_move\<close>)

lemma qreach_capacity: "qreach may_fail s \<Longrightarrow> within_capacity (mon_queue s)"
proof (induction rule: qreach.induct)
  case (Start capacity n)
  show ?case by (simp add: monitor_new_def ts_queue_new_def within_capacity_def)
qed (auto dest: qstep_capacity)

lemma qreach_consumers_ok: "qreach may_fail s \<Longrightarrow> consumers_ok (mon_queue s) (mon_threads s)"
proof (induction rule: qreach.induct)
  case (Start capacity n)
  show ?case by (simp add: monitor_new_def consumers_ok_def)
qed (rule qstep_consumers_ok)

lemma qreach_producers_ok: "qreach False s \<Longrightarrow> producers_ok (mon_queue s) (mon_threads s)"
proof (induction rule: qreach.induct)
  case (Start capacity n)
  show ?case by (simp add: monitor_new_def producers_ok_def)
qed (rule qstep_producers_ok)

lemma num_at_rest:
  assumes "list_all at_rest ts" and "\<And>pc. P pc \<Longrightarrow> \<not> at_rest pc"
  shows "num P ts = 0"
  using assms by (auto simp: num_eq_0 list_all_iff list_ex_iff)

lemma wants_not_at_rest: "wants_pop pc \<Longrightarrow> \<not> at_rest pc" "wants_push pc \<Longrightarrow> \<not> at_rest pc"
  by (cases pc; simp)+

section \<open>The queue contract\<close>

text \<open>
  What a client of the queue may rely on, whatever the capacity: an accepted element is appended
  and acceptance means that the queue was open; a pop takes the oldest element, reports the end only
  when the queue is closed and drained, and sleeps only when it is open and empty; closing keeps
  the elements and succeeds once.
\<close>

locale fifo_queue =
  fixes contents :: "'q \<Rightarrow> 'a list" and closed :: "'q \<Rightarrow> bool"
    and enq :: "bool \<Rightarrow> 'a \<Rightarrow> 'q \<Rightarrow> (bool \<times> 'q) result"
    and deq :: "'q \<Rightarrow> ('a option \<times> 'q) option"
    and cls :: "'q \<Rightarrow> bool \<times> 'q"
  assumes enq_accept: "enq alloc x q = Inr (True, q') \<Longrightarrow>
      contents q' = contents q @ [x] \<and> closed q' = closed q \<and> \<not> closed q"
    and enq_refuse: "enq alloc x q = Inr (False, q') \<Longrightarrow> q' = q"
    and deq_item: "deq q = Some (Some x, q') \<Longrightarrow> contents q = x # contents q' \<and> closed q' = closed q"
    and deq_end: "deq q = Some (None, q') \<Longrightarrow> q' = q \<and> contents q = [] \<and> closed q"
    and deq_sleeps: "deq q = None \<longleftrightarrow> contents q = [] \<and> \<not> closed q"
    and cls_keeps: "contents (snd (cls q)) = contents q \<and> closed (snd (cls q)) \<and> fst (cls q) = (\<not> closed q)"
begin

lemma run_history:
  "run_ops enq deq cls ops q = (ins, outs, q') \<Longrightarrow> contents q @ ins = outs @ contents q'"
proof (induction ops arbitrary: q ins outs rule: list.induct)
  case (Cons op ops)
  then show ?case
    by (cases op)
      (fastforce split: sum.splits prod.splits option.splits if_splits
        dest: enq_accept enq_refuse deq_item deq_end simp: cls_keeps)+
qed simp

lemma run_closed:
  "run_ops enq deq cls ops q = (ins, outs, q') \<Longrightarrow> closed q \<Longrightarrow> ins = [] \<and> closed q'"
proof (induction ops arbitrary: q ins outs rule: list.induct)
  case (Cons op ops)
  then show ?case
    by (cases op)
      (fastforce split: sum.splits prod.splits option.splits if_splits
        dest: enq_accept enq_refuse deq_item deq_end simp: cls_keeps)+
qed simp

lemma closed_pop:
  assumes "closed q"
  shows "\<exists>q'. closed q' \<and> contents q' = tl (contents q) \<and>
    deq q = Some (if contents q = [] then None else Some (hd (contents q)), q')"
proof (cases "deq q")
  case None
  then show ?thesis using assms deq_sleeps by simp
next
  case (Some r)
  then show ?thesis
    using assms deq_item deq_end by (cases r; cases "fst r") fastforce+
qed

lemma closed_drain:
  "closed q \<Longrightarrow> \<exists>q'. run_ops enq deq cls (replicate n OpPop) q = ([], take n (contents q), q') \<and>
     contents q' = drop n (contents q) \<and> closed q'"
proof (induction n arbitrary: q)
  case (Suc n)
  obtain q1 where q1: "closed q1" "contents q1 = tl (contents q)"
    "deq q = Some (if contents q = [] then None else Some (hd (contents q)), q1)"
    using closed_pop [OF Suc.prems] by blast
  show ?case
    using Suc.IH [OF q1(1)] q1 by (cases "contents q") auto
qed simp

end

interpretation tsq: fifo_queue q_items q_closed try_push wait_pop queue_close
  by unfold_locales (auto simp: queue_ops split: if_splits list.splits)

section \<open>Properties of the queue\<close>

text \<open>C12: FIFO without loss or duplication: over any sequence of pushes, pops and closes on a fresh
  queue of any capacity, the accepted values are, in order, the values handed out followed by the
  values still queued; and once the queue is closed nothing is accepted any more while the
  backlog is still handed out in order.\<close>

theorem queue_fifo_history:
  "(run_ops try_push wait_pop queue_close ops (ts_queue_new c) = (ins, outs, q) \<longrightarrow>
      ins = outs @ q_items q) \<and>
   (q_closed q' \<longrightarrow> fst (run_ops try_push wait_pop queue_close ops' q') = [] \<and>
      fst (snd (run_ops try_push wait_pop queue_close (replicate n OpPop) q')) = take n (q_items q') \<and>
      wait_pop q' \<noteq> None)"
proof (intro conjI impI)
  assume "run_ops try_push wait_pop queue_close ops (ts_queue_new c) = (ins, outs, q)"
  then show "ins = outs @ q_items q"
    using tsq.run_history [of ops "ts_queue_new c" ins outs q] by (simp add: ts_queue_new_def)
next
  assume c: "q_closed q'"
  show "fst (run_ops try_push wait_pop queue_close ops' q') = []"
    using tsq.run_closed [OF _ c] by (metis fst_conv prod.collapse)
  show "fst (snd (run_ops try_push wait_pop queue_close (replicate n OpPop) q')) = take n (q_items q')"
    using tsq.closed_drain [OF c, of n] by auto
  show "wait_pop q' \<noteq> None"
    using c tsq.deq_sleeps by blast
qed

theorem queue_fifo_history_witness:
  "fst (run_ops try_push wait_pop queue_close [OpPush True (1::nat), OpPop]
     \<lparr>q_capacity = 1, q_items = [7], q_closed = True\<rparr>) = [] \<and>
   run_ops try_push wait_pop queue_close [OpPush True 1, OpPush True 2, OpPop, OpPush True (3::nat), OpClose, OpPush True 4]
     (ts_queue_new 1) = ([1, 3], [1] , \<lparr>q_capacity = 1, q_items = [3], q_closed = True\<rparr>) \<and> [1, 3] = [1] @ [3::nat]"
proof -
  let ?q = "\<lparr>q_capacity = 1, q_items = [3::nat], q_closed = True\<rparr>"
  have r: "run_ops try_push wait_pop queue_close
      [OpPush True 1, OpPush True 2, OpPop, OpPush True (3::nat), OpClose, OpPush True 4]
     (ts_queue_new 1) = ([1, 3], [1], ?q)"
    by (simp add: queue_ops ts_queue_new_def full_locked_def)
  show ?thesis
    using queue_fifo_history [of "[OpPush True 1, OpPush True 2, OpPop, OpPush True (3::nat), OpClose, OpPush True 4]"
        1 "[1, 3]" "[1]" ?q "\<lparr>q_capacity = 1, q_items = [7], q_closed = True\<rparr>"
        "[OpPush True (1::nat), OpPop]"] r by simp
qed

text \<open>C13: No lost wake-ups for consumers: under any interleaving of any number of threads, with
  spurious wake-ups, time-outs and allocation failures, a state in which every thread is
  outside the queue or asleep has a sleeping \<^verbatim>\<open>wait_pop\<close> or \<^verbatim>\<open>wait_pop_for\<close>
  only when the queue is open and empty; and a bounded queue never exceeds its capacity.\<close>

theorem consumers_never_stuck:
  assumes "qreach may_fail s"
  shows "within_capacity (mon_queue s) \<and>
    (list_all at_rest (mon_threads s) \<and> list_ex sleeps_not_empty (mon_threads s) \<longrightarrow>
       q_items (mon_queue s) = [] \<and> \<not> q_closed (mon_queue s))"
proof (intro conjI impI)
  show "within_capacity (mon_queue s)" using assms by (rule qreach_capacity)
next
  assume rest: "list_all at_rest (mon_threads s) \<and> list_ex sleeps_not_empty (mon_threads s)"
  then have "num (\<lambda>pc. pc = SignalAllEmpty) (mon_threads s) = 0"
    "num (\<lambda>pc. pc = SignalNotEmpty) (mon_threads s) = 0" "num wants_pop (mon_threads s) = 0"
    by (auto intro!: num_at_rest simp: wants_not_at_rest)
  moreover have "num sleeps_not_empty (mon_threads s) \<noteq> 0" using rest by (simp add: num_eq_0)
  ultimately show "q_items (mon_queue s) = []" and "\<not> q_closed (mon_queue s)"
    using qreach_consumers_ok [OF assms] by (auto simp: consumers_ok_def split: if_splits)
qed

text \<open>C14: No lost wake-ups for producers: as long as no allocation fails, a sleeping
  \<^verbatim>\<open>push\<close> or \<^verbatim>\<open>emplace\<close> in a state where every thread is outside or asleep means
  that the queue is open, bounded and full.\<close>

theorem producers_never_stuck:
  assumes "qreach False s" and "list_all at_rest (mon_threads s)"
    and "list_ex sleeps_not_full (mon_threads s)"
  shows "full_locked (mon_queue s) \<and> \<not> q_closed (mon_queue s)"
proof -
  have "num (\<lambda>pc. pc = SignalAllEmpty) (mon_threads s) = 0"
    "num (\<lambda>pc. pc = SignalAllFull) (mon_threads s) = 0"
    "num (\<lambda>pc. pc = SignalNotFull) (mon_threads s) = 0" "num wants_push (mon_threads s) = 0"
    using assms(2) by (auto intro!: num_at_rest simp: wants_not_at_rest)
  moreover have "num sleeps_not_full (mon_threads s) \<noteq> 0" using assms(3) by (simp add: num_eq_0)
  ultimately show ?thesis
    using qreach_producers_ok [OF assms(1)] by (auto simp: producers_ok_def full_locked_def split: if_splits)
qed

section \<open>Concrete runs\<close>

lemma run_call:
  "qreach mf \<lparr>mon_queue = q, mon_threads = ts\<rparr> \<Longrightarrow> i < length ts \<Longrightarrow> ts ! i = Idle \<Longrightarrow> starts_call pc \<Longrightarrow>
     locked_section True pc q = Some (pc', q') \<Longrightarrow>
     qreach mf \<lparr>mon_queue = q', mon_threads = ts[i := pc']\<rparr>"
  using qreach.Step [OF qreach.Step [OF _ qstep.Call] qstep.Locked, of mf q ts i pc i True pc' q'] by simp

lemma run_one_sleeper:
  "qreach mf \<lparr>mon_queue = ts_queue_new 1 :: nat ts_queue, mon_threads = [PopWait False]\<rparr>"
  using run_call [of mf "ts_queue_new 1" "[Idle]" 0 "PopLock False False" "PopWait False" "ts_queue_new 1"]
    qreach.Start [of mf 1 1]
  by (simp add: monitor_new_def queue_ops ts_queue_new_def)

definition one_slot :: "nat list \<Rightarrow> nat ts_queue" where
  "one_slot xs = \<lparr>q_capacity = 1, q_items = xs, q_closed = False\<rparr>"

lemmas one_slot_ops = one_slot_def queue_ops full_locked_def

text \<open>Three threads on a queue with one slot: the first fills it, the other two fall asleep.\<close>

lemma run_two_sleepers:
  "qreach mf \<lparr>mon_queue = one_slot [1], mon_threads = [Idle, PushWait 2, PushWait 3]\<rparr>"
proof -
  have "qreach mf \<lparr>mon_queue = one_slot [], mon_threads = [Idle, Idle, Idle]\<rparr>"
    using qreach.Start [of mf 1 3] by (simp add: monitor_new_def one_slot_def ts_queue_new_def numeral_3_eq_3)
  then have "qreach mf \<lparr>mon_queue = one_slot [1], mon_threads = [SignalNotEmpty, Idle, Idle]\<rparr>"
    using run_call [of mf "one_slot []" "[Idle, Idle, Idle]" 0 "PushLock 1" SignalNotEmpty "one_slot [1]"]
    by (simp add: one_slot_ops)
  then have "qreach mf \<lparr>mon_queue = one_slot [1], mon_threads = [Idle, Idle, Idle]\<rparr>"
    using qreach.Step [OF _ qstep.NotifyEmptyLost [of 0 "[SignalNotEmpty, Idle, Idle]"]] by simp
  then have "qreach mf \<lparr>mon_queue = one_slot [1], mon_threads = [Idle, PushWait 2, Idle]\<rparr>"
    using run_call [of mf "one_slot [1]" "[Idle, Idle, Idle]" 1 "PushLock 2" "PushWait 2" "one_slot [1]"]
    by (simp add: one_slot_ops)
  then show ?thesis
    using run_call [of mf "one_slot [1]" "[Idle, PushWait 2, Idle]" 2 "PushLock 3" "PushWait 3" "one_slot [1]"]
    by (simp add: one_slot_ops)
qed

text \<open>The first thread pops, its notification wakes the second, whose allocation then fails.\<close>

lemma run_failed_wake:
  "qreach True \<lparr>mon_queue = one_slot [], mon_threads = [Idle, Idle, PushWait 3]\<rparr>"
proof -
  have "qreach True \<lparr>mon_queue = one_slot [], mon_threads = [SignalNotFull, PushWait 2, PushWait 3]\<rparr>"
    using run_call [OF run_two_sleepers, of 0 TryPopLock SignalNotFull "one_slot []"]
    by (simp add: one_slot_ops)
  then have "qreach True \<lparr>mon_queue = one_slot [], mon_threads = [Idle, PushLock 2, PushWait 3]\<rparr>"
    using qreach.Step [OF _ qstep.NotifyFull [of 0 "[SignalNotFull, PushWait 2, PushWait 3]" 1]] by simp
  then show ?thesis
    using qreach.Step [OF _ qstep.Locked [of 1 "[Idle, PushLock 2, PushWait 3]" False True
          "one_slot []" Idle "one_slot []"]]
    by (simp add: one_slot_ops)
qed

theorem consumers_never_stuck_witness:
  "\<exists>s :: nat monitor. list_ex sleeps_not_empty (mon_threads s) \<and> q_items (mon_queue s) = [] \<and>
     \<not> q_closed (mon_queue s)"
  using consumers_never_stuck [OF run_one_sleeper [of True]]
  by (intro exI [of _ "\<lparr>mon_queue = ts_queue_new 1, mon_threads = [PopWait False]\<rparr>"]) simp

theorem producers_never_stuck_witness:
  "full_locked (one_slot [1]) \<and> \<not> q_closed (one_slot [1])"
  using producers_never_stuck [OF run_two_sleepers] by simp

text \<open>C15: With a failing allocation a wake-up can be lost: a producer that was woken by the only
  notification and whose \<^verbatim>\<open>emplace_back\<close> throws does not pass the notification on, so
  another producer sleeps although the queue is open and has a free slot and no thread has
  anything left to do.\<close>

theorem failed_push_loses_wakeup:
  "\<exists>s :: nat monitor. qreach True s \<and> list_all at_rest (mon_threads s) \<and>
     list_ex sleeps_not_full (mon_threads s) \<and> \<not> full_locked (mon_queue s) \<and> \<not> q_closed (mon_queue s)"
  using run_failed_wake
  by (intro exI [of _ "\<lparr>mon_queue = one_slot [], mon_threads = [Idle, Idle, PushWait 3]\<rparr>"])
    (simp add: one_slot_def full_locked_def)

end
