(* ===== verification/Rml_Thread_Pool.thy ===== *)
theory Rml_Thread_Pool
  imports Rml_Queue
begin

text \<open>
  \<^verbatim>\<open>ThreadPool\<close> (\<^verbatim>\<open>executor/thread_pool.cpp\<close>) and the \<^verbatim>\<open>Executor\<close>
  in front of it, as a system of threads.

  The state holds the fields of \<^verbatim>\<open>ThreadPool\<close> and \<^verbatim>\<open>ThreadPool::State\<close>, the
  position of every worker in its loop, and every call of \<^verbatim>\<open>post\<close> and
  \<^verbatim>\<open>shutdown\<close> that was ever made, with its position. A position stands before the next
  access to shared state, so one step is one atomic access or one critical section, and the step
  relation interleaves all of them (atomics are taken to be sequentially consistent). A call
  knows whether a task running on a worker made it (\<^verbatim>\<open>active_pool_state\<close> and
  \<^verbatim>\<open>std::this_thread::get_id()\<close>); a task does not finish before its calls do.
  The fields \<open>tp_accepted\<close>, \<open>tp_started\<close> and \<open>tp_outcomes\<close> are history: no step reads them.
\<close>

section \<open>State\<close>

datatype 't worker_pc = WPop | WRun 't | WFail | WCount | WExit

datatype 't call_pc =
    PostCheck "'t option"
  | PostCount 't
  | PostPush 't
  | PostRollback "bool result"
  | PostDone "bool result"
  | ShutStore
  | ShutClose
  | ShutLock
  | ShutWait
  | ShutJoin "nat list"
  | ShutFinish
  | ShutDone

text \<open>The caller: \<open>Some w\<close> for a task that runs on worker \<open>w\<close>, \<open>None\<close> for any other thread.\<close>

datatype 't pool_call = PoolCall (caller: "nat option") (pc_of: "'t call_pc")

record 't pool =
  tp_tasks :: "'t ts_queue"
  tp_accepting :: bool
  tp_submitted :: u64
  tp_completed :: u64
  tp_failed :: u64
  tp_handles :: "nat list"
  tp_in_progress :: bool
  tp_finished :: bool
  tp_workers :: "'t worker_pc list"
  tp_calls :: "'t pool_call list"
  tp_accepted :: "'t list"
  tp_started :: "'t list"
  tp_outcomes :: "bool list"

record pool_stats =
  ps_submitted :: u64
  ps_completed :: u64
  ps_failed :: u64

section \<open>Construction and queries\<close>

text \<open>\<open>hardware_concurrency\<close> is the platform's answer, zero when it has none.\<close>

definition default_worker_count :: "u32 \<Rightarrow> size_t" where
  "default_worker_count hardware_concurrency =
     (if hardware_concurrency = 0 then 1 else ucast hardware_concurrency)"

text \<open>
  \<open>spawn i\<close> says whether the platform can start worker \<open>i\<close>. When one fails the workers started so
  far are told to stop and joined, and the exception is passed on: there is no pool.
\<close>

definition thread_pool_new :: "(nat \<Rightarrow> bool) \<Rightarrow> size_t \<Rightarrow> 't pool result" where
  "thread_pool_new spawn worker_count =
     (if worker_count = 0
      then Inl (InvalidArgument ''ThreadPool worker_count must be greater than zero'')
      else if \<not> list_all spawn [0..<unat worker_count] then Inl SystemError
      else Inr \<lparr>tp_tasks = ts_queue_new 0, tp_accepting = True,
        tp_submitted = 0, tp_completed = 0, tp_failed = 0,
        tp_handles = [0..<unat worker_count], tp_in_progress = False, tp_finished = False,
        tp_workers = replicate (unat worker_count) WPop, tp_calls = [],
        tp_accepted = [], tp_started = [], tp_outcomes = []\<rparr>)"

definition stats :: "'t pool \<Rightarrow> pool_stats" where
  "stats s = \<lparr>ps_submitted = tp_submitted s, ps_completed = tp_completed s, ps_failed = tp_failed s\<rparr>"

definition is_accepting :: "'t pool \<Rightarrow> bool" where
  "is_accepting s = tp_accepting s"

section \<open>The worker loop\<close>

fun call_done :: "'t call_pc \<Rightarrow> bool" where
  "call_done (PostDone r) = True"
| "call_done ShutDone = True"
| "call_done pc = False"

definition busy :: "'t pool \<Rightarrow> nat \<Rightarrow> bool" where
  "busy s w \<longleftrightarrow> list_ex (\<lambda>c. caller c = Some w \<and> \<not> call_done (pc_of c)) (tp_calls s)"

definition set_worker :: "nat \<Rightarrow> 't worker_pc \<Rightarrow> 't pool \<Rightarrow> 't pool" where
  "set_worker w pc s = s\<lparr>tp_workers := (tp_workers s)[w := pc]\<rparr>"

text \<open>\<open>throws\<close>: how the task that runs on the worker ends.\<close>

definition worker_step :: "bool \<Rightarrow> nat \<Rightarrow> 't pool \<Rightarrow> 't pool option" where
  "worker_step throws w s = (case tp_workers s ! w of
       WPop \<Rightarrow> (case wait_pop (tp_tasks s) of
           None \<Rightarrow> None
         | Some (None, q) \<Rightarrow> Some (set_worker w WExit (s\<lparr>tp_tasks := q\<rparr>))
         | Some (Some t, q) \<Rightarrow>
             Some (set_worker w (WRun t) (s\<lparr>tp_tasks := q, tp_started := tp_started s @ [t]\<rparr>)))
     | WRun t \<Rightarrow>
         (if busy s w then None
          else Some (set_worker w (if throws then WFail else WCount)
            (s\<lparr>tp_outcomes := tp_outcomes s @ [throws]\<rparr>)))
     | WFail \<Rightarrow> Some (set_worker w WCount (s\<lparr>tp_failed := tp_failed s + 1\<rparr>))
     | WCount \<Rightarrow> Some (set_worker w WPop (s\<lparr>tp_completed := tp_completed s + 1\<rparr>))
     | WExit \<Rightarrow> None)"

section \<open>Calls\<close>

definition set_call :: "nat \<Rightarrow> 't call_pc \<Rightarrow> 't pool \<Rightarrow> 't pool" where
  "set_call i pc s = s\<lparr>tp_calls := (tp_calls s)[i := PoolCall (caller (tp_calls s ! i)) pc]\<rparr>"

text \<open>One step of \<^verbatim>\<open>post\<close>; \<open>alloc\<close>: whether the queue's allocation succeeds.\<close>

definition post_step :: "bool \<Rightarrow> nat \<Rightarrow> 't pool \<Rightarrow> 't pool option" where
  "post_step alloc i s = (case pc_of (tp_calls s ! i) of
       PostCheck t \<Rightarrow> (case t of
           None \<Rightarrow> Some (set_call i (PostDone (Inr False)) s)
         | Some t \<Rightarrow>
             (if \<not> tp_accepting s then Some (set_call i (PostDone (Inr False)) s)
              else Some (set_call i (PostCount t) s)))
     | PostCount t \<Rightarrow> Some (set_call i (PostPush t) (s\<lparr>tp_submitted := tp_submitted s + 1\<rparr>))
     | PostPush t \<Rightarrow> (case try_push alloc t (tp_tasks s) of
           Inr (True, q) \<Rightarrow>
             Some (set_call i (PostDone (Inr True))
               (s\<lparr>tp_tasks := q, tp_accepted := tp_accepted s @ [t]\<rparr>))
         | Inr (False, q) \<Rightarrow> Some (set_call i (PostRollback (Inr False)) (s\<lparr>tp_tasks := q\<rparr>))
         | Inl e \<Rightarrow> Some (set_call i (PostRollback (Inl e)) s))
     | PostRollback r \<Rightarrow> Some (set_call i (PostDone r) (s\<lparr>tp_submitted := tp_submitted s - 1\<rparr>))
     | _ \<Rightarrow> None)"

text \<open>
  One step of \<^verbatim>\<open>shutdown\<close>. The caller that takes the handles joins the workers one by
  one, detaching itself when it runs on one of them. \<^verbatim>\<open>shutdown_complete_\<close> is notified
  after \<^verbatim>\<open>shutdown_finished_\<close> is set under the mutex, so a waiting call can go on as soon
  as the flag is set.
\<close>

definition shutdown_step :: "nat \<Rightarrow> 't pool \<Rightarrow> 't pool option" where
  "shutdown_step i s = (case pc_of (tp_calls s ! i) of
       ShutStore \<Rightarrow> Some (set_call i ShutClose (s\<lparr>tp_accepting := False\<rparr>))
     | ShutClose \<Rightarrow> Some (set_call i ShutLock (s\<lparr>tp_tasks := snd (queue_close (tp_tasks s))\<rparr>))
     | ShutLock \<Rightarrow>
         (if tp_finished s then Some (set_call i ShutDone s)
          else if tp_in_progress s
          then (if caller (tp_calls s ! i) \<noteq> None then Some (set_call i ShutDone s)
                else Some (set_call i ShutWait s))
          else Some (set_call i (ShutJoin (tp_handles s)) (s\<lparr>tp_in_progress := True, tp_handles := []\<rparr>)))
     | ShutWait \<Rightarrow> (if tp_finished s then Some (set_call i ShutDone s) else None)
     | ShutJoin ws \<Rightarrow> (case ws of
           [] \<Rightarrow> Some (set_call i ShutFinish s)
         | w # ws \<Rightarrow>
             (if caller (tp_calls s ! i) = Some w then Some (set_call i (ShutJoin ws) s)
              else if tp_workers s ! w = WExit then Some (set_call i (ShutJoin ws) s)
              else None))
     | ShutFinish \<Rightarrow> Some (set_call i ShutDone (s\<lparr>tp_finished := True, tp_in_progress := False\<rparr>))
     | _ \<Rightarrow> None)"

text \<open>The calls a thread can make, here and through \<^verbatim>\<open>Executor\<close>.\<close>

definition post :: "'t option \<Rightarrow> 't call_pc" where
  "post task = PostCheck task"

definition shutdown :: "'t call_pc" where
  "shutdown = ShutStore"

definition execute :: "'t option \<Rightarrow> 't call_pc" where
  "execute task = post task"

definition executor_shutdown :: "'t call_pc" where
  "executor_shutdown = shutdown"

section \<open>The system\<close>

inductive internal :: "'t pool \<Rightarrow> 't pool \<Rightarrow> bool" where
  Worker: "w < length (tp_workers s) \<Longrightarrow> worker_step throws w s = Some s' \<Longrightarrow> internal s s'"
| Post: "i < length (tp_calls s) \<Longrightarrow> post_step alloc i s = Some s' \<Longrightarrow> internal s s'"
| Shutdown: "i < length (tp_calls s) \<Longrightarrow> shutdown_step i s = Some s' \<Longrightarrow> internal s s'"

text \<open>A task may call the pool while it runs, one call at a time.\<close>

fun is_running :: "'t worker_pc \<Rightarrow> bool" where
  "is_running (WRun t) = True"
| "is_running pc = False"

fun may_call :: "'t pool \<Rightarrow> nat option \<Rightarrow> bool" where
  "may_call s None = True"
| "may_call s (Some w) =
     (w < length (tp_workers s) \<and> is_running (tp_workers s ! w) \<and> \<not> busy s w)"

inductive pool_step :: "'t pool \<Rightarrow> 't pool \<Rightarrow> bool" where
  Internal: "internal s s' \<Longrightarrow> pool_step s s'"
| NewPost: "may_call s c \<Longrightarrow> pool_step s (s\<lparr>tp_calls := tp_calls s @ [PoolCall c (post task)]\<rparr>)"
| NewShutdown: "may_call s c \<Longrightarrow> pool_step s (s\<lparr>tp_calls := tp_calls s @ [PoolCall c shutdown]\<rparr>)"

inductive pool_reach :: "'t pool \<Rightarrow> bool" where
  Start: "thread_pool_new spawn worker_count = Inr s \<Longrightarrow> pool_reach s"
| Step: "pool_reach s \<Longrightarrow> pool_step s s' \<Longrightarrow> pool_reach s'"

section \<open>Submitting with a future\<close>

text \<open>
  The task \<^verbatim>\<open>submit\<close> posts: it runs the user's call, stores the value or the exception in
  the promise, and passes an exception on to the worker. The result is what the future observes
  and whether the task throws.
\<close>

definition submit_task :: "'r result \<Rightarrow> 'r result \<times> bool" where
  "submit_task call = (case call of
       Inr v \<Rightarrow> (Inr v, False)
     | Inl e \<Rightarrow> (Inl e, True))"

text \<open>How \<^verbatim>\<open>submit\<close> ends, given how its \<^verbatim>\<open>post\<close> ended.\<close>

definition submit_result :: "bool result \<Rightarrow> 'f \<Rightarrow> 'f result" where
  "submit_result posted future = rbind posted
     (\<lambda>ok. if \<not> ok then Inl (RuntimeError ''ThreadPool is not accepting tasks'') else Inr future)"

section \<open>Measure\<close>

text \<open>
  An upper bound on the number of steps that are left when no new call is made: a queued task
  costs four steps of a worker, a shutdown one step per handle.
\<close>

fun worker_weight :: "'t worker_pc \<Rightarrow> nat" where
  "worker_weight WPop = 1"
| "worker_weight (WRun t) = 4"
| "worker_weight WFail = 3"
| "worker_weight WCount = 2"
| "worker_weight WExit = 0"

fun call_weight :: "nat \<Rightarrow> 't call_pc \<Rightarrow> nat" where
  "call_weight n (PostCheck t) = 8"
| "call_weight n (PostCount t) = 7"
| "call_weight n (PostPush t) = 6"
| "call_weight n (PostRollback r) = 1"
| "call_weight n (PostDone r) = 0"
| "call_weight n ShutStore = n + 6"
| "call_weight n ShutClose = n + 5"
| "call_weight n ShutLock = n + 4"
| "call_weight n ShutWait = 1"
| "call_weight n (ShutJoin ws) = length ws + 2"
| "call_weight n ShutFinish = 1"
| "call_weight n ShutDone = 0"

definition potential :: "'t pool \<Rightarrow> nat" where
  "potential s = 4 * length (q_items (tp_tasks s)) + sum_list (map worker_weight (tp_workers s)) +
     sum_list (map (call_weight (length (tp_workers s)) \<circ> pc_of) (tp_calls s))"

section \<open>Accounting\<close>

fun is_counting :: "'t worker_pc \<Rightarrow> bool" where
  "is_counting WFail = True"
| "is_counting WCount = True"
| "is_counting pc = False"

fun is_posting :: "'t call_pc \<Rightarrow> bool" where
  "is_posting (PostPush t) = True"
| "is_posting (PostRollback r) = True"
| "is_posting pc = False"

text \<open>
  Every task is in one place: queued, running, or done and being counted; the three counters are
  the numbers of these, modulo the width of the counters.
\<close>

definition tasks_ordered :: "'t pool \<Rightarrow> bool" where
  "tasks_ordered s \<longleftrightarrow> q_capacity (tp_tasks s) = 0 \<and> tp_accepted s = tp_started s @ q_items (tp_tasks s) \<and>
     int (length (tp_started s)) = int (length (tp_outcomes s)) + int (num is_running (tp_workers s))"

definition counters_exact :: "'t pool \<Rightarrow> bool" where
  "counters_exact s \<longleftrightarrow>
     tp_submitted s = of_nat (length (tp_accepted s)) + of_nat (num (is_posting \<circ> pc_of) (tp_calls s)) \<and>
     of_nat (length (tp_outcomes s)) = tp_completed s + of_nat (num is_counting (tp_workers s)) \<and>
     of_nat (num id (tp_outcomes s)) = tp_failed s + of_nat (num (\<lambda>pc. pc = WFail) (tp_workers s))"

text \<open>Every worker that is counting has contributed an outcome.\<close>

definition outcomes_cover :: "'t pool \<Rightarrow> bool" where
  "outcomes_cover s \<longleftrightarrow> num is_counting (tp_workers s) \<le> length (tp_outcomes s) \<and>
     num (\<lambda>pc. pc = WFail) (tp_workers s) \<le> num id (tp_outcomes s)"

lemmas pool_inv = tasks_ordered_def counters_exact_def

lemmas pool_steps = worker_step_def post_step_def shutdown_step_def set_worker_def set_call_def

lemma worker_step_ordered:
  "worker_step throws w s = Some s' \<Longrightarrow> w < length (tp_workers s) \<Longrightarrow> tasks_ordered s \<Longrightarrow> tasks_ordered s'"
  by (auto simp: worker_step_def set_worker_def tasks_ordered_def of_nat_num_update queue_ops
      split: worker_pc.splits if_splits option.splits prod.splits list.splits)

lemma worker_step_counters:
  "worker_step throws w s = Some s' \<Longrightarrow> w < length (tp_workers s) \<Longrightarrow> counters_exact s \<Longrightarrow> counters_exact s'"
  by (auto simp: worker_step_def set_worker_def counters_exact_def of_nat_num_update queue_ops
      split: worker_pc.splits if_splits option.splits prod.splits list.splits)

lemma post_step_ordered:
  "post_step alloc i s = Some s' \<Longrightarrow> tasks_ordered s \<Longrightarrow> tasks_ordered s'"
  by (auto simp: post_step_def set_call_def tasks_ordered_def queue_ops
      split: call_pc.splits if_splits option.splits prod.splits sum.splits bool.splits)

lemma post_step_counters:
  "post_step alloc i s = Some s' \<Longrightarrow> i < length (tp_calls s) \<Longrightarrow> counters_exact s \<Longrightarrow> counters_exact s'"
  by (auto simp: post_step_def set_call_def counters_exact_def of_nat_num_update queue_ops
      split: call_pc.splits if_splits option.splits prod.splits sum.splits bool.splits)

lemma shutdown_step_ordered:
  "shutdown_step i s = Some s' \<Longrightarrow> tasks_ordered s \<Longrightarrow> tasks_ordered s'"
  by (auto simp: shutdown_step_def set_call_def tasks_ordered_def queue_ops
      split: call_pc.splits if_splits list.splits)

lemma shutdown_step_counters:
  "shutdown_step i s = Some s' \<Longrightarrow> i < length (tp_calls s) \<Longrightarrow> counters_exact s \<Longrightarrow> counters_exact s'"
  by (auto simp: shutdown_step_def set_call_def counters_exact_def of_nat_num_update
      split: call_pc.splits if_splits list.splits)

section \<open>The shutdown protocol\<close>

fun is_joining :: "'t call_pc \<Rightarrow> bool" where
  "is_joining (ShutJoin ws) = True"
| "is_joining ShutFinish = True"
| "is_joining pc = False"

text \<open>All workers have left their loop, except those in \<open>ws\<close> and the caller's own.\<close>

definition exited_except :: "'t pool \<Rightarrow> nat option \<Rightarrow> nat list \<Rightarrow> bool" where
  "exited_except s c ws \<longleftrightarrow>
     (\<forall>w < length (tp_workers s). w \<in> set ws \<or> c = Some w \<or> tp_workers s ! w = WExit)"

definition call_inv :: "'t pool \<Rightarrow> 't pool_call \<Rightarrow> bool" where
  "call_inv s c \<longleftrightarrow>
     (case caller c of None \<Rightarrow> True
      | Some w \<Rightarrow> call_done (pc_of c) \<or> w < length (tp_workers s) \<and> is_running (tp_workers s ! w)) \<and>
     (case pc_of c of
        ShutClose \<Rightarrow> \<not> tp_accepting s
      | ShutLock \<Rightarrow> q_closed (tp_tasks s)
      | ShutWait \<Rightarrow> q_closed (tp_tasks s) \<and> caller c = None \<and> (tp_in_progress s \<or> tp_finished s)
      | ShutJoin ws \<Rightarrow> q_closed (tp_tasks s) \<and> exited_except s (caller c) ws \<and>
          set ws \<subseteq> {..<length (tp_workers s)} \<and> length ws \<le> length (tp_workers s)
      | ShutFinish \<Rightarrow> q_closed (tp_tasks s) \<and> exited_except s (caller c) []
      | ShutDone \<Rightarrow> q_closed (tp_tasks s) \<and> (caller c = None \<longrightarrow> tp_finished s)
      | _ \<Rightarrow> True)"

definition flags_inv :: "'t pool \<Rightarrow> bool" where
  "flags_inv s \<longleftrightarrow>
     (q_closed (tp_tasks s) \<longrightarrow> \<not> tp_accepting s) \<and>
     (list_ex (\<lambda>pc. pc = WExit) (tp_workers s) \<longrightarrow> q_closed (tp_tasks s) \<and> q_items (tp_tasks s) = []) \<and>
     num (is_joining \<circ> pc_of) (tp_calls s) = of_bool (tp_in_progress s) \<and>
     \<not> (tp_in_progress s \<and> tp_finished s) \<and>
     (if tp_in_progress s \<or> tp_finished s then q_closed (tp_tasks s) \<and> tp_handles s = []
      else tp_handles s = [0..<length (tp_workers s)]) \<and>
     (tp_finished s \<longrightarrow> (\<exists>c. PoolCall c ShutDone \<in> set (tp_calls s) \<and> exited_except s c []))"

definition shutdown_inv :: "'t pool \<Rightarrow> bool" where
  "shutdown_inv s \<longleftrightarrow> flags_inv s \<and> (\<forall>c \<in> set (tp_calls s). call_inv s c)"

text \<open>What no step takes back, so that the calls a step does not touch keep their invariant.\<close>

definition later :: "'t pool \<Rightarrow> 't pool \<Rightarrow> bool" where
  "later s s' \<longleftrightarrow> length (tp_workers s') = length (tp_workers s) \<and>
     (q_closed (tp_tasks s) \<longrightarrow> q_closed (tp_tasks s')) \<and> (tp_accepting s' \<longrightarrow> tp_accepting s) \<and>
     (tp_finished s \<longrightarrow> tp_finished s') \<and>
     (tp_in_progress s \<longrightarrow> tp_in_progress s' \<or> tp_finished s') \<and>
     (\<forall>w < length (tp_workers s). tp_workers s ! w = WExit \<longrightarrow> tp_workers s' ! w = WExit) \<and>
     (\<forall>w < length (tp_workers s). busy s w \<longrightarrow> is_running (tp_workers s ! w) \<longrightarrow> is_running (tp_workers s' ! w))"

lemma exited_later: "later s s' \<Longrightarrow> exited_except s c ws \<Longrightarrow> exited_except s' c ws"
  by (auto simp: later_def exited_except_def)

lemma call_busy: "c \<in> set (tp_calls s) \<Longrightarrow> caller c = Some w \<Longrightarrow> \<not> call_done (pc_of c) \<Longrightarrow> busy s w"
  by (auto simp: busy_def list_ex_iff)

lemma call_inv_later:
  assumes "later s s'" and "c \<in> set (tp_calls s)" and "call_inv s c"
  shows "call_inv s' c"
  using assms exited_later [OF assms(1)] call_busy [OF assms(2)]
  unfolding call_inv_def later_def
  by (auto split: option.splits call_pc.splits)

lemma worker_step_later:
  "worker_step throws w s = Some s' \<Longrightarrow> w < length (tp_workers s) \<Longrightarrow> later s s'"
  by (auto simp: worker_step_def set_worker_def later_def queue_ops nth_list_update
      split: worker_pc.splits if_splits option.splits prod.splits list.splits)

lemma post_step_later: "post_step alloc i s = Some s' \<Longrightarrow> later s s'"
  by (auto simp: post_step_def set_call_def later_def queue_ops
      split: call_pc.splits if_splits option.splits prod.splits sum.splits bool.splits)

lemma shutdown_step_later: "shutdown_step i s = Some s' \<Longrightarrow> later s s'"
  by (auto simp: shutdown_step_def set_call_def later_def queue_ops
      split: call_pc.splits if_splits list.splits)

lemma worker_step_calls: "worker_step throws w s = Some s' \<Longrightarrow> tp_calls s' = tp_calls s"
  by (auto simp: worker_step_def set_worker_def
      split: worker_pc.splits if_splits option.splits prod.splits)

lemma worker_step_flags:
  assumes "worker_step throws w s = Some s'" and "w < length (tp_workers s)" and "flags_inv s"
  shows "flags_inv s'"
proof -
  have keep: "tp_accepting s' = tp_accepting s" "tp_in_progress s' = tp_in_progress s"
    "tp_finished s' = tp_finished s" "tp_handles s' = tp_handles s"
    "q_closed (tp_tasks s') = q_closed (tp_tasks s)" "tp_calls s' = tp_calls s"
    using assms(1) by (auto simp: worker_step_def set_worker_def queue_ops
        split: worker_pc.splits if_splits option.splits prod.splits list.splits)
  have "list_ex (\<lambda>pc. pc = WExit) (tp_workers s') \<longrightarrow> q_closed (tp_tasks s') \<and> q_items (tp_tasks s') = []"
    using assms by (auto simp: worker_step_def set_worker_def queue_ops flags_inv_def list_ex_iff
        split: worker_pc.splits if_splits option.splits prod.splits list.splits
        dest!: set_update_subset_insert [THEN subsetD])
  with assms(3) keep worker_step_later [OF assms(1,2)] show ?thesis
    by (auto simp: flags_inv_def later_def intro: exited_later [OF worker_step_later [OF assms(1,2)]])
qed

lemma post_step_flags:
  assumes "post_step alloc i s = Some s'" and "i < length (tp_calls s)" and "flags_inv s"
  shows "flags_inv s'"
proof -
  obtain pc where pc: "tp_calls s' = (tp_calls s)[i := PoolCall (caller (tp_calls s ! i)) pc]"
      "\<not> is_joining pc" "\<not> is_joining (pc_of (tp_calls s ! i))" "pc_of (tp_calls s ! i) \<noteq> ShutDone"
    and keep: "tp_accepting s' = tp_accepting s" "tp_in_progress s' = tp_in_progress s"
      "tp_finished s' = tp_finished s" "tp_handles s' = tp_handles s"
      "q_closed (tp_tasks s') = q_closed (tp_tasks s)" "tp_workers s' = tp_workers s"
      "q_closed (tp_tasks s) \<Longrightarrow> q_items (tp_tasks s') = q_items (tp_tasks s)"
    using assms(1) by (auto simp: post_step_def set_call_def queue_ops
        split: call_pc.splits if_splits option.splits prod.splits sum.splits bool.splits)
  have "num (is_joining \<circ> pc_of) (tp_calls s') = num (is_joining \<circ> pc_of) (tp_calls s)"
    using pc assms(2) by (simp add: num_same)
  moreover have "PoolCall c ShutDone \<in> set (tp_calls s) \<Longrightarrow> PoolCall c ShutDone \<in> set (tp_calls s')" for c
    using pc(1,4) mem_update [of "PoolCall c ShutDone" "tp_calls s" i] by (metis pool_call.sel(2))
  ultimately show ?thesis
    using assms(3) keep by (auto simp: flags_inv_def exited_except_def)
qed

lemma call_inv_updated:
  assumes "shutdown_inv s" and "later s s'" and "tp_calls s' = (tp_calls s)[i := x]" and "call_inv s' x"
  shows "\<forall>c \<in> set (tp_calls s'). call_inv s' c"
  using assms call_inv_later [OF assms(2)] set_update_subset_insert [of "tp_calls s" i x]
  by (auto simp: shutdown_inv_def)

lemma post_step_call:
  assumes "post_step alloc i s = Some s'" and "i < length (tp_calls s)" and "shutdown_inv s"
  shows "\<forall>c \<in> set (tp_calls s'). call_inv s' c"
proof -
  let ?c = "tp_calls s ! i"
  have c: "call_inv s ?c" using assms(2,3) by (auto simp: shutdown_inv_def)
  obtain pc where pc: "tp_calls s' = (tp_calls s)[i := PoolCall (caller ?c) pc]"
    "call_inv s' (PoolCall (caller ?c) pc)"
    using assms(1) c by (auto simp: post_step_def set_call_def call_inv_def
        split: call_pc.splits if_splits option.splits prod.splits sum.splits bool.splits)
  then show ?thesis using call_inv_updated [OF assms(3) post_step_later [OF assms(1)]] by blast
qed

lemma shutdown_step_call:
  assumes "shutdown_step i s = Some s'" and "i < length (tp_calls s)" and "shutdown_inv s"
  shows "\<forall>c \<in> set (tp_calls s'). call_inv s' c"
proof -
  let ?c = "tp_calls s ! i"
  have c: "call_inv s ?c" and f: "flags_inv s" using assms(2,3) by (auto simp: shutdown_inv_def)
  have upd: "tp_calls s' = (tp_calls s)[i := tp_calls s' ! i]"
    using assms(1,2) by (auto simp: shutdown_step_def set_call_def split: call_pc.splits if_splits list.splits)
  have "call_inv s' (tp_calls s' ! i)"
  proof (cases "pc_of ?c")
    case ShutLock
    with assms(1,2) c f show ?thesis
      by (cases "caller ?c") (auto simp: shutdown_step_def set_call_def call_inv_def flags_inv_def
        exited_except_def split: if_splits)
  next
    case (ShutJoin ws)
    with assms(1,2) c f show ?thesis
      by (cases ws; cases "caller ?c")
        (auto simp: shutdown_step_def set_call_def call_inv_def exited_except_def split: if_splits)
  qed (use assms(1,2) c f in \<open>auto simp: shutdown_step_def set_call_def call_inv_def flags_inv_def
        exited_except_def queue_ops split: if_splits option.splits\<close>)
  then show ?thesis using call_inv_updated [OF assms(3) shutdown_step_later [OF assms(1)] upd] by blast
qed

text \<open>The flags after a call has moved, given the number of joining calls.\<close>

lemma flags_inv_move:
  assumes "flags_inv s" and "i < length (tp_calls s)" and "pc_of (tp_calls s ! i) \<noteq> ShutDone"
    and "is_joining (pc_of (tp_calls s ! i)) = is_joining pc"
  shows "flags_inv (set_call i pc s)"
proof -
  let ?x = "PoolCall (caller (tp_calls s ! i)) pc"
  have "num (is_joining \<circ> pc_of) ((tp_calls s)[i := ?x]) = num (is_joining \<circ> pc_of) (tp_calls s)"
    using assms(2,4) by (simp add: num_same)
  moreover have "PoolCall c ShutDone \<in> set (tp_calls s) \<Longrightarrow> PoolCall c ShutDone \<in> set ((tp_calls s)[i := ?x])" for c
    using assms(3) mem_update [of "PoolCall c ShutDone" "tp_calls s" i] by (metis pool_call.sel(2))
  ultimately show ?thesis
    using assms(1) by (auto simp: flags_inv_def set_call_def exited_except_def)
qed

lemma flags_inv_join:
  assumes "flags_inv s" and "i < length (tp_calls s)" and "pc_of (tp_calls s ! i) = ShutLock"
    and "q_closed (tp_tasks s)" and "\<not> tp_finished s" and "\<not> tp_in_progress s"
  shows "flags_inv (set_call i (ShutJoin ws) (s\<lparr>tp_in_progress := True, tp_handles := []\<rparr>))"
  using assms num_update [OF assms(2), of "is_joining \<circ> pc_of" "PoolCall (caller (tp_calls s ! i)) (ShutJoin ws)"]
  by (simp add: flags_inv_def set_call_def)

lemma flags_inv_finish:
  assumes "flags_inv s" and "i < length (tp_calls s)" and "pc_of (tp_calls s ! i) = ShutFinish"
    and "exited_except s (caller (tp_calls s ! i)) []"
  shows "flags_inv (set_call i ShutDone (s\<lparr>tp_finished := True, tp_in_progress := False\<rparr>))"
    (is "flags_inv ?s'")
proof -
  let ?c = "caller (tp_calls s ! i)"
  have "PoolCall ?c ShutDone \<in> set (tp_calls ?s') \<and> exited_except ?s' ?c []"
    using assms(2,4) by (simp add: set_call_def exited_except_def set_update_memI)
  moreover have "0 < num (is_joining \<circ> pc_of) (tp_calls s)"
    using assms(2,3) num_pos [of i "tp_calls s" "is_joining \<circ> pc_of"] by simp
  then have "num (is_joining \<circ> pc_of) (tp_calls ?s') = 0" "tp_in_progress s"
    using assms(1,3) num_update [OF assms(2), of "is_joining \<circ> pc_of" "PoolCall ?c ShutDone"]
    by (auto simp: set_call_def flags_inv_def split: if_splits)
  ultimately show ?thesis
    using assms(1) unfolding flags_inv_def by (auto simp: set_call_def)
qed

lemma flags_inv_close:
  "flags_inv s \<Longrightarrow> \<not> tp_accepting s \<Longrightarrow> flags_inv (s\<lparr>tp_tasks := snd (queue_close (tp_tasks s))\<rparr>)"
  "flags_inv s \<Longrightarrow> flags_inv (s\<lparr>tp_accepting := False\<rparr>)"
  by (auto simp: flags_inv_def exited_except_def queue_close_def)

lemma shutdown_step_flags:
  assumes "shutdown_step i s = Some s'" and "i < length (tp_calls s)" and "shutdown_inv s"
  shows "flags_inv s'"
proof -
  let ?c = "tp_calls s ! i"
  have c: "call_inv s ?c" and f: "flags_inv s" using assms(2,3) by (auto simp: shutdown_inv_def)
  show ?thesis
  proof (cases "pc_of ?c")
    case (ShutJoin ws)
    then show ?thesis
      using assms(1,2) f
      by (cases ws) (auto simp: shutdown_step_def intro!: flags_inv_move split: if_splits)
  next
    case ShutLock
    then have "q_closed (tp_tasks s)" using c by (simp add: call_inv_def)
    with ShutLock show ?thesis
      using assms(1,2) f flags_inv_join [OF f assms(2)] flags_inv_move [OF f assms(2)]
      by (auto simp: shutdown_step_def split: if_splits)
  next
    case ShutFinish
    then have "exited_except s (caller ?c) []" using c by (simp add: call_inv_def)
    with ShutFinish show ?thesis
      using assms(1) flags_inv_finish [OF f assms(2)] by (auto simp: shutdown_step_def)
  qed (use assms(1,2) c f in \<open>auto simp: shutdown_step_def call_inv_def
        intro!: flags_inv_move flags_inv_close split: if_splits\<close>)
qed

lemma shutdown_inv_internal:
  assumes "internal s s'" and "shutdown_inv s"
  shows "shutdown_inv s'"
  using assms
proof cases
  case (Worker w throws)
  then show ?thesis
    using assms(2) worker_step_flags worker_step_calls call_inv_later [OF worker_step_later]
    by (fastforce simp: shutdown_inv_def)
next
  case (Post i alloc)
  then show ?thesis
    using assms(2) post_step_flags [OF Post(2,1)] post_step_call [OF Post(2,1) assms(2)]
    by (simp add: shutdown_inv_def)
next
  case (Shutdown i)
  then show ?thesis
    using shutdown_step_flags [OF Shutdown(2,1) assms(2)] shutdown_step_call [OF Shutdown(2,1) assms(2)]
    by (simp add: shutdown_inv_def)
qed

lemma shutdown_inv_new_call:
  assumes "may_call s c" and "shutdown_inv s" and "pc = PostCheck t \<or> pc = ShutStore"
  shows "shutdown_inv (s\<lparr>tp_calls := tp_calls s @ [PoolCall c pc]\<rparr>)"
proof -
  let ?s = "s\<lparr>tp_calls := tp_calls s @ [PoolCall c pc]\<rparr>"
  have "call_inv ?s d" if "call_inv s d" for d
    using that by (auto simp: call_inv_def exited_except_def split: option.splits call_pc.splits)
  moreover have "call_inv ?s (PoolCall c pc)"
    using assms(1,3) by (cases c) (auto simp: call_inv_def)
  moreover have "flags_inv ?s"
    using assms(2,3) by (auto simp: shutdown_inv_def flags_inv_def exited_except_def)
  ultimately show ?thesis using assms(2) by (auto simp: shutdown_inv_def)
qed

lemma pool_start_inv:
  assumes "thread_pool_new spawn n = Inr s"
  shows "tasks_ordered s \<and> counters_exact s \<and> shutdown_inv s"
  using assms
  by (auto simp: thread_pool_new_def pool_inv shutdown_inv_def flags_inv_def ts_queue_new_def
      list_ex_iff split: if_splits)

lemma pool_reach_inv: "pool_reach s \<Longrightarrow> tasks_ordered s \<and> counters_exact s \<and> shutdown_inv s"
proof (induction rule: pool_reach.induct)
  case (Start spawn n s)
  then show ?case by (rule pool_start_inv)
next
  case (Step s s')
  have new: "tasks_ordered (s\<lparr>tp_calls := tp_calls s @ [PoolCall c pc]\<rparr>)"
    "\<not> is_posting pc \<Longrightarrow> counters_exact (s\<lparr>tp_calls := tp_calls s @ [PoolCall c pc]\<rparr>)" for c pc
    using Step.IH by (simp_all add: pool_inv)
  from Step.hyps(2) show ?case
  proof cases
    case Internal
    moreover have "tasks_ordered s' \<and> counters_exact s'"
      using Internal Step.IH
      by cases (auto intro: worker_step_ordered worker_step_counters post_step_ordered
          post_step_counters shutdown_step_ordered shutdown_step_counters)
    ultimately show ?thesis using Step.IH shutdown_inv_internal by blast
  next
    case (NewPost c task)
    then show ?thesis using Step.IH new shutdown_inv_new_call [of s c "PostCheck task" task]
      by (auto simp: post_def)
  next
    case (NewShutdown c)
    then show ?thesis using Step.IH new shutdown_inv_new_call [of s c ShutStore]
      by (auto simp: shutdown_def)
  qed
qed

lemmas reach_ordered = pool_reach_inv [THEN conjunct1]
lemmas reach_counters = pool_reach_inv [THEN conjunct2, THEN conjunct1]
lemmas reach_shutdown = pool_reach_inv [THEN conjunct2, THEN conjunct2]

section \<open>Progress and termination\<close>

text \<open>A call that cannot move is finished, waits for the joiner, or joins a worker that still runs.\<close>

lemma stuck_call:
  assumes "i < length (tp_calls s)" and "\<nexists>s'. internal s s'"
  shows "call_done (pc_of (tp_calls s ! i)) \<or> pc_of (tp_calls s ! i) = ShutWait \<and> \<not> tp_finished s \<or>
    (\<exists>w ws. pc_of (tp_calls s ! i) = ShutJoin (w # ws) \<and> caller (tp_calls s ! i) \<noteq> Some w \<and>
       tp_workers s ! w \<noteq> WExit)"
proof -
  have "post_step True i s = None" "shutdown_step i s = None"
    using assms internal.Post [of i s True] internal.Shutdown [of i s] by (metis option.exhaust)+
  then show ?thesis
    by (cases "pc_of (tp_calls s ! i)")
      (auto simp: post_step_def shutdown_step_def split: if_splits option.splits list.splits sum.splits
        prod.splits bool.splits)
qed

lemma stuck_worker:
  assumes "w < length (tp_workers s)" and "\<nexists>s'. internal s s'"
  shows "tp_workers s ! w = WExit \<or> is_running (tp_workers s ! w) \<and> busy s w \<or>
    tp_workers s ! w = WPop \<and> q_items (tp_tasks s) = [] \<and> \<not> q_closed (tp_tasks s)"
proof -
  have "worker_step True w s = None"
    using assms internal.Worker [of w s True] by (metis option.exhaust)
  then show ?thesis
    using tsq.deq_sleeps [of "tp_tasks s"]
    by (cases "tp_workers s ! w") (auto simp: worker_step_def split: if_splits option.splits)
qed

lemma joining_not_done: "is_joining pc \<Longrightarrow> \<not> call_done pc"
  by (cases pc) auto

lemma stuck_calls_done:
  assumes inv: "shutdown_inv s" and stuck: "\<nexists>s'. internal s s'"
  shows "list_all (call_done \<circ> pc_of) (tp_calls s)"
proof -
  have joiner: "\<not> is_joining (pc_of (tp_calls s ! i))" if i: "i < length (tp_calls s)" for i
  proof
    assume j: "is_joining (pc_of (tp_calls s ! i))"
    then obtain w ws where w: "pc_of (tp_calls s ! i) = ShutJoin (w # ws)"
      "caller (tp_calls s ! i) \<noteq> Some w" "tp_workers s ! w \<noteq> WExit"
      using stuck_call [OF i stuck] joining_not_done by fastforce
    moreover have "call_inv s (tp_calls s ! i)" using inv i by (simp add: shutdown_inv_def)
    ultimately have "w < length (tp_workers s)" "q_closed (tp_tasks s)" by (auto simp: call_inv_def)
    then have "busy s w" using stuck_worker [OF _ stuck] w(3) by blast
    then obtain k where k: "k < length (tp_calls s)" "caller (tp_calls s ! k) = Some w"
      "\<not> call_done (pc_of (tp_calls s ! k))"
      by (auto simp: busy_def list_ex_iff in_set_conv_nth)
    moreover have "call_inv s (tp_calls s ! k)" using inv k by (simp add: shutdown_inv_def)
    ultimately have "is_joining (pc_of (tp_calls s ! k))"
      using stuck_call [OF k(1) stuck] by (auto simp: call_inv_def)
    then have "k = i"
      using inv i j k(1) num_le_1_unique [of "is_joining \<circ> pc_of" "tp_calls s" k i]
      by (auto simp: shutdown_inv_def flags_inv_def)
    then show False using k(2) w(2) by simp
  qed
  have "call_done (pc_of (tp_calls s ! i))" if i: "i < length (tp_calls s)" for i
  proof -
    have "num (is_joining \<circ> pc_of) (tp_calls s) = 0"
      using joiner by (auto simp: num_eq_0 list_ex_length)
    then have "call_inv s (tp_calls s ! i)" and "\<not> tp_in_progress s"
      using inv i by (simp_all add: shutdown_inv_def flags_inv_def)
    then show ?thesis using stuck_call [OF i stuck] joiner [OF i] by (auto simp: call_inv_def)
  qed
  then show ?thesis by (simp add: list_all_length)
qed

lemma worker_step_decreases:
  assumes "worker_step throws w s = Some s'" and "w < length (tp_workers s)"
  shows "potential s' < potential s"
  using assms sum_list_nth_le [OF assms(2), of worker_weight]
  by (auto simp: worker_step_def set_worker_def potential_def queue_ops sum_list_update_diff
      split: worker_pc.splits if_splits option.splits prod.splits list.splits)

lemma post_step_decreases:
  assumes "post_step alloc i s = Some s'" and "i < length (tp_calls s)"
  shows "potential s' < potential s"
  using assms sum_list_nth_le [OF assms(2), of "call_weight (length (tp_workers s)) \<circ> pc_of"]
  by (auto simp: post_step_def set_call_def potential_def queue_ops sum_list_update_diff
      split: call_pc.splits if_splits option.splits prod.splits sum.splits bool.splits)

lemma shutdown_step_decreases:
  assumes "shutdown_step i s = Some s'" and "i < length (tp_calls s)" and "flags_inv s"
  shows "potential s' < potential s"
proof -
  have "length (tp_handles s) \<le> length (tp_workers s)"
    using assms(3) by (auto simp: flags_inv_def split: if_splits)
  then show ?thesis
    using assms(1,2) sum_list_nth_le [OF assms(2), of "call_weight (length (tp_workers s)) \<circ> pc_of"]
    by (auto simp: shutdown_step_def set_call_def potential_def queue_ops sum_list_update_diff
        split: call_pc.splits if_splits list.splits)
qed

lemma internal_decreases: "internal s s' \<Longrightarrow> flags_inv s \<Longrightarrow> potential s' < potential s"
  by (erule internal.cases)
    (auto intro: worker_step_decreases post_step_decreases shutdown_step_decreases)

lemma all_exited_idle:
  assumes "tasks_ordered s" and "shutdown_inv s" and "0 < length (tp_workers s)" and "exited_except s None []"
  shows "list_all (\<lambda>pc. pc = WExit) (tp_workers s)" "q_items (tp_tasks s) = []"
    "tp_started s = tp_accepted s" "length (tp_outcomes s) = length (tp_accepted s)"
proof -
  show all: "list_all (\<lambda>pc. pc = WExit) (tp_workers s)"
    using assms(4) by (simp add: exited_except_def list_all_length)
  then have "list_ex (\<lambda>pc. pc = WExit) (tp_workers s)"
    using assms(3) by (auto simp: list_all_length list_ex_length)
  then show items: "q_items (tp_tasks s) = []"
    using assms(2) by (simp add: shutdown_inv_def flags_inv_def)
  then show started: "tp_started s = tp_accepted s" using assms(1) by (simp add: tasks_ordered_def)
  have "num is_running (tp_workers s) = 0"
    using all by (auto simp: num_eq_0 list_all_iff list_ex_iff)
  then show "length (tp_outcomes s) = length (tp_accepted s)"
    using assms(1) started by (simp add: tasks_ordered_def)
qed

lemma pool_step_workers: "pool_step s s' \<Longrightarrow> length (tp_workers s') = length (tp_workers s)"
  by (erule pool_step.cases; (erule internal.cases)?)
    (auto dest: worker_step_later post_step_later shutdown_step_later simp: later_def)

lemma reach_workers: "pool_reach s \<Longrightarrow> 0 < length (tp_workers s)"
proof (induction rule: pool_reach.induct)
  case (Start spawn n s)
  then show ?case by (auto simp: thread_pool_new_def unat_eq_0 split: if_splits)
qed (simp add: pool_step_workers)

lemma pool_step_closed:
  assumes "pool_step s s'" and "q_closed (tp_tasks s)" and "\<not> tp_accepting s"
  shows "q_closed (tp_tasks s') \<and> \<not> tp_accepting s' \<and> tp_accepted s' = tp_accepted s"
  using assms(1)
proof cases
  case Internal
  then show ?thesis
  proof cases
    case (Worker w throws)
    then show ?thesis using assms(2,3)
      by (auto simp: worker_step_def set_worker_def queue_ops
          split: worker_pc.splits if_splits option.splits prod.splits list.splits)
  next
    case (Post i alloc)
    then show ?thesis using assms(2,3)
      by (auto simp: post_step_def set_call_def queue_ops
          split: call_pc.splits if_splits option.splits prod.splits sum.splits bool.splits)
  next
    case (Shutdown i)
    then show ?thesis using assms(2,3)
      by (auto simp: shutdown_step_def set_call_def queue_ops split: call_pc.splits if_splits list.splits)
  qed
qed (use assms(2,3) in simp_all)

lemma pool_steps_closed:
  "pool_step\<^sup>*\<^sup>* s s' \<Longrightarrow> q_closed (tp_tasks s) \<Longrightarrow> \<not> tp_accepting s \<Longrightarrow>
     q_closed (tp_tasks s') \<and> \<not> tp_accepting s' \<and> tp_accepted s' = tp_accepted s"
  by (induction rule: rtranclp_induct) (auto dest: pool_step_closed)

lemma worker_step_outcomes:
  assumes "worker_step throws w s = Some s'" and "w < length (tp_workers s)" and "outcomes_cover s"
  shows "outcomes_cover s'"
proof -
  have upd: "num P (ws[w := x]) = num P ws + of_bool (P x) - of_bool (P (ws ! w))"
    if "w < length ws" for P x and ws :: "'a worker_pc list"
    using num_update [OF that, of P x] by simp
  have "is_counting (tp_workers s ! w) \<Longrightarrow> 0 < num is_counting (tp_workers s)"
    "tp_workers s ! w = WFail \<Longrightarrow> 0 < num (\<lambda>pc. pc = WFail) (tp_workers s)"
    using num_pos [OF assms(2), of is_counting] num_pos [OF assms(2), of "\<lambda>pc. pc = WFail"] by auto
  then show ?thesis
    using assms
    by (cases "tp_workers s ! w")
      (auto simp: worker_step_def set_worker_def outcomes_cover_def upd
        split: if_splits option.splits)
qed

lemma other_step_outcomes:
  "post_step alloc i s = Some s' \<Longrightarrow> outcomes_cover s' = outcomes_cover s"
  "shutdown_step i s = Some s' \<Longrightarrow> outcomes_cover s' = outcomes_cover s"
  by (auto simp: post_step_def shutdown_step_def set_call_def outcomes_cover_def
      split: call_pc.splits if_splits option.splits prod.splits sum.splits bool.splits list.splits)

lemma reach_outcomes: "pool_reach s \<Longrightarrow> outcomes_cover s"
proof (induction rule: pool_reach.induct)
  case (Start spawn n s)
  then show ?case by (auto simp: thread_pool_new_def outcomes_cover_def split: if_splits)
next
  case (Step s s')
  from Step.hyps(2) Step.IH show ?case
    by cases (auto elim!: internal.cases simp: other_step_outcomes intro: worker_step_outcomes,
      simp_all add: outcomes_cover_def)
qed

section \<open>Properties of the thread pool\<close>

text \<open>C16: In every reachable state the counters are exact (modulo their 64-bit width): submitted
  exceeds completed by the tasks queued, running or being counted and the posts in progress; failed
  is the number of tasks that threw, less those not counted yet; and tasks are started in the
  order in which they were accepted, none lost and none twice.\<close>

theorem pool_accounting:
  assumes "pool_reach s"
  shows "tp_accepted s = tp_started s @ q_items (tp_tasks s) \<and>
    tp_submitted s = tp_completed s + of_nat (length (q_items (tp_tasks s)) +
      num is_running (tp_workers s) + num is_counting (tp_workers s) +
      num (is_posting \<circ> pc_of) (tp_calls s)) \<and>
    tp_failed s = of_nat (num id (tp_outcomes s)) - of_nat (num (\<lambda>pc. pc = WFail) (tp_workers s))"
proof -
  have o: "tp_accepted s = tp_started s @ q_items (tp_tasks s)"
    "length (tp_started s) = length (tp_outcomes s) + num is_running (tp_workers s)"
    using reach_ordered [OF assms] by (auto simp: tasks_ordered_def)
  then show ?thesis
    using reach_counters [OF assms] by (simp add: counters_exact_def algebra_simps)
qed

text \<open>A statistics snapshot is plausible at any moment as long as fewer than \<open>2\<^sup>6\<^sup>4\<close> posts were
  ever made: completed never exceeds submitted, and failed never exceeds completed by more than
  the workers that have counted a failure but not yet the completion.\<close>

theorem stats_plausible:
  assumes "pool_reach s" and "length (tp_accepted s) + length (tp_calls s) < 2 ^ 64"
  shows "unat (ps_completed (stats s)) \<le> unat (ps_submitted (stats s)) \<and>
    unat (ps_failed (stats s)) \<le> unat (ps_completed (stats s)) + num is_counting (tp_workers s)"
proof -
  let ?n = "num (is_posting \<circ> pc_of) (tp_calls s)" and ?c = "num is_counting (tp_workers s)"
  let ?f = "num (\<lambda>pc. pc = WFail) (tp_workers s)"
  have o: "length (tp_outcomes s) \<le> length (tp_accepted s)"
    using reach_ordered [OF assms(1)] by (auto simp: tasks_ordered_def)
  have len: "?n \<le> length (tp_calls s)" "num id (tp_outcomes s) \<le> length (tp_outcomes s)"
    by (simp_all add: num_def)
  have b: "?c \<le> length (tp_outcomes s)" "?f \<le> num id (tp_outcomes s)"
    using reach_outcomes [OF assms(1)] by (simp_all add: outcomes_cover_def)
  have small: "unat (of_nat k :: u64) = k" if "k \<le> length (tp_accepted s) + length (tp_calls s)" for k
    using that assms(2) by (simp add: unat_of_nat take_bit_eq_mod)
  have w: "tp_submitted s = of_nat (length (tp_accepted s) + ?n)"
    "tp_completed s = of_nat (length (tp_outcomes s) - ?c)"
    "tp_failed s = of_nat (num id (tp_outcomes s) - ?f)"
    using reach_counters [OF assms(1)] b by (simp_all add: counters_exact_def of_nat_diff algebra_simps)
  have "unat (tp_submitted s) = length (tp_accepted s) + ?n"
    "unat (tp_completed s) = length (tp_outcomes s) - ?c" "unat (tp_failed s) = num id (tp_outcomes s) - ?f"
    unfolding w using len o by (simp_all only: small)
  then show ?thesis using o len b by (auto simp: stats_def)
qed

text \<open>C17: Drain semantics: once \<^verbatim>\<open>shutdown\<close> has returned to a thread outside the pool, the
  pool accepts nothing any more and all workers have left their loop, except possibly one whose own
  task called \<^verbatim>\<open>shutdown\<close>; if no task did, every accepted task has been run to its end.\<close>

theorem shutdown_drains:
  assumes "pool_reach s" and "PoolCall None ShutDone \<in> set (tp_calls s)"
  shows "\<not> is_accepting s \<and> tp_finished s \<and>
    (\<exists>c. PoolCall c ShutDone \<in> set (tp_calls s) \<and> exited_except s c [] \<and>
      (c = None \<longrightarrow> q_items (tp_tasks s) = [] \<and> tp_started s = tp_accepted s \<and>
         length (tp_outcomes s) = length (tp_accepted s)))"
proof -
  have inv: "shutdown_inv s" "tasks_ordered s" using reach_shutdown reach_ordered assms(1) by auto
  then have "call_inv s (PoolCall None ShutDone)" using assms(2) by (auto simp: shutdown_inv_def)
  then have fin: "tp_finished s" "\<not> tp_accepting s"
    using inv(1) by (auto simp: call_inv_def shutdown_inv_def flags_inv_def)
  then obtain c where c: "PoolCall c ShutDone \<in> set (tp_calls s)" "exited_except s c []"
    using inv(1) by (auto simp: shutdown_inv_def flags_inv_def)
  then show ?thesis
    using fin all_exited_idle [OF inv(2,1) reach_workers [OF assms(1)]] by (auto simp: is_accepting_def)
qed

text \<open>C18: \<^verbatim>\<open>shutdown\<close> terminates and does not deadlock, also when tasks call it, when calls
  overlap, and when a worker joins the others: from any reachable state every step except a new
  call uses up a finite budget, and when no such step is left every call has returned, and
  after a shutdown every worker has exited and every accepted task has been run.\<close>

theorem shutdown_terminates:
  assumes "pool_reach s"
  shows "(internal s s' \<longrightarrow> potential s' < potential s) \<and>
    ((\<nexists>s'. internal s s') \<longrightarrow> list_all (call_done \<circ> pc_of) (tp_calls s) \<and> q_items (tp_tasks s) = [] \<and>
       (q_closed (tp_tasks s) \<longrightarrow> list_all (\<lambda>pc. pc = WExit) (tp_workers s) \<and>
          length (tp_outcomes s) = length (tp_accepted s) \<and> tp_completed s = tp_submitted s))"
proof (intro conjI impI)
  show "potential s' < potential s" if "internal s s'"
    using internal_decreases [OF that] reach_shutdown [OF assms] by (simp add: shutdown_inv_def)
  assume stuck: "\<nexists>s'. internal s s'"
  note inv = reach_shutdown [OF assms] and ord = reach_ordered [OF assms]
  show returned: "list_all (call_done \<circ> pc_of) (tp_calls s)" by (rule stuck_calls_done [OF inv stuck])
  then have idle: "\<not> busy s w" for w by (auto simp: busy_def list_all_iff list_ex_iff)
  show items: "q_items (tp_tasks s) = []"
    using stuck_worker [OF reach_workers [OF assms] stuck] idle inv reach_workers [OF assms]
    by (auto simp: shutdown_inv_def flags_inv_def list_ex_length)
  assume closed: "q_closed (tp_tasks s)"
  then have "exited_except s None []"
    using stuck_worker [OF _ stuck] idle by (auto simp: exited_except_def)
  note all = all_exited_idle [OF ord inv reach_workers [OF assms] this]
  show "list_all (\<lambda>pc. pc = WExit) (tp_workers s)" by (rule all)
  show "length (tp_outcomes s) = length (tp_accepted s)" by (rule all)
  have "num is_counting (tp_workers s) = 0" "num is_running (tp_workers s) = 0"
    using all(1) by (auto simp: num_eq_0 list_all_iff list_ex_iff)
  moreover have "is_posting pc \<Longrightarrow> \<not> call_done pc" for pc :: "'a call_pc" by (cases pc) auto
  then have "num (is_posting \<circ> pc_of) (tp_calls s) = 0"
    using returned by (fastforce simp: num_eq_0 list_all_iff list_ex_iff)
  ultimately show "tp_completed s = tp_submitted s"
    using reach_counters [OF assms] all by (simp add: counters_exact_def)
qed

text \<open>No task slips in after a shutdown: once any \<^verbatim>\<open>shutdown\<close> call has returned, whatever
  happens afterwards, the pool never accepts another task and never accepts calls again.\<close>

theorem no_accept_after_shutdown:
  assumes "pool_reach s" and "PoolCall c ShutDone \<in> set (tp_calls s)" and "pool_step\<^sup>*\<^sup>* s s'"
  shows "tp_accepted s' = tp_accepted s \<and> \<not> is_accepting s'"
proof -
  have "call_inv s (PoolCall c ShutDone)" "flags_inv s"
    using reach_shutdown [OF assms(1)] assms(2) by (auto simp: shutdown_inv_def)
  then have "q_closed (tp_tasks s)" "\<not> tp_accepting s" by (auto simp: call_inv_def flags_inv_def)
  then show ?thesis using pool_steps_closed [OF assms(3)] by (simp add: is_accepting_def)
qed

section \<open>Concrete runs\<close>

text \<open>A schedule names the thread that moves next; running it is executable.\<close>

datatype 't action =
    DoWorker bool nat
  | DoPost bool nat
  | DoShutdown nat
  | StartPost "nat option" "'t option"
  | StartShutdown "nat option"

fun act :: "'t action \<Rightarrow> 't pool \<Rightarrow> 't pool option" where
  "act (DoWorker throws w) s = (if w < length (tp_workers s) then worker_step throws w s else None)"
| "act (DoPost alloc i) s = (if i < length (tp_calls s) then post_step alloc i s else None)"
| "act (DoShutdown i) s = (if i < length (tp_calls s) then shutdown_step i s else None)"
| "act (StartPost c task) s =
     (if may_call s c then Some (s\<lparr>tp_calls := tp_calls s @ [PoolCall c (post task)]\<rparr>) else None)"
| "act (StartShutdown c) s =
     (if may_call s c then Some (s\<lparr>tp_calls := tp_calls s @ [PoolCall c shutdown]\<rparr>) else None)"

fun run_schedule :: "'t action list \<Rightarrow> 't pool \<Rightarrow> 't pool option" where
  "run_schedule [] s = Some s"
| "run_schedule (a # as) s = (case act a s of None \<Rightarrow> None | Some s' \<Rightarrow> run_schedule as s')"

lemma act_pool_step: "act a s = Some s' \<Longrightarrow> pool_step s s'"
  by (cases a) (auto split: if_splits intro: pool_step.intros internal.intros)

lemma run_schedule_reach: "run_schedule as s = Some s' \<Longrightarrow> pool_reach s \<Longrightarrow> pool_reach s'"
  by (induction as arbitrary: s) (auto split: option.splits dest: act_pool_step intro: pool_reach.Step)

definition one_worker :: "nat pool" where
  "one_worker = (case thread_pool_new (\<lambda>i. True) 1 of Inr s \<Rightarrow> s | Inl e \<Rightarrow> undefined)"

lemma one_worker_reach: "pool_reach one_worker"
  using pool_reach.Start [of "\<lambda>i. True" 1 one_worker] by (simp add: one_worker_def thread_pool_new_def)

text \<open>Post a task, start it, shut down while it runs, let it throw, drain, return.\<close>

definition drained :: "nat pool" where
  "drained = \<lparr>tp_tasks = \<lparr>q_capacity = 0, q_items = [], q_closed = True\<rparr>, tp_accepting = False,
     tp_submitted = 1, tp_completed = 1, tp_failed = 1, tp_handles = [], tp_in_progress = False,
     tp_finished = True, tp_workers = [WExit],
     tp_calls = [PoolCall None (PostDone (Inr True)), PoolCall None ShutDone],
     tp_accepted = [7], tp_started = [7], tp_outcomes = [True]\<rparr>"

lemma drained_run:
  "run_schedule
     [StartPost None (Some 7), DoPost True 0, DoPost True 0, DoPost True 0, DoWorker False 0,
      StartShutdown None, DoShutdown 1, DoShutdown 1, DoShutdown 1, DoWorker True 0, DoWorker False 0,
      DoWorker False 0, DoWorker False 0, DoShutdown 1, DoShutdown 1, DoShutdown 1] one_worker =
   Some drained"
  by (simp add: one_worker_def drained_def thread_pool_new_def ts_queue_new_def post_def shutdown_def busy_def
      pool_steps queue_ops full_locked_def)

lemma drained_reach: "pool_reach drained"
  by (rule run_schedule_reach [OF drained_run one_worker_reach])

theorem pool_accounting_witness:
  "tp_submitted drained = tp_completed drained \<and> tp_failed drained = 1"
  using pool_accounting [OF drained_reach] by (simp add: drained_def)

theorem stats_plausible_witness:
  "unat (ps_completed (stats drained)) \<le> unat (ps_submitted (stats drained))"
  using stats_plausible [OF drained_reach] by (simp add: drained_def)

theorem shutdown_drains_witness:
  "\<not> is_accepting drained \<and> tp_finished drained"
  using shutdown_drains [OF drained_reach] by (simp add: drained_def)

theorem shutdown_terminates_witness:
  "list_all (call_done \<circ> pc_of) (tp_calls one_worker) \<and> q_items (tp_tasks one_worker) = []"
proof -
  have "\<nexists>s'. internal one_worker s'"
    by (auto elim!: internal.cases simp: one_worker_def thread_pool_new_def ts_queue_new_def
        worker_step_def queue_ops)
  then show ?thesis using shutdown_terminates [OF one_worker_reach] by blast
qed

theorem no_accept_after_shutdown_witness:
  "tp_accepted (drained\<lparr>tp_calls := tp_calls drained @ [PoolCall None (post (Some 3))]\<rparr>) = [7]"
proof -
  let ?s = "drained\<lparr>tp_calls := tp_calls drained @ [PoolCall None (post (Some 3))]\<rparr>"
  have "pool_step\<^sup>*\<^sup>* drained ?s" by (rule r_into_rtranclp, rule pool_step.NewPost) simp
  moreover have "PoolCall None ShutDone \<in> set (tp_calls drained)" by (simp add: drained_def)
  ultimately show ?thesis
    using no_accept_after_shutdown [OF drained_reach] by (simp add: drained_def)
qed

end
