(* ===== verification/Rml_Runtime.thy ===== *)
theory Rml_Runtime
  imports Rml_Topic_Bus Rml_Thread_Pool
begin

text \<open>
  \<^verbatim>\<open>Runtime\<close> (\<^verbatim>\<open>core/runtime.cpp\<close>): the executor and the topic bus under
  one roof, their construction and their ordered shutdown.
\<close>

record 'm runtime =
  rt_executor :: "nat pool"
  rt_bus :: "'m topic_bus"

definition runtime_workers :: "u32 \<Rightarrow> size_t \<Rightarrow> size_t" where
  "runtime_workers hardware_concurrency worker_threads =
     (if worker_threads = 0 then max 1 (ucast hardware_concurrency) else worker_threads)"

definition runtime_new :: "(nat \<Rightarrow> bool) \<Rightarrow> u32 \<Rightarrow> size_t \<Rightarrow> 'm runtime result" where
  "runtime_new spawn hardware_concurrency worker_threads =
     rbind (thread_pool_new spawn (runtime_workers hardware_concurrency worker_threads))
       (\<lambda>ex. rbind (topic_bus_new True) (\<lambda>bus. Inr \<lparr>rt_executor = ex, rt_bus = bus\<rparr>))"

definition create_node :: "string \<Rightarrow> 'm runtime \<Rightarrow> node result" where
  "create_node name rt =
     (if name = [] then Inl (MiddlewareError ''node name must not be empty'')
      else if \<not> bus_is_accepting (rt_bus rt) then Inl (MiddlewareError ''middleware runtime is stopped'')
      else Inr \<lparr>node_name = name, node_bus = True\<rparr>)"

text \<open>Stop the bus, then enter the executor's \<^verbatim>\<open>shutdown\<close> (on a thread outside the pool).\<close>

definition runtime_shutdown :: "'m runtime \<Rightarrow> 'm runtime" where
  "runtime_shutdown rt = rt\<lparr>rt_bus := stop (rt_bus rt),
     rt_executor := (rt_executor rt)\<lparr>tp_calls := tp_calls (rt_executor rt) @ [PoolCall None executor_shutdown]\<rparr>\<rparr>"

definition runtime_is_running :: "'m runtime \<Rightarrow> bool" where
  "runtime_is_running rt = bus_is_accepting (rt_bus rt)"

section \<open>Shutdown of the whole runtime\<close>

lemma internal_reach: "internal\<^sup>*\<^sup>* s s' \<Longrightarrow> pool_reach s \<Longrightarrow> pool_reach s'"
  by (induction rule: rtranclp_induct) (auto intro: pool_reach.Step pool_step.Internal)

lemma internal_settles: "pool_reach s \<Longrightarrow> \<exists>s'. internal\<^sup>*\<^sup>* s s' \<and> (\<nexists>s''. internal s' s'')"
proof (induction "potential s" arbitrary: s rule: less_induct)
  case less
  show ?case
  proof (cases "\<exists>s1. internal s s1")
    case True
    then obtain s1 where s1: "internal s s1" by blast
    have "flags_inv s" using reach_shutdown [OF less.prems] by (simp add: shutdown_inv_def)
    then have "potential s1 < potential s" using internal_decreases s1 by blast
    moreover have "pool_reach s1" using internal_reach less.prems s1 by blast
    ultimately obtain s' where "internal\<^sup>*\<^sup>* s1 s'" "\<nexists>s''. internal s' s''" using less.hyps by blast
    then show ?thesis using s1 by (meson converse_rtranclp_into_rtranclp)
  qed auto
qed

lemma internal_calls_grow:
  assumes "internal s s'" and "i < length (tp_calls s)"
  shows "i < length (tp_calls s') \<and> caller (tp_calls s' ! i) = caller (tp_calls s ! i) \<and>
    (call_done (pc_of (tp_calls s ! i)) \<longrightarrow> tp_calls s' ! i = tp_calls s ! i)"
  using assms(1)
proof cases
  case (Worker w throws)
  then show ?thesis using assms(2) worker_step_calls by metis
next
  case (Post j alloc)
  then show ?thesis
    using assms(2) by (cases "i = j") (auto simp: post_step_def set_call_def
        split: call_pc.splits if_splits option.splits prod.splits sum.splits bool.splits)
next
  case (Shutdown j)
  then show ?thesis
    using assms(2) by (cases "i = j") (auto simp: shutdown_step_def set_call_def split: call_pc.splits if_splits list.splits)
qed

text \<open>A call of \<^verbatim>\<open>shutdown\<close> stays one until it returns.\<close>

fun is_shutdown :: "'t call_pc \<Rightarrow> bool" where
  "is_shutdown (PostCheck t) = False"
| "is_shutdown (PostCount t) = False"
| "is_shutdown (PostPush t) = False"
| "is_shutdown (PostRollback r) = False"
| "is_shutdown (PostDone r) = False"
| "is_shutdown pc = True"

lemma internal_shutdown_call:
  assumes "internal s s'" and "i < length (tp_calls s)" and "is_shutdown (pc_of (tp_calls s ! i))"
  shows "is_shutdown (pc_of (tp_calls s' ! i))"
  using assms(1)
proof cases
  case (Worker w throws)
  then show ?thesis using assms(2,3) worker_step_calls by metis
next
  case (Post j alloc)
  then show ?thesis
    using assms(2,3) by (cases "i = j") (auto simp: post_step_def set_call_def
        split: call_pc.splits if_splits option.splits prod.splits sum.splits bool.splits)
next
  case (Shutdown j)
  then show ?thesis
    using assms(2,3) by (cases "i = j") (auto simp: shutdown_step_def set_call_def split: call_pc.splits if_splits list.splits)
qed

lemma internals_shutdown_call:
  "internal\<^sup>*\<^sup>* s s' \<Longrightarrow> i < length (tp_calls s) \<Longrightarrow> is_shutdown (pc_of (tp_calls s ! i)) \<Longrightarrow>
     i < length (tp_calls s') \<and> is_shutdown (pc_of (tp_calls s' ! i)) \<and>
     caller (tp_calls s' ! i) = caller (tp_calls s ! i)"
  by (induction rule: rtranclp_induct) (auto dest: internal_calls_grow internal_shutdown_call)

section \<open>Properties of the runtime\<close>

text \<open>Construction: zero worker threads means the hardware's number, at least one, so a runtime whose
  threads can be started always exists, runs, and has exactly that many idle workers.\<close>

theorem runtime_starts:
  "\<exists>rt. runtime_new (\<lambda>i. True) hw n = Inr rt \<and> runtime_is_running rt \<and> pool_reach (rt_executor rt) \<and>
     bus_reach (rt_bus rt) \<and>
     tp_workers (rt_executor rt) = replicate (if n = 0 then max 1 (unat hw) else unat n) WPop"
proof -
  let ?w = "runtime_workers hw n"
  have w: "unat ?w = (if n = 0 then max 1 (unat hw) else unat n)"
    by (auto simp: runtime_workers_def max_def word_le_nat_alt)
  then have "unat ?w \<noteq> 0" using unat_eq_0 [of n] by auto
  then have "?w \<noteq> 0" by (metis unsigned_0)
  then obtain ex :: "nat pool" where ex: "thread_pool_new (\<lambda>i. True) ?w = Inr ex" "tp_workers ex = replicate (unat ?w) WPop"
    by (auto simp: thread_pool_new_def list_all_iff)
  obtain bus :: "'a topic_bus" where bus: "topic_bus_new True = Inr bus" "bus_accepting bus"
    by (auto simp: topic_bus_new_def)
  show ?thesis
    using ex bus w pool_reach.Start bus_reach.Start
    by (intro exI [of _ "\<lparr>rt_executor = ex, rt_bus = bus\<rparr>"])
      (auto simp: runtime_new_def runtime_is_running_def bus_is_accepting_def)
qed

text \<open>C26: Shutting the runtime down takes effect and finishes: the bus refuses nodes at once, the
  executor comes to rest after finitely many steps, and then the shutdown call has returned, every
  worker has exited, and every task that was ever accepted has been run.\<close>

theorem runtime_shutdown_completes:
  assumes "pool_reach (rt_executor rt)" and "name \<noteq> []"
  shows "\<not> runtime_is_running (runtime_shutdown rt) \<and>
    create_node name (runtime_shutdown rt) = Inl (MiddlewareError ''middleware runtime is stopped'') \<and>
    (\<exists>ex. internal\<^sup>*\<^sup>* (rt_executor (runtime_shutdown rt)) ex \<and> (\<nexists>ex'. internal ex ex') \<and>
       PoolCall None ShutDone \<in> set (tp_calls ex) \<and> list_all (\<lambda>pc. pc = WExit) (tp_workers ex) \<and>
       length (tp_outcomes ex) = length (tp_accepted ex))"
proof -
  let ?ex0 = "rt_executor (runtime_shutdown rt)" and ?n = "length (tp_calls (rt_executor rt))"
  have reach: "pool_reach ?ex0"
    using pool_reach.Step [OF assms(1) pool_step.NewShutdown [of _ None]]
    by (simp add: runtime_shutdown_def executor_shutdown_def)
  then obtain ex where ex: "internal\<^sup>*\<^sup>* ?ex0 ex" "\<nexists>ex'. internal ex ex'" using internal_settles by blast
  have rex: "pool_reach ex" using internal_reach ex(1) reach by blast
  have call: "?n < length (tp_calls ?ex0)" "tp_calls ?ex0 ! ?n = PoolCall None ShutStore"
    by (simp_all add: runtime_shutdown_def executor_shutdown_def shutdown_def)
  then have n: "?n < length (tp_calls ex)" "is_shutdown (pc_of (tp_calls ex ! ?n))" "caller (tp_calls ex ! ?n) = None"
    using internals_shutdown_call [OF ex(1) call(1)] by auto
  have "call_done (pc_of (tp_calls ex ! ?n))"
    using stuck_calls_done [OF reach_shutdown [OF rex] ex(2)] n(1) by (simp add: list_all_length)
  then have pc: "pc_of (tp_calls ex ! ?n) = ShutDone" using n(2) by (cases "pc_of (tp_calls ex ! ?n)") auto
  then have mem: "PoolCall None ShutDone \<in> set (tp_calls ex)"
    using n(1,3) by (metis nth_mem pool_call.collapse)
  then have closed: "q_closed (tp_tasks ex)"
    using reach_shutdown [OF rex] by (auto simp: shutdown_inv_def call_inv_def)
  have idle: "\<not> busy ex w" for w
    using stuck_calls_done [OF reach_shutdown [OF rex] ex(2)] by (auto simp: busy_def list_all_iff list_ex_iff)
  have "exited_except ex None []"
    using stuck_worker [OF _ ex(2)] idle closed by (auto simp: exited_except_def)
  note all = all_exited_idle [OF reach_ordered [OF rex] reach_shutdown [OF rex] reach_workers [OF rex] this]
  have off: "\<not> runtime_is_running (runtime_shutdown rt)"
    by (simp add: runtime_is_running_def bus_is_accepting_def runtime_shutdown_def stop_def Let_def)
  then show ?thesis
    using ex mem all(1,4) assms(2) by (auto simp: create_node_def runtime_is_running_def)
qed

theorem runtime_shutdown_completes_witness:
  "\<exists>ex. internal\<^sup>*\<^sup>* (rt_executor (runtime_shutdown \<lparr>rt_executor = one_worker, rt_bus = bus0\<rparr>)) ex \<and>
     list_all (\<lambda>pc. pc = WExit) (tp_workers ex)"
  using runtime_shutdown_completes [of "\<lparr>rt_executor = one_worker, rt_bus = bus0\<rparr>" "''n''"] one_worker_reach
  by auto

end
