(* ===== verification/Rml_Bridge.thy ===== *)
theory Rml_Bridge
  imports Rml_Network_Message Rml_Queue Rml_Topic_Bus
begin

text \<open>
  \<^verbatim>\<open>NetworkBridge\<close> (\<^verbatim>\<open>bridge/network_bridge.hpp\<close>,
  \<^verbatim>\<open>bridge/network_bridge.cpp\<close>): exporting local topics as frames, importing frames into
  local topics at most once, and the TCP client with its heartbeats and its reconnection.

  An import handler acts on a world \<open>'w\<close>; for the handlers \<^verbatim>\<open>import_topic\<close> installs
  it is the topic bus. The TCP connection and the clock are a parameter of the client: \<open>link\<close>
  gives its operations on a network state \<open>'n\<close>, and nothing is assumed of them. Durations are
  64-bit counts of milliseconds, written as integers with the overflow guard of the source.
\<close>

section \<open>Options\<close>

record bridge_options =
  bo_publisher_id :: u64
  bo_outbound_queue_depth :: size_t
  bo_max_dedup_entries :: size_t

definition default_bridge_options :: bridge_options where
  "default_bridge_options =
     \<lparr>bo_publisher_id = 0, bo_outbound_queue_depth = 1024, bo_max_dedup_entries = 4096\<rparr>"

record reconnect_options =
  ro_connect_timeout :: int
  ro_io_poll_interval :: int
  ro_send_timeout :: int
  ro_heartbeat_interval :: int
  ro_idle_timeout :: int
  ro_initial_backoff :: int
  ro_maximum_backoff :: int

definition default_reconnect_options :: reconnect_options where
  "default_reconnect_options =
     \<lparr>ro_connect_timeout = 500, ro_io_poll_interval = 25, ro_send_timeout = 250,
      ro_heartbeat_interval = 250, ro_idle_timeout = 1000, ro_initial_backoff = 50,
      ro_maximum_backoff = 1000\<rparr>"

definition validate_reconnect_options :: "reconnect_options \<Rightarrow> unit result" where
  "validate_reconnect_options options =
     (if ro_connect_timeout options \<le> 0 \<or> ro_io_poll_interval options \<le> 0 \<or>
         ro_send_timeout options \<le> 0 \<or> ro_heartbeat_interval options \<le> 0 \<or>
         ro_idle_timeout options \<le> ro_heartbeat_interval options \<or>
         ro_initial_backoff options \<le> 0 \<or>
         ro_maximum_backoff options < ro_initial_backoff options
      then Inl (TransportError (''invalid reconnect timing: intervals must be positive, idle_timeout '' @
        ''must exceed heartbeat_interval, and maximum_backoff must not be '' @
        ''smaller than initial_backoff''))
      else Inr ())"

definition int64_max :: int where
  "int64_max = 2 ^ 63 - 1"

definition doubled_backoff :: "int \<Rightarrow> int \<Rightarrow> int" where
  "doubled_backoff current maximum =
     (if current \<ge> maximum then maximum
      else if current > int64_max div 2 then maximum
      else min maximum (current * 2))"

text \<open>\<open>time_part\<close> and \<open>thread_hash\<close>: the clock reading and the hash of the thread identifier.\<close>

definition default_publisher_id :: "u64 \<Rightarrow> u64 \<Rightarrow> u64" where
  "default_publisher_id time_part thread_hash = time_part XOR (thread_hash + 0x9E3779B97F4A7C15)"

section \<open>State\<close>

datatype transport_mode = Unconfigured | Manual | TcpClientMode | Stopped

record 'w import_route =
  ir_type_id :: u32
  ir_schema_hash :: u64
  ir_handler :: "frame \<Rightarrow> 'w \<Rightarrow> unit result \<times> 'w"

record sequence_state =
  sq_highest :: u64
  sq_latest_send_time_ns :: u64

record bridge_stats =
  bs_exported :: u64
  bs_frames_sent :: u64
  bs_imported :: u64
  bs_outbound_dropped :: u64
  bs_unknown_topic :: u64
  bs_rejected_frames :: u64
  bs_duplicate_frames :: u64
  bs_connect_attempts :: u64
  bs_successful_connections :: u64
  bs_reconnects :: u64
  bs_disconnects :: u64
  bs_heartbeats_sent :: u64
  bs_heartbeats_received :: u64
  bs_transport_errors :: u64
  bs_connected :: bool

definition zero_stats :: bridge_stats where
  "zero_stats = \<lparr>bs_exported = 0, bs_frames_sent = 0, bs_imported = 0, bs_outbound_dropped = 0,
     bs_unknown_topic = 0, bs_rejected_frames = 0, bs_duplicate_frames = 0, bs_connect_attempts = 0,
     bs_successful_connections = 0, bs_reconnects = 0, bs_disconnects = 0, bs_heartbeats_sent = 0,
     bs_heartbeats_received = 0, bs_transport_errors = 0, bs_connected = False\<rparr>"

text \<open>
  The counters and \<^verbatim>\<open>connected\<close> are kept in one record, \<open>br_stats\<close>. A canceller is the
  handle of the export's subscription: calling it is \<^verbatim>\<open>cancel_and_wait\<close> on the handle.
\<close>

record 'w bridge =
  br_publisher_id :: u64
  br_max_dedup_entries :: size_t
  br_next_sequence :: u64
  br_outbound :: "frame ts_queue"
  br_export_cancellers :: "sub_handle list"
  br_export_topics :: "string list"
  br_imports :: "(string \<times> 'w import_route) list"
  br_transport_mode :: transport_mode
  br_highest_sequences :: "(string \<times> sequence_state) list"
  br_stopped :: bool
  br_running :: bool
  br_stats :: bridge_stats

section \<open>Construction and configuration\<close>

definition bridge_new :: "u64 \<Rightarrow> u64 \<Rightarrow> bridge_options \<Rightarrow> 'w bridge result" where
  "bridge_new time_part thread_hash options =
     (if bo_outbound_queue_depth options = 0 \<or> bo_max_dedup_entries options = 0
      then Inl (MiddlewareError ''bridge queue depth and dedup entry limit must be greater than zero'')
      else Inr
        \<lparr>br_publisher_id = (if bo_publisher_id options = 0 then default_publisher_id time_part thread_hash
           else bo_publisher_id options),
         br_max_dedup_entries = bo_max_dedup_entries options, br_next_sequence = 0,
         br_outbound = ts_queue_new (bo_outbound_queue_depth options),
         br_export_cancellers = [], br_export_topics = [], br_imports = [],
         br_transport_mode = Unconfigured, br_highest_sequences = [], br_stopped = False,
         br_running = False, br_stats = zero_stats\<rparr>)"

definition require_configurable :: "'w bridge \<Rightarrow> unit result" where
  "require_configurable br =
     (if br_stopped br then Inl (MiddlewareError ''network bridge is stopped'') else Inr ())"

text \<open>\<open>alloc\<close>: whether storing the canceller succeeds.\<close>

definition add_export :: "bool \<Rightarrow> string \<Rightarrow> sub_handle \<Rightarrow> 'w bridge \<Rightarrow> unit result \<times> 'w bridge" where
  "add_export alloc remote_topic canceller br =
     (if br_stopped br then (Inl (MiddlewareError ''network bridge is stopped''), br)
      else if remote_topic \<in> set (br_export_topics br)
      then (Inl (MiddlewareError (''bridge export topic is already registered: '' @ remote_topic)), br)
      else if \<not> alloc then (Inl BadAlloc, br)
      else (Inr (), br\<lparr>br_export_topics := remote_topic # br_export_topics br,
              br_export_cancellers := br_export_cancellers br @ [canceller]\<rparr>))"

definition add_import ::
  "string \<Rightarrow> u32 \<Rightarrow> u64 \<Rightarrow> (frame \<Rightarrow> 'w \<Rightarrow> unit result \<times> 'w) \<Rightarrow> 'w bridge \<Rightarrow> unit result \<times> 'w bridge" where
  "add_import remote_topic type_id schema_hash handler br =
     (if br_stopped br then (Inl (MiddlewareError ''network bridge is stopped''), br)
      else (case map_of (br_imports br) remote_topic of
          None \<Rightarrow> (Inr (), br\<lparr>br_imports := (remote_topic,
            \<lparr>ir_type_id = type_id, ir_schema_hash = schema_hash, ir_handler = handler\<rparr>) # br_imports br\<rparr>)
        | Some r \<Rightarrow> (Inl (MiddlewareError (''bridge import topic is already registered: '' @ remote_topic)), br)))"

text \<open>\<open>spawn\<close>: whether the platform can start the worker thread.\<close>

definition enter_mode :: "bool \<Rightarrow> transport_mode \<Rightarrow> 'w bridge \<Rightarrow> unit result \<times> 'w bridge" where
  "enter_mode spawn mode br =
     (case require_configurable br of
        Inl e \<Rightarrow> (Inl e, br)
      | Inr _ \<Rightarrow>
          if br_transport_mode br \<noteq> Unconfigured
          then (Inl (MiddlewareError ''bridge transport mode is already configured''), br)
          else if \<not> spawn then (Inl SystemError, br\<lparr>br_running := False, br_transport_mode := Unconfigured\<rparr>)
          else (Inr (), br\<lparr>br_transport_mode := mode, br_running := True\<rparr>))"

definition set_frame_sender :: "bool \<Rightarrow> bool \<Rightarrow> 'w bridge \<Rightarrow> unit result \<times> 'w bridge" where
  "set_frame_sender spawn has_sender br =
     (case require_configurable br of
        Inl e \<Rightarrow> (Inl e, br)
      | Inr _ \<Rightarrow>
          if \<not> has_sender then (Inl (MiddlewareError ''bridge frame sender must not be empty''), br)
          else enter_mode spawn Manual br)"

definition start_tcp_client :: "bool \<Rightarrow> string \<Rightarrow> reconnect_options \<Rightarrow> 'w bridge \<Rightarrow> unit result \<times> 'w bridge" where
  "start_tcp_client spawn host options br =
     (case require_configurable br of
        Inl e \<Rightarrow> (Inl e, br)
      | Inr _ \<Rightarrow>
          if host = [] then (Inl (TransportError ''bridge TCP host must not be empty''), br)
          else (case validate_reconnect_options options of
              Inl e \<Rightarrow> (Inl e, br)
            | Inr _ \<Rightarrow> enter_mode spawn TcpClientMode br))"

section \<open>Exporting\<close>

definition count :: "((u64 \<Rightarrow> u64) \<Rightarrow> bridge_stats \<Rightarrow> bridge_stats) \<Rightarrow> 'w bridge \<Rightarrow> 'w bridge" where
  "count field br = br\<lparr>br_stats := field (\<lambda>n. n + 1) (br_stats br)\<rparr>"

definition emit_frame :: "bool \<Rightarrow> frame \<Rightarrow> 'w bridge \<Rightarrow> 'w bridge" where
  "emit_frame alloc f br =
     (if br_stopped br then count bs_outbound_dropped_update br
      else (case try_push alloc f (br_outbound br) of
          Inl e \<Rightarrow> count bs_outbound_dropped_update br
        | Inr (True, q) \<Rightarrow> count bs_exported_update (br\<lparr>br_outbound := q\<rparr>)
        | Inr (False, q) \<Rightarrow> count bs_outbound_dropped_update (br\<lparr>br_outbound := q\<rparr>)))"

text \<open>The callback of an exported subscription; a frame that cannot be made is an exception of the
  callback.\<close>

definition export_callback ::
  "bool \<Rightarrow> u64 \<Rightarrow> 'a message_traits \<Rightarrow> string \<Rightarrow> 'a \<Rightarrow> 'w bridge \<Rightarrow> unit result \<times> 'w bridge" where
  "export_callback alloc now tr network_topic message br =
     (let br1 = br\<lparr>br_next_sequence := br_next_sequence br + 1\<rparr>
      in (case make_frame tr network_topic message (br_next_sequence br) (br_publisher_id br) now of
            Inl e \<Rightarrow> (Inl e, br1)
          | Inr f \<Rightarrow> (Inr (), emit_frame alloc f br1)))"

definition export_topic ::
  "bool \<Rightarrow> 'a message_traits \<Rightarrow> type_index \<Rightarrow> node \<Rightarrow> string \<Rightarrow> string \<Rightarrow> subscription_options \<Rightarrow>
   'w bridge \<Rightarrow> 'm topic_bus \<Rightarrow> unit result \<times> 'w bridge \<times> 'm topic_bus" where
  "export_topic alloc tr local_type n local_topic remote_topic options br s =
     (case require_configurable br of
        Inl e \<Rightarrow> (Inl e, br, s)
      | Inr _ \<Rightarrow>
          let network_topic = (if remote_topic = [] then local_topic else remote_topic)
          in if local_topic = [] \<or> network_topic = []
             then (Inl (MiddlewareError ''bridge topic names must not be empty''), br, s)
             else (case create_subscription tr local_type n local_topic (options\<lparr>receive_remote := False\<rparr>) s of
                 (Inl e, s1) \<Rightarrow> (Inl e, br, s1)
               | (Inr handle, s1) \<Rightarrow> (case add_export alloc network_topic handle br of
                     (Inr _, br1) \<Rightarrow> (Inr (), br1, s1)
                   | (Inl e, br1) \<Rightarrow> (Inl e, br1, snd (subscription_cancel handle s1)))))"

text \<open>One round of \<^verbatim>\<open>manual_sender_loop\<close>; \<open>expired\<close>: the 25 ms are over. \<open>None\<close>: the call
  still waits.\<close>

definition manual_sender_round ::
  "bool \<Rightarrow> (frame \<Rightarrow> 'n \<Rightarrow> unit result \<times> 'n) \<Rightarrow> 'w bridge \<Rightarrow> 'n \<Rightarrow> ('w bridge \<times> 'n) option" where
  "manual_sender_round expired sender br n =
     (case wait_pop_for expired (br_outbound br) of
        None \<Rightarrow> None
      | Some (None, q) \<Rightarrow> Some (br\<lparr>br_outbound := q\<rparr>, n)
      | Some (Some f, q) \<Rightarrow> (case sender f n of
            (Inr _, n1) \<Rightarrow> Some (count bs_frames_sent_update (br\<lparr>br_outbound := q\<rparr>), n1)
          | (Inl e, n1) \<Rightarrow> Some (count bs_transport_errors_update (br\<lparr>br_outbound := q\<rparr>), n1)))"

text \<open>The loop, for at most \<open>fuel\<close> rounds; \<open>running\<close> is the flag another thread may clear, and the 25 ms of a
  round are given as over, so a round never waits for ever.\<close>

fun manual_sender_loop ::
  "nat \<Rightarrow> ('n \<Rightarrow> bool) \<Rightarrow> (frame \<Rightarrow> 'n \<Rightarrow> unit result \<times> 'n) \<Rightarrow> 'w bridge \<Rightarrow> 'n \<Rightarrow> ('w bridge \<times> 'n) option" where
  "manual_sender_loop 0 running sender br n = (if running n \<and> \<not> br_stopped br then None else Some (br, n))"
| "manual_sender_loop (Suc fuel) running sender br n =
     (if running n \<and> \<not> br_stopped br
      then (case manual_sender_round True sender br n of
          None \<Rightarrow> None
        | Some (br1, n1) \<Rightarrow> manual_sender_loop fuel running sender br1 n1)
      else Some (br, n))"

section \<open>Importing\<close>

definition duplicate_key :: "frame \<Rightarrow> string" where
  "duplicate_key f = fr_topic f @ [CHR 0x0A] @ to_string (unat (fr_publisher_id f))"

text \<open>
  The critical section under \<^verbatim>\<open>duplicate_mutex_\<close>: \<open>None\<close> for a duplicate, otherwise the
  table with the frame's sequence number reserved.
\<close>

definition reserve :: "size_t \<Rightarrow> frame \<Rightarrow> (string \<times> sequence_state) list \<Rightarrow> (string \<times> sequence_state) list option" where
  "reserve max_entries f table =
     (let key = duplicate_key f;
          st = \<lparr>sq_highest = fr_sequence f, sq_latest_send_time_ns = fr_send_time_ns f\<rparr>
      in (case map_of table key of
            None \<Rightarrow>
              let table1 = (if length table \<ge> unat max_entries then [] else table)
              in Some (AList.update key st table1)
          | Some found \<Rightarrow>
              if fr_sequence f \<le> sq_highest found
              then (let new_epoch = (fr_sequence f = 0 \<and> fr_send_time_ns f > sq_latest_send_time_ns found)
                    in if \<not> new_epoch then None else Some (AList.update key st table))
              else Some (AList.update key st table)))"

definition bridge_receive :: "frame \<Rightarrow> 'w bridge \<Rightarrow> 'w \<Rightarrow> bool \<times> 'w bridge \<times> 'w" where
  "bridge_receive f br w =
     (if br_stopped br then (False, br, w)
      else if has_heartbeat_flag f
      then (if \<not> is_heartbeat_frame f then (False, count bs_rejected_frames_update br, w)
            else (True, count bs_heartbeats_received_update br, w))
      else if fr_flags f \<noteq> 0 then (False, count bs_rejected_frames_update br, w)
      else (case map_of (br_imports br) (fr_topic f) of
          None \<Rightarrow> (False, count bs_unknown_topic_update br, w)
        | Some route \<Rightarrow>
            if ir_type_id route \<noteq> fr_type_id f \<or> ir_schema_hash route \<noteq> fr_schema_hash f
            then (False, count bs_rejected_frames_update br, w)
            else (case reserve (br_max_dedup_entries br) f (br_highest_sequences br) of
                None \<Rightarrow> (False, count bs_duplicate_frames_update br, w)
              | Some table \<Rightarrow>
                  let br1 = br\<lparr>br_highest_sequences := table\<rparr>
                  in (case ir_handler route f w of
                        (Inl e, w1) \<Rightarrow> (False, count bs_rejected_frames_update br1, w1)
                      | (Inr _, w1) \<Rightarrow> (True, count bs_imported_update br1, w1)))))"

text \<open>The handler of \<^verbatim>\<open>import_topic\<close>: decode and publish as remote. \<open>inject\<close> is the
  conversion of the message to the bus's erased message type.\<close>

definition import_handler ::
  "(nat \<Rightarrow> bool result) \<Rightarrow> ('a \<Rightarrow> 'm) \<Rightarrow> 'a message_traits \<Rightarrow> type_index \<Rightarrow> publisher \<Rightarrow> string \<Rightarrow>
   frame \<Rightarrow> 'm topic_bus \<Rightarrow> unit result \<times> 'm topic_bus" where
  "import_handler posts inject tr local_type p remote_topic f s =
     (case deserialize_frame tr f remote_topic of
        Inl e \<Rightarrow> (Inl e, s)
      | Inr message \<Rightarrow> (case publish_remote posts tr local_type p (inject message) s of
            (Inl e, s1) \<Rightarrow> (Inl e, s1)
          | (Inr res, s1) \<Rightarrow> (Inr (), s1)))"

definition import_topic ::
  "(nat \<Rightarrow> bool result) \<Rightarrow> ('a \<Rightarrow> 'm) \<Rightarrow> 'a message_traits \<Rightarrow> type_index \<Rightarrow> node \<Rightarrow> string \<Rightarrow> string \<Rightarrow>
   'm topic_bus bridge \<Rightarrow> 'm topic_bus \<Rightarrow> unit result \<times> 'm topic_bus bridge \<times> 'm topic_bus" where
  "import_topic posts inject tr local_type n remote_topic local_topic br s =
     (case require_configurable br of
        Inl e \<Rightarrow> (Inl e, br, s)
      | Inr _ \<Rightarrow>
          let destination = (if local_topic = [] then remote_topic else local_topic)
          in if remote_topic = [] \<or> destination = []
             then (Inl (MiddlewareError ''bridge topic names must not be empty''), br, s)
             else (case create_publisher tr local_type n destination s of
                 (Inl e, s1) \<Rightarrow> (Inl e, br, s1)
               | (Inr p, s1) \<Rightarrow>
                   (case add_import remote_topic (mt_type_id tr) (mt_schema_hash tr)
                      (import_handler posts inject tr local_type p remote_topic) br of
                    (r, br1) \<Rightarrow> (r, br1, s1))))"

text \<open>The frames that pass the duplicate check, for a sequence of frames in the order in which they
  get the mutex.\<close>

fun run_reserve ::
  "size_t \<Rightarrow> frame list \<Rightarrow> (string \<times> sequence_state) list \<Rightarrow> frame list \<times> (string \<times> sequence_state) list" where
  "run_reserve max_entries [] table = ([], table)"
| "run_reserve max_entries (f # fs) table = (case reserve max_entries f table of
       None \<Rightarrow> run_reserve max_entries fs table
     | Some table1 \<Rightarrow> (case run_reserve max_entries fs table1 of (fs', table2) \<Rightarrow> (f # fs', table2)))"

section \<open>The TCP client\<close>

text \<open>
  What the client sees of the platform: connecting (with the send timeout set), sending and receiving a
  frame, interrupting and closing the connection, the monotonic clock in nanoseconds, and the two flags another thread may clear.
\<close>

record 'n link =
  lk_connect :: "'n \<Rightarrow> unit result \<times> 'n"
  lk_send :: "frame \<Rightarrow> 'n \<Rightarrow> unit result \<times> 'n"
  lk_receive :: "'n \<Rightarrow> frame option result \<times> 'n"
  lk_close :: "'n \<Rightarrow> 'n"
  lk_now :: "'n \<Rightarrow> int"
  lk_running :: "'n \<Rightarrow> bool"

record client_session =
  cs_last_receive :: int
  cs_next_heartbeat :: int
  cs_heartbeat_sequence :: u64
  cs_healthy :: bool
  cs_backoff :: int

definition ms :: "int \<Rightarrow> int" where
  "ms x = x * 1000000"

text \<open>The batch of at most \<open>k\<close> frames from the outbound queue; a frame whose sending fails is gone.\<close>

fun send_batch :: "'n link \<Rightarrow> nat \<Rightarrow> 'w bridge \<Rightarrow> 'n \<Rightarrow> unit result \<times> 'w bridge \<times> 'n" where
  "send_batch lk 0 br n = (Inr (), br, n)"
| "send_batch lk (Suc k) br n = (case try_pop (br_outbound br) of
       (None, q) \<Rightarrow> (Inr (), br, n)
     | (Some f, q) \<Rightarrow> (case lk_send lk f n of
           (Inl e, n1) \<Rightarrow> (Inl e, br\<lparr>br_outbound := q\<rparr>, n1)
         | (Inr _, n1) \<Rightarrow> send_batch lk k (count bs_frames_sent_update (br\<lparr>br_outbound := q\<rparr>)) n1))"

text \<open>What the client does with one incoming frame.\<close>

definition client_incoming :: "frame \<Rightarrow> 'w bridge \<Rightarrow> 'w \<Rightarrow> unit result \<times> 'w bridge \<times> 'w" where
  "client_incoming f br w =
     (if has_heartbeat_flag f
      then (if \<not> is_heartbeat_frame f
            then (Inl (TransportError ''bridge received a malformed heartbeat''), br, w)
            else (Inr (), count bs_heartbeats_received_update br, w))
      else if fr_flags f \<noteq> 0
      then (Inl (TransportError ''bridge received unsupported frame flags''), br, w)
      else (case bridge_receive f br w of (_, br1, w1) \<Rightarrow> (Inr (), br1, w1)))"

text \<open>The end of a round: the heartbeat that is due, then the check that the peer is alive.\<close>

definition client_keepalive ::
  "'n link \<Rightarrow> reconnect_options \<Rightarrow> int \<Rightarrow> client_session \<Rightarrow> 'w bridge \<Rightarrow> 'n \<Rightarrow>
   unit result \<times> client_session \<times> 'w bridge \<times> 'n" where
  "client_keepalive lk options now cs br n =
     (let (r, cs1, br1, n1) =
        (if now \<ge> cs_next_heartbeat cs
         then (case lk_send lk (make_heartbeat_frame (br_publisher_id br) (cs_heartbeat_sequence cs)
                   (of_int (lk_now lk n))) n of
             (Inl e, n1) \<Rightarrow> (Inl e, cs\<lparr>cs_heartbeat_sequence := cs_heartbeat_sequence cs + 1\<rparr>, br, n1)
           | (Inr _, n1) \<Rightarrow> (Inr (), cs\<lparr>cs_heartbeat_sequence := cs_heartbeat_sequence cs + 1,
               cs_next_heartbeat := now + ms (ro_heartbeat_interval options)\<rparr>,
               count bs_heartbeats_sent_update br, n1))
         else (Inr (), cs, br, n))
      in (case r of
            Inl e \<Rightarrow> (Inl e, cs1, br1, n1)
          | Inr _ \<Rightarrow>
              if now - cs_last_receive cs1 \<ge> ms (ro_idle_timeout options)
              then (Inl (TransportError ''bridge TCP peer heartbeat timed out''), cs1, br1, n1)
              else (Inr (), cs1, br1, n1)))"

definition client_round ::
  "'n link \<Rightarrow> reconnect_options \<Rightarrow> client_session \<Rightarrow> 'w bridge \<Rightarrow> 'n \<Rightarrow> 'w \<Rightarrow>
   unit result \<times> client_session \<times> 'w bridge \<times> 'n \<times> 'w" where
  "client_round lk options cs br n w =
     (case send_batch lk 64 br n of
        (Inl e, br1, n1) \<Rightarrow> (Inl e, cs, br1, n1, w)
      | (Inr _, br1, n1) \<Rightarrow> (case lk_receive lk n1 of
            (Inl e, n2) \<Rightarrow> (Inl e, cs, br1, n2, w)
          | (Inr incoming, n2) \<Rightarrow>
              let now = lk_now lk n2
              in (case incoming of
                    None \<Rightarrow> (case client_keepalive lk options now cs br1 n2 of
                        (r, cs1, br2, n3) \<Rightarrow> (r, cs1, br2, n3, w))
                  | Some f \<Rightarrow> (case client_incoming f br1 w of
                        (Inl e, br2, w1) \<Rightarrow> (Inl e, cs, br2, n2, w1)
                      | (Inr _, br2, w1) \<Rightarrow>
                          let cs1 = cs\<lparr>cs_last_receive := now, cs_healthy := True,
                                cs_backoff := (if \<not> cs_healthy cs then ro_initial_backoff options
                                  else cs_backoff cs)\<rparr>
                          in (case client_keepalive lk options now cs1 br2 n2 of
                                (r, cs2, br3, n3) \<Rightarrow> (r, cs2, br3, n3, w1))))))"

text \<open>The inner loop, for at most \<open>fuel\<close> rounds (\<open>None\<close> when they do not suffice).\<close>

fun client_rounds ::
  "nat \<Rightarrow> 'n link \<Rightarrow> reconnect_options \<Rightarrow> client_session \<Rightarrow> 'w bridge \<Rightarrow> 'n \<Rightarrow> 'w \<Rightarrow>
   (unit result \<times> client_session \<times> 'w bridge \<times> 'n \<times> 'w) option" where
  "client_rounds 0 lk options cs br n w = (if lk_running lk n then None else Some (Inr (), cs, br, n, w))"
| "client_rounds (Suc fuel) lk options cs br n w =
     (if \<not> lk_running lk n then Some (Inr (), cs, br, n, w)
      else (case client_round lk options cs br n w of
          (Inl e, cs1, br1, n1, w1) \<Rightarrow> Some (Inl e, cs1, br1, n1, w1)
        | (Inr _, cs1, br1, n1, w1) \<Rightarrow> client_rounds fuel lk options cs1 br1 n1 w1))"

text \<open>After an attempt: the error is counted while the client is meant to run, and the connection,
  if there was one, is no longer reported; \<open>lk_close\<close> closes it.\<close>

definition client_cleanup :: "'n link \<Rightarrow> unit result \<Rightarrow> 'w bridge \<Rightarrow> 'n \<Rightarrow> 'w bridge" where
  "client_cleanup lk r br n =
     (let br1 = (if \<not> is_ok r \<and> lk_running lk n then count bs_transport_errors_update br else br)
      in if bs_connected (br_stats br1)
         then count bs_disconnects_update (br1\<lparr>br_stats := (br_stats br1)\<lparr>bs_connected := False\<rparr>\<rparr>)
         else br1)"

text \<open>One attempt to connect and the session that follows; the result has the backoff to use next and
  whether a connection was ever made.\<close>

definition client_attempt ::
  "nat \<Rightarrow> 'n link \<Rightarrow> reconnect_options \<Rightarrow> int \<Rightarrow> bool \<Rightarrow> 'w bridge \<Rightarrow> 'n \<Rightarrow> 'w \<Rightarrow>
   (int \<times> bool \<times> 'w bridge \<times> 'n \<times> 'w) option" where
  "client_attempt fuel lk options backoff connected_before br n w =
     (let br0 = count bs_connect_attempts_update br
      in (case lk_connect lk n of
            (Inl e, n1) \<Rightarrow> Some (backoff, connected_before, client_cleanup lk (Inl e) br0 n1, n1, w)
          | (Inr _, n1) \<Rightarrow>
              let br1 = count bs_successful_connections_update
                    (br0\<lparr>br_stats := (br_stats br0)\<lparr>bs_connected := True\<rparr>\<rparr>);
                  br2 = (if connected_before then count bs_reconnects_update br1 else br1);
                  t = lk_now lk n1;
                  cs = \<lparr>cs_last_receive = t, cs_next_heartbeat = t + ms (ro_heartbeat_interval options),
                    cs_heartbeat_sequence = 0, cs_healthy = False, cs_backoff = backoff\<rparr>
              in (case client_rounds fuel lk options cs br2 n1 w of
                    None \<Rightarrow> None
                  | Some (r, cs1, br3, n2, w1) \<Rightarrow>
                      Some (cs_backoff cs1, True, client_cleanup lk r br3 n2, lk_close lk n2, w1))))"

text \<open>The outer loop for at most \<open>fuel\<close> attempts; \<open>wait\<close> is the interruptible backoff wait.\<close>

fun client_loop ::
  "nat \<Rightarrow> nat \<Rightarrow> 'n link \<Rightarrow> (int \<Rightarrow> 'n \<Rightarrow> 'n) \<Rightarrow> reconnect_options \<Rightarrow> int \<Rightarrow> bool \<Rightarrow> 'w bridge \<Rightarrow> 'n \<Rightarrow> 'w \<Rightarrow>
   ('w bridge \<times> 'n \<times> 'w) option" where
  "client_loop 0 rounds lk wait options backoff before br n w =
     (if lk_running lk n then None
      else Some (br\<lparr>br_stats := (br_stats br)\<lparr>bs_connected := False\<rparr>\<rparr>, n, w))"
| "client_loop (Suc fuel) rounds lk wait options backoff before br n w =
     (if \<not> lk_running lk n then Some (br\<lparr>br_stats := (br_stats br)\<lparr>bs_connected := False\<rparr>\<rparr>, n, w)
      else (case client_attempt rounds lk options backoff before br n w of
          None \<Rightarrow> None
        | Some (backoff1, before1, br1, n1, w1) \<Rightarrow>
            if lk_running lk n1
            then client_loop fuel rounds lk wait options (doubled_backoff backoff1 (ro_maximum_backoff options))
              before1 br1 (wait backoff1 n1) w1
            else client_loop fuel rounds lk wait options backoff1 before1 br1 n1 w1))"

section \<open>Stopping\<close>

text \<open>The cancellers are called in order and their exceptions swallowed; \<open>None\<close> while one of them has
  to wait for a callback on another thread.\<close>

fun run_cancellers :: "nat \<Rightarrow> sub_handle list \<Rightarrow> 'm topic_bus \<Rightarrow> 'm topic_bus option" where
  "run_cancellers tid [] s = Some s"
| "run_cancellers tid (sh # shs) s = (case subscription_cancel_and_wait tid sh s of
       None \<Rightarrow> None
     | Some (r, sh', s1) \<Rightarrow> run_cancellers tid shs s1)"

definition bridge_stop ::
  "nat \<Rightarrow> 'w bridge \<Rightarrow> 'm topic_bus \<Rightarrow> ('w bridge \<times> 'm topic_bus) option" where
  "bridge_stop tid br s =
     (if br_stopped br then Some (br, s)
      else
        let br1 = br\<lparr>br_stopped := True, br_export_cancellers := [], br_export_topics := [],
              br_transport_mode := Stopped\<rparr>
        in (case run_cancellers tid (br_export_cancellers br) s of
              None \<Rightarrow> None
            | Some s1 \<Rightarrow> Some (br1\<lparr>br_running := False, br_outbound := snd (queue_close (br_outbound br1))\<rparr>, s1)))"

definition bridge_is_running :: "'w bridge \<Rightarrow> bool" where
  "bridge_is_running br \<longleftrightarrow> \<not> br_stopped br"

definition bridge_is_connected :: "'w bridge \<Rightarrow> bool" where
  "bridge_is_connected br = bs_connected (br_stats br)"

definition bridge_stats_snapshot :: "'w bridge \<Rightarrow> bridge_stats" where
  "bridge_stats_snapshot br = br_stats br"

section \<open>Deduplication\<close>

lemma split_last_newline:
  assumes "xs @ c # ys = xs' @ c # ys'" and "c \<notin> set ys" and "c \<notin> set ys'"
  shows "xs = xs' \<and> ys = ys'"
proof -
  have "takeWhile (\<lambda>x. x \<noteq> c) (rev ys @ c # rev xs) = takeWhile (\<lambda>x. x \<noteq> c) (rev ys' @ c # rev xs')"
    using arg_cong [OF assms(1), of rev] by simp
  moreover have "takeWhile (\<lambda>x. x \<noteq> c) (rev zs @ c # ws) = rev zs" if "c \<notin> set zs" for zs ws
    using that by (simp add: takeWhile_append takeWhile_eq_all_conv)
  ultimately have "rev ys = rev ys'" using assms(2,3) by simp
  then show ?thesis using assms(1) by simp
qed

text \<open>The key of the table identifies topic and publisher, whatever characters the topic has.\<close>

lemma duplicate_key_iff:
  "duplicate_key f = duplicate_key g \<longleftrightarrow> fr_topic f = fr_topic g \<and> fr_publisher_id f = fr_publisher_id g"
proof
  assume "duplicate_key f = duplicate_key g"
  then have "fr_topic f @ CHR 0x0A # to_string (unat (fr_publisher_id f)) =
      fr_topic g @ CHR 0x0A # to_string (unat (fr_publisher_id g))"
    by (simp add: duplicate_key_def)
  then have "fr_topic f = fr_topic g \<and> to_string (unat (fr_publisher_id f)) = to_string (unat (fr_publisher_id g))"
    by (rule split_last_newline [OF _ to_string_no_newline to_string_no_newline])
  then show "fr_topic f = fr_topic g \<and> fr_publisher_id f = fr_publisher_id g" by (simp add: word_unat_eq_iff)
qed (simp add: duplicate_key_def)

text \<open>All frames belong to one life of their publisher: number zero is its oldest frame.\<close>

definition single_epoch :: "frame set \<Rightarrow> bool" where
  "single_epoch F \<longleftrightarrow> (\<forall>f \<in> F. \<forall>g \<in> F. duplicate_key f = duplicate_key g \<longrightarrow> fr_sequence g = 0 \<longrightarrow>
     fr_send_time_ns g \<le> fr_send_time_ns f)"

definition table_from :: "frame set \<Rightarrow> (string \<times> sequence_state) list \<Rightarrow> bool" where
  "table_from F table \<longleftrightarrow> distinct (map fst table) \<and>
     (\<forall>k st. map_of table k = Some st \<longrightarrow>
        (\<exists>f \<in> F. duplicate_key f = k \<and> fr_send_time_ns f = sq_latest_send_time_ns st))"

lemma table_not_full:
  assumes "table_from F table" and "finite F" and "f \<in> F" and "map_of table (duplicate_key f) = None"
  shows "length table < card (duplicate_key ` F)"
proof -
  have "set (map fst table) \<subseteq> duplicate_key ` F"
  proof
    fix k
    assume "k \<in> set (map fst table)"
    then obtain st where "map_of table k = Some st"
      by (cases "map_of table k") (auto simp: map_of_eq_None_iff)
    then show "k \<in> duplicate_key ` F" using assms(1) unfolding table_from_def by blast
  qed
  moreover have "duplicate_key f \<notin> set (map fst table)" using assms(4) by (simp add: map_of_eq_None_iff)
  ultimately have "set (map fst table) \<subset> duplicate_key ` F" using assms(3) by blast
  then have "card (set (map fst table)) < card (duplicate_key ` F)" using assms(2) by (intro psubset_card_mono) auto
  moreover have "card (set (map fst table)) = length table"
    using assms(1) by (metis distinct_card length_map table_from_def)
  ultimately show ?thesis by simp
qed

lemma reserve_cases:
  assumes "table_from F table" and "finite F" and "f \<in> F" and "single_epoch F"
    and "card (duplicate_key ` F) \<le> unat max_entries" and "reserve max_entries f table = Some table1"
  shows "table_from F table1"
    and "map_of table1 = (map_of table)(duplicate_key f \<mapsto>
      \<lparr>sq_highest = fr_sequence f, sq_latest_send_time_ns = fr_send_time_ns f\<rparr>)"
    and "map_of table (duplicate_key f) = Some st \<Longrightarrow> sq_highest st < fr_sequence f"
proof -
  let ?st = "\<lparr>sq_highest = fr_sequence f, sq_latest_send_time_ns = fr_send_time_ns f\<rparr>"
  have old: "\<not> fr_send_time_ns f > sq_latest_send_time_ns st"
    if "map_of table (duplicate_key f) = Some st" "fr_sequence f = 0" for st
    using that assms(1,3,4) unfolding table_from_def single_epoch_def by (metis not_less)
  have upd: "table1 = AList.update (duplicate_key f) ?st table"
    using assms(6) old table_not_full [OF assms(1-3)] assms(5)
    by (auto simp: reserve_def Let_def split: option.splits if_splits)
  show m: "map_of table1 = (map_of table)(duplicate_key f \<mapsto> ?st)" by (simp add: upd AList.update_conv')
  show "table_from F table1"
    unfolding table_from_def m
    using assms(1,3) by (auto simp: upd table_from_def AList.distinct_update)
  show "sq_highest st < fr_sequence f" if "map_of table (duplicate_key f) = Some st"
    using assms(6) old [OF that] that by (auto simp: reserve_def Let_def split: if_splits)
qed

lemma run_reserve_increasing:
  assumes "run_reserve max_entries fs table = (acc, table')" and "table_from F table" and "set fs \<subseteq> F"
    and "finite F" and "single_epoch F" and "card (duplicate_key ` F) \<le> unat max_entries"
  shows "sorted_wrt (\<lambda>f g. duplicate_key f = duplicate_key g \<longrightarrow> fr_sequence f < fr_sequence g) acc \<and>
    (\<forall>g \<in> set acc. \<forall>st. map_of table (duplicate_key g) = Some st \<longrightarrow> sq_highest st < fr_sequence g)"
  using assms(1-3)
proof (induction fs arbitrary: table acc)
  case Nil
  then show ?case by simp
next
  case (Cons f fs)
  show ?case
  proof (cases "reserve max_entries f table")
    case None
    then show ?thesis using Cons by simp
  next
    case (Some table1)
    then obtain acc' where acc: "acc = f # acc'" and run: "run_reserve max_entries fs table1 = (acc', table')"
      using Cons.prems(1) by (auto split: prod.splits)
    have f: "f \<in> F" using Cons.prems(3) by simp
    note res = reserve_cases [OF Cons.prems(2) assms(4) f assms(5,6) Some]
    have IH: "sorted_wrt (\<lambda>f g. duplicate_key f = duplicate_key g \<longrightarrow> fr_sequence f < fr_sequence g) acc'"
      "\<forall>g \<in> set acc'. \<forall>st. map_of table1 (duplicate_key g) = Some st \<longrightarrow> sq_highest st < fr_sequence g"
      using Cons.IH [OF run res(1)] Cons.prems(3) by auto
    have later: "fr_sequence f < fr_sequence g" if "g \<in> set acc'" "duplicate_key f = duplicate_key g" for g
      using IH(2) that res(2) by fastforce
    have "sq_highest st < fr_sequence g"
      if "g \<in> set acc'" "map_of table (duplicate_key g) = Some st" for g st
    proof (cases "duplicate_key f = duplicate_key g")
      case True
      then have "map_of table (duplicate_key f) = Some st" using that(2) by simp
      then show ?thesis using res(3) later [OF that(1) True] by fastforce
    next
      case False
      then show ?thesis using IH(2) that res(2) by auto
    qed
    then show ?thesis using acc IH(1) later res(3) by auto
  qed
qed

text \<open>Frames of different pairs fill the table as long as there is room.\<close>

lemma run_reserve_append:
  "fst (run_reserve k (fs @ gs) table) = fst (run_reserve k fs table) @ fst (run_reserve k gs (snd (run_reserve k fs table)))"
  by (induction fs arbitrary: table) (simp_all add: case_prod_beta split: option.split)

lemma run_reserve_fill:
  assumes "length table + length fs \<le> unat k" and "distinct (map fst table @ map duplicate_key fs)"
  shows "\<exists>table'. run_reserve k fs table = (fs, table') \<and> map fst table' = map fst table @ map duplicate_key fs \<and>
    (\<forall>key st. map_of table key = Some st \<longrightarrow> map_of table' key = Some st) \<and>
    (\<forall>f \<in> set fs. map_of table' (duplicate_key f) =
       Some \<lparr>sq_highest = fr_sequence f, sq_latest_send_time_ns = fr_send_time_ns f\<rparr>)"
  using assms
proof (induction fs arbitrary: table)
  case (Cons f fs)
  let ?st = "\<lparr>sq_highest = fr_sequence f, sq_latest_send_time_ns = fr_send_time_ns f\<rparr>"
  let ?table = "AList.update (duplicate_key f) ?st table"
  have new: "duplicate_key f \<notin> fst ` set table" using Cons.prems(2) by simp
  then have keys: "map fst ?table = map fst table @ [duplicate_key f]" by (simp add: AList.update_keys)
  have "reserve k f table = Some ?table"
    using new Cons.prems(1) by (simp add: reserve_def Let_def map_of_eq_None_iff [THEN iffD2])
  moreover have len: "length ?table = Suc (length table)" using arg_cong [OF keys, of length] by simp
  have "length ?table + length fs \<le> unat k" using Cons.prems(1) len by simp
  moreover have "distinct (map fst ?table @ map duplicate_key fs)" using Cons.prems(2) keys by simp
  ultimately obtain table' where table': "run_reserve k (f # fs) table = (f # fs, table')"
    "map fst table' = map fst ?table @ map duplicate_key fs"
    "\<forall>key st. map_of ?table key = Some st \<longrightarrow> map_of table' key = Some st"
    "\<forall>f \<in> set fs. map_of table' (duplicate_key f) =
       Some \<lparr>sq_highest = fr_sequence f, sq_latest_send_time_ns = fr_send_time_ns f\<rparr>"
    using Cons.IH [of ?table] by auto
  have "map_of ?table key = Some st" if "map_of table key = Some st" for key st
    using that new by (force simp: AList.update_conv' dest: map_of_SomeD)
  moreover have "map_of ?table (duplicate_key f) = Some ?st" by (simp add: AList.update_conv')
  ultimately show ?case using table' keys by auto
qed simp

section \<open>Accounting of received frames\<close>

definition received :: "bridge_stats \<Rightarrow> u64" where
  "received st = bs_imported st + bs_heartbeats_received st + bs_rejected_frames st +
     bs_duplicate_frames st + bs_unknown_topic st"

definition taken :: "bridge_stats \<Rightarrow> u64" where
  "taken st = bs_imported st + bs_heartbeats_received st"

lemma bridge_receive_counts:
  assumes "\<not> br_stopped br" and "bridge_receive f br w = (ok, br', w')"
  shows "received (br_stats br') = received (br_stats br) + 1"
    and "taken (br_stats br') = taken (br_stats br) + of_bool ok"
  using assms
  by (auto simp: bridge_receive_def received_def taken_def count_def Let_def
      split: if_splits option.splits prod.splits sum.splits)

section \<open>Exported subscriptions\<close>

lemma create_subscription_block:
  assumes "create_subscription tr lt n topic options s = (Inr handle, s1)"
  obtains h b where "handle = \<lparr>sh_bus = True, sh_topic = topic, sh_id = bus_next_id s, sh_block = Some h\<rparr>"
    "bus_blocks s1 h = Some b" "cb_options b = options" "cb_active b"
proof -
  obtain sid h where sub: "subscribe topic (mt_type_id tr) (mt_schema_hash tr) lt options True s = (Inr (sid, h), s1)"
    and handle: "handle = \<lparr>sh_bus = True, sh_topic = topic, sh_id = sid, sh_block = Some h\<rparr>"
    using assms by (auto simp: create_subscription_def split: sum.splits prod.splits)
  then obtain b where b: "control_block_new options True = Inr b"
    and lock: "subscribe_locked topic (mt_type_id tr) (mt_schema_hash tr) lt b s = (Inr (sid, h), s1)"
    by (auto simp: subscribe_def split: sum.splits)
  have "bus_blocks s1 h = Some b" "sid = bus_next_id s" using lock by (auto elim: subscribe_locked_cases)
  moreover have "cb_options b = options" "cb_active b"
    using b by (auto simp: control_block_new_def split: if_splits)
  ultimately show ?thesis using that handle by blast
qed

lemma import_handler_filtered:
  assumes "bus_blocks s h = Some b" and "\<not> receive_remote (cb_options b)"
  shows "bus_blocks (snd (import_handler posts inject tr lt p topic f s)) h = Some b"
proof -
  have "bus_blocks (snd (publish posts (pub_topic p) (mt_type_id tr) (mt_schema_hash tr) lt m True s)) h = Some b" for m
    using publish_filtered [OF assms(1)] assms(2) by blast
  then show ?thesis
    using assms(1)
    by (auto simp: import_handler_def publish_remote_def publish_shared_def split: sum.splits prod.splits)
      (metis snd_conv)+
qed

section \<open>From bridge to bridge\<close>

context wire_message begin

lemma bridge_delivers:
  assumes a: "\<not> br_stopped a" "\<not> q_closed (br_outbound a)" "\<not> full_locked (br_outbound a)"
    and exp: "export_callback True now tr topic m a = (Inr (), a')" and "fits topic"
    and b: "\<not> br_stopped b" "map_of (br_imports b) topic = Some \<lparr>ir_type_id = mt_type_id tr,
       ir_schema_hash = mt_schema_hash tr, ir_handler = import_handler posts inject tr lt p topic\<rparr>"
    and fresh: "map_of (br_highest_sequences b) (topic @ [CHR 0x0A] @ to_string (unat (br_publisher_id a))) = None"
    and pub: "publish_remote posts tr lt p (inject m) w = (Inr res, w')"
  shows "\<exists>f bs. q_items (br_outbound a') = q_items (br_outbound a) @ [f] \<and>
    encode_frame f default_limits = Inr bs \<and> decode_frame (Span bs) default_limits = Inr f \<and>
    (\<exists>b'. bridge_receive f b w = (True, b', w'))"
proof -
  obtain f where f: "make_frame tr topic m (br_next_sequence a) (br_publisher_id a) now = Inr f"
    and a': "a' = emit_frame True f (a\<lparr>br_next_sequence := br_next_sequence a + 1\<rparr>)"
    using exp by (auto simp: export_callback_def Let_def split: sum.splits)
  note fr = make_frame_Inr [OF f]
  have q: "q_items (br_outbound a') = q_items (br_outbound a) @ [f]"
    using a by (simp add: a' emit_frame_def queue_ops count_def)
  have dec: "deserialize_frame tr f topic = Inr m" using made_frame_deserializes [OF f] by simp
  have flag: "\<not> has_heartbeat_flag f" by (rule has_heartbeat_flag_zero) (simp add: fr(3))
  have "map_of (br_highest_sequences b) (duplicate_key f) = None"
    using fresh by (simp add: duplicate_key_def fr(3))
  then obtain table where table: "reserve (br_max_dedup_entries b) f (br_highest_sequences b) = Some table"
    by (simp add: reserve_def Let_def)
  have "import_handler posts inject tr lt p topic f w = (Inr (), w')"
    using dec pub by (simp add: import_handler_def)
  then have "\<exists>b'. bridge_receive f b w = (True, b', w')"
    using b flag table by (simp add: bridge_receive_def fr(3) Let_def)
  then show ?thesis using q made_frame_fits_default_limits(2,3) [OF f assms(5)] by blast
qed

end

section \<open>Reconnection\<close>

lemma backoff_schedule_aux:
  assumes "0 < init" and "init \<le> maximum" and "maximum \<le> int64_max"
  shows "((\<lambda>x. doubled_backoff x maximum) ^^ k) init = min maximum (init * 2 ^ k)"
proof (induction k)
  case 0
  then show ?case using assms by simp
next
  case (Suc k)
  have "doubled_backoff (min maximum (init * 2 ^ k)) maximum = min maximum (init * 2 ^ k * 2)"
    using assms by (auto simp: doubled_backoff_def int64_max_def min_def)
  then show ?case using Suc by (simp add: mult_ac)
qed

lemma client_cleanup_connected: "\<not> bs_connected (br_stats (client_cleanup lk r br n))"
  by (simp add: client_cleanup_def count_def Let_def)

lemma send_batch_idle: "q_items (br_outbound br) = [] \<Longrightarrow> send_batch lk k br n = (Inr (), br, n)"
  by (cases k) (simp_all add: try_pop_def)

lemma send_batch_outbound:
  "send_batch lk k br n = (r, br', n') \<Longrightarrow>
     \<exists>sent. length sent \<le> k \<and> q_items (br_outbound br) = sent @ q_items (br_outbound br') \<and>
       (is_ok r \<longrightarrow> length sent = k \<or> q_items (br_outbound br') = []) \<and>
       bs_frames_sent (br_stats br') = bs_frames_sent (br_stats br) + of_nat (length sent) - of_bool (\<not> is_ok r)"
proof (induction k arbitrary: br n)
  case 0
  then show ?case by auto
next
  case (Suc k)
  show ?case
  proof (cases "q_items (br_outbound br)")
    case Nil
    then show ?thesis using Suc.prems by (auto simp: try_pop_def)
  next
    case (Cons f fs)
    let ?q = "(br_outbound br)\<lparr>q_items := fs\<rparr>"
    have pop: "try_pop (br_outbound br) = (Some f, ?q)" using Cons by (simp add: try_pop_def pop_front_def)
    show ?thesis
    proof (cases "lk_send lk f n")
      case (Pair res n1)
      show ?thesis
      proof (cases res)
        case (Inl e)
        then show ?thesis using Suc.prems Pair pop Cons by (intro exI [of _ "[f]"]) auto
      next
        case (Inr u)
        then have run: "send_batch lk k (count bs_frames_sent_update (br\<lparr>br_outbound := ?q\<rparr>)) n1 = (r, br', n')"
          using Suc.prems Pair pop by simp
        obtain sent where "length sent \<le> k" "fs = sent @ q_items (br_outbound br')"
          "is_ok r \<longrightarrow> length sent = k \<or> q_items (br_outbound br') = []"
          "bs_frames_sent (br_stats br') = bs_frames_sent (br_stats br) + 1 + of_nat (length sent) - of_bool (\<not> is_ok r)"
          using Suc.IH [OF run] by (auto simp: count_def)
        then show ?thesis using Cons by (intro exI [of _ "f # sent"]) (auto simp: algebra_simps)
      qed
    qed
  qed
qed

text \<open>The connection counters change only when a connection is made or given up.\<close>

definition conn_stats :: "'w bridge \<Rightarrow> bool \<times> u64 \<times> u64 \<times> u64" where
  "conn_stats br = (bs_connected (br_stats br), bs_successful_connections (br_stats br),
     bs_disconnects (br_stats br), bs_connect_attempts (br_stats br))"

lemma bridge_receive_conn: "bridge_receive f br w = (ok, br', w') \<Longrightarrow>
    conn_stats br' = conn_stats br \<and> br_outbound br' = br_outbound br"
  by (auto simp: bridge_receive_def conn_stats_def count_def Let_def
      split: if_splits option.splits prod.splits sum.splits)

lemma count_heartbeat_conn:
  "conn_stats (count bs_heartbeats_received_update br) = conn_stats br"
  "br_outbound (count field br) = br_outbound br"
  by (simp_all add: conn_stats_def count_def)

lemma client_incoming_conn: "client_incoming f br w = (r, br', w') \<Longrightarrow>
    conn_stats br' = conn_stats br \<and> br_outbound br' = br_outbound br"
  using bridge_receive_conn [of f br w]
  by (cases "bridge_receive f br w") (auto simp: client_incoming_def count_heartbeat_conn split: if_splits)

lemma client_keepalive_eq:
  "client_keepalive lk options now cs br n =
     (let idle = (\<lambda>cs1 br1 n1. (if now - cs_last_receive cs1 \<ge> ms (ro_idle_timeout options)
         then (Inl (TransportError ''bridge TCP peer heartbeat timed out''), cs1, br1, n1)
         else (Inr (), cs1, br1, n1)));
        cs' = cs\<lparr>cs_heartbeat_sequence := cs_heartbeat_sequence cs + 1\<rparr>
      in if now < cs_next_heartbeat cs then idle cs br n
         else (case lk_send lk (make_heartbeat_frame (br_publisher_id br) (cs_heartbeat_sequence cs)
                  (of_int (lk_now lk n))) n of
             (Inl e, n1) \<Rightarrow> (Inl e, cs', br, n1)
           | (Inr u, n1) \<Rightarrow> idle (cs'\<lparr>cs_next_heartbeat := now + ms (ro_heartbeat_interval options)\<rparr>)
               (count bs_heartbeats_sent_update br) n1))"
proof (cases "now < cs_next_heartbeat cs")
  case True
  then show ?thesis by (simp add: client_keepalive_def Let_def)
next
  case False
  then show ?thesis
    by (cases "lk_send lk (make_heartbeat_frame (br_publisher_id br) (cs_heartbeat_sequence cs)
          (of_int (lk_now lk n))) n")
      (simp add: client_keepalive_def Let_def split: sum.split)
qed

lemma client_keepalive_conn:
  assumes "client_keepalive lk options now cs br n = (r, cs', br', n')"
  shows "conn_stats br' = conn_stats br \<and> br_outbound br' = br_outbound br"
  using assms
  by (cases "lk_send lk (make_heartbeat_frame (br_publisher_id br) (cs_heartbeat_sequence cs)
        (of_int (lk_now lk n))) n")
    (auto simp: client_keepalive_eq Let_def conn_stats_def count_def split: if_splits sum.splits)

lemma send_batch_conn: "send_batch lk k br n = (r, br', n') \<Longrightarrow> conn_stats br' = conn_stats br"
proof (induction k arbitrary: br n)
  case (Suc k)
  have same: "conn_stats (count bs_frames_sent_update (br\<lparr>br_outbound := q\<rparr>)) = conn_stats br"
    "conn_stats (br\<lparr>br_outbound := q\<rparr>) = conn_stats br" for q
    by (simp_all add: conn_stats_def count_def)
  show ?case
    using Suc.prems Suc.IH same by (auto split: prod.splits option.splits sum.splits)
qed simp

lemma client_round_conn:
  assumes "client_round lk options cs br n w = (r, cs', br', n', w')"
  shows "conn_stats br' = conn_stats br"
  using assms
  by (auto simp: client_round_def Let_def split: prod.splits sum.splits option.splits
      dest!: send_batch_conn client_incoming_conn client_keepalive_conn)

lemma client_rounds_conn:
  "client_rounds fuel lk options cs br n w = Some (r, cs', br', n', w') \<Longrightarrow> conn_stats br' = conn_stats br"
proof (induction fuel arbitrary: cs br n w)
  case (Suc fuel)
  show ?case
  proof (cases "lk_running lk n")
    case True
    obtain r1 cs1 br1 n1 w1 where round: "client_round lk options cs br n w = (r1, cs1, br1, n1, w1)"
      by (metis prod_cases5)
    then show ?thesis
      using Suc.prems True Suc.IH client_round_conn [OF round] by (cases r1) auto
  qed (use Suc.prems in simp)
qed (simp split: if_splits)

section \<open>Properties of the bridge\<close>

text \<open>C27: At-most-once import: whatever frames arrive, in whatever order and however often, as long as they
  come from one life of each publisher and the table has room for all topic and publisher pairs, the
  frames that pass the duplicate check have strictly increasing sequence numbers per topic and
  publisher; so no frame reaches an import handler twice.\<close>

theorem bridge_at_most_once:
  assumes "single_epoch (set fs)" and "card (duplicate_key ` set fs) \<le> unat max_entries"
  shows "sorted_wrt (\<lambda>f g. fr_topic f = fr_topic g \<and> fr_publisher_id f = fr_publisher_id g \<longrightarrow>
     fr_sequence f < fr_sequence g) (fst (run_reserve max_entries fs []))"
proof -
  obtain acc table where run: "run_reserve max_entries fs [] = (acc, table)" by force
  have "table_from (set fs) []" by (simp add: table_from_def)
  then show ?thesis
    using run_reserve_increasing [OF run _ subset_refl _ assms] run by (simp add: duplicate_key_iff)
qed

text \<open>C28: The two limits of the guarantee. After a restart, when a publisher's frame number zero with a later time
  has been taken, any frame of its earlier life is imported again. And a table that is full is emptied for a new
  topic and publisher pair: after frames for one pair more than it holds, the first of them is imported again,
  unchanged; while there is room the repetition is refused.\<close>

theorem dedup_limits:
  assumes "distinct (map duplicate_key (f # gs))"
  shows "(duplicate_key h = duplicate_key f \<and> fr_sequence h = 0 \<and> fr_send_time_ns f < fr_send_time_ns h \<and> 0 < fr_sequence f \<longrightarrow>
      fst (run_reserve max_entries [f, h, f] []) = [f, h, f]) \<and>
    (gs \<noteq> [] \<and> length gs = unat max_entries \<longrightarrow> fst (run_reserve max_entries (f # gs @ [f]) []) = f # gs @ [f]) \<and>
    (length gs < unat max_entries \<longrightarrow> fst (run_reserve max_entries (f # gs @ [f]) []) = f # gs)"
proof (intro conjI impI)
  assume "duplicate_key h = duplicate_key f \<and> fr_sequence h = 0 \<and> fr_send_time_ns f < fr_send_time_ns h \<and> 0 < fr_sequence f"
  then show "fst (run_reserve max_entries [f, h, f] []) = [f, h, f]"
    by (auto simp: reserve_def Let_def AList.update_conv')
next
  assume full: "gs \<noteq> [] \<and> length gs = unat max_entries"
  then obtain hs g where gs: "gs = hs @ [g]" by (metis rev_exhaust)
  have "length ([] :: (string \<times> sequence_state) list) + length (f # hs) \<le> unat max_entries" using full gs by simp
  from run_reserve_fill [OF this] assms gs obtain table where
    run: "run_reserve max_entries (f # hs) [] = (f # hs, table)" and keys: "map fst table = map duplicate_key (f # hs)" by auto
  have "map_of table (duplicate_key g) = None" using assms gs keys by (auto simp: map_of_eq_None_iff simp flip: set_map)
  moreover have "length table = unat max_entries" using arg_cong [OF keys, of length] full gs by simp
  ultimately have "reserve max_entries g table = Some [(duplicate_key g,
      \<lparr>sq_highest = fr_sequence g, sq_latest_send_time_ns = fr_send_time_ns g\<rparr>)]" by (simp add: reserve_def Let_def)
  moreover have "duplicate_key f \<noteq> duplicate_key g" using assms gs by auto
  ultimately have two: "fst (run_reserve max_entries [g, f] table) = [g, f]" by (simp add: reserve_def Let_def)
  have whole: "f # gs @ [f] = (f # hs) @ [g, f]" using gs by simp
  show "fst (run_reserve max_entries (f # gs @ [f]) []) = f # gs @ [f]"
    by (simp only: whole run_reserve_append run fst_conv snd_conv two)
next
  assume "length gs < unat max_entries"
  then have "length ([] :: (string \<times> sequence_state) list) + length (f # gs) \<le> unat max_entries" by simp
  from run_reserve_fill [OF this] assms obtain table where
    run: "run_reserve max_entries (f # gs) [] = (f # gs, table)"
    "map_of table (duplicate_key f) = Some \<lparr>sq_highest = fr_sequence f, sq_latest_send_time_ns = fr_send_time_ns f\<rparr>" by auto
  then have none: "fst (run_reserve max_entries [f] table) = []" by (simp add: reserve_def Let_def)
  have whole: "f # gs @ [f] = (f # gs) @ [f]" by simp
  show "fst (run_reserve max_entries (f # gs @ [f]) []) = f # gs"
    by (simp only: whole run_reserve_append run(1) fst_conv snd_conv none append_Nil2)
qed

text \<open>Every frame a running bridge receives is counted exactly once, as imported, heartbeat, rejected,
  duplicate or for an unknown topic; the call returns true exactly for the first two, and a frame that
  is not a heartbeat is imported only by the handler registered for its topic, type and schema.\<close>

theorem receive_accounts:
  assumes "\<not> br_stopped br" and "bridge_receive f br w = (ok, br', w')"
  shows "received (br_stats br') = received (br_stats br) + 1 \<and>
    taken (br_stats br') = taken (br_stats br) + of_bool ok \<and>
    (ok \<and> \<not> has_heartbeat_flag f \<longrightarrow> (\<exists>route. map_of (br_imports br) (fr_topic f) = Some route \<and>
       ir_type_id route = fr_type_id f \<and> ir_schema_hash route = fr_schema_hash f \<and>
       ir_handler route f w = (Inr (), w'))) \<and>
    (reserve (br_max_dedup_entries br) f (br_highest_sequences br) = None \<longrightarrow> w' = w)"
proof -
  have "\<exists>route. map_of (br_imports br) (fr_topic f) = Some route \<and>
       ir_type_id route = fr_type_id f \<and> ir_schema_hash route = fr_schema_hash f \<and>
       ir_handler route f w = (Inr (), w')" if "ok" "\<not> has_heartbeat_flag f"
    using assms that
    by (auto simp: bridge_receive_def Let_def split: if_splits option.splits prod.splits sum.splits)
  moreover have "w' = w" if "reserve (br_max_dedup_entries br) f (br_highest_sequences br) = None"
    using assms that
    by (auto simp: bridge_receive_def Let_def split: if_splits option.splits)
  ultimately show ?thesis using bridge_receive_counts [OF assms] by blast
qed

text \<open>From bridge to bridge: a message given to the callback of an export leaves in a frame at the end of
  the outbound queue; that frame survives encoding and decoding; and a bridge that imports its
  topic with the same message type, and has not seen the publisher, publishes exactly that
  message on its bus.\<close>

theorem bridge_end_to_end:
  assumes "wire_message tr k"
    and "\<not> br_stopped a" and "\<not> q_closed (br_outbound a)" and "\<not> full_locked (br_outbound a)"
    and "export_callback True now tr topic m a = (Inr (), a')" and "fits topic"
    and "\<not> br_stopped b" and "map_of (br_imports b) topic = Some \<lparr>ir_type_id = mt_type_id tr,
       ir_schema_hash = mt_schema_hash tr, ir_handler = import_handler posts inject tr lt p topic\<rparr>"
    and "map_of (br_highest_sequences b) (topic @ [CHR 0x0A] @ to_string (unat (br_publisher_id a))) = None"
    and "publish_remote posts tr lt p (inject m) w = (Inr res, w')"
  shows "\<exists>f bs. q_items (br_outbound a') = q_items (br_outbound a) @ [f] \<and>
    encode_frame f default_limits = Inr bs \<and> decode_frame (Span bs) default_limits = Inr f \<and>
    (\<exists>b'. bridge_receive f b w = (True, b', w'))"
  by (rule wire_message.bridge_delivers [OF assms])

text \<open>The reconnection backoff: under options the client accepts, the wait after \<open>k\<close> failures in a row is
  \<open>min maximum (initial * 2\<^sup>k)\<close> milliseconds, and doubling never overflows the 64-bit count.\<close>

theorem backoff_schedule:
  assumes "validate_reconnect_options options = Inr ()" and "ro_maximum_backoff options \<le> int64_max"
  shows "((\<lambda>x. doubled_backoff x (ro_maximum_backoff options)) ^^ k) (ro_initial_backoff options) =
      min (ro_maximum_backoff options) (ro_initial_backoff options * 2 ^ k) \<and>
    (0 \<le> x \<and> x < ro_maximum_backoff options \<and> x \<le> int64_max div 2 \<longrightarrow> x * 2 \<le> int64_max)"
proof -
  have "0 < ro_initial_backoff options" "ro_initial_backoff options \<le> ro_maximum_backoff options"
    using assms(1) by (auto simp: validate_reconnect_options_def split: if_splits)
  then show ?thesis using backoff_schedule_aux assms(2) by auto
qed

text \<open>Connections are accounted for: an attempt counts once, leaves the client disconnected whatever
  happened, and counts a disconnect exactly when it counted a successful connection.\<close>

theorem attempt_accounts:
  assumes "client_attempt fuel lk options backoff before br n w = Some (backoff', before', br', n', w')"
    and "\<not> bridge_is_connected br"
  shows "\<not> bridge_is_connected br' \<and>
    bs_connect_attempts (br_stats br') = bs_connect_attempts (br_stats br) + 1 \<and>
    bs_successful_connections (br_stats br') - bs_successful_connections (br_stats br) =
      bs_disconnects (br_stats br') - bs_disconnects (br_stats br)"
proof (cases "lk_connect lk n")
  case (Pair res n1)
  show ?thesis
  proof (cases res)
    case (Inl e)
    then show ?thesis
      using assms Pair
      by (auto simp: client_attempt_def client_cleanup_def count_def Let_def bridge_is_connected_def split: if_splits)
  next
    case (Inr u)
    let ?br1 = "count bs_successful_connections_update ((count bs_connect_attempts_update br)
        \<lparr>br_stats := (br_stats (count bs_connect_attempts_update br))\<lparr>bs_connected := True\<rparr>\<rparr>)"
    let ?br2 = "if before then count bs_reconnects_update ?br1 else ?br1"
    obtain r cs cs1 br3 n2 where run: "client_rounds fuel lk options cs ?br2 n1 w = Some (r, cs1, br3, n2, w')"
      and br': "br' = client_cleanup lk r br3 n2"
      using assms(1) Pair Inr by (auto simp: client_attempt_def Let_def split: option.splits prod.splits)
    have "conn_stats br3 = (True, bs_successful_connections (br_stats br) + 1, bs_disconnects (br_stats br),
        bs_connect_attempts (br_stats br) + 1)"
      using client_rounds_conn [OF run] by (auto simp: conn_stats_def count_def)
    then show ?thesis
      by (auto simp: br' client_cleanup_def count_def conn_stats_def Let_def bridge_is_connected_def)
  qed
qed

text \<open>A round of the client that ends normally has heard from the peer within the idle timeout, has sent
  the heartbeat if it was due and scheduled the next one, and has taken at most 64 frames from the
  front of the outbound queue.\<close>

theorem client_round_alive:
  assumes "client_round lk options cs br n w = (Inr (), cs', br', n', w')"
  shows "\<exists>now sent. now - cs_last_receive cs' < ms (ro_idle_timeout options) \<and>
    (cs_next_heartbeat cs \<le> now \<longrightarrow> cs_next_heartbeat cs' = now + ms (ro_heartbeat_interval options) \<and>
       cs_heartbeat_sequence cs' = cs_heartbeat_sequence cs + 1) \<and>
    length sent \<le> 64 \<and> q_items (br_outbound br) = sent @ q_items (br_outbound br')"
proof -
  obtain br1 n1 where batch: "send_batch lk 64 br n = (Inr (), br1, n1)"
    using assms by (auto simp: client_round_def split: prod.splits sum.splits)
  obtain sent where sent: "length sent \<le> 64" "q_items (br_outbound br) = sent @ q_items (br_outbound br1)"
    using send_batch_outbound [OF batch] by auto
  obtain now cs1 br2 n2 where keep: "client_keepalive lk options now cs1 br2 n2 = (Inr (), cs', br', n')"
    and cs1: "cs_next_heartbeat cs1 = cs_next_heartbeat cs" "cs_heartbeat_sequence cs1 = cs_heartbeat_sequence cs"
    and br2: "br_outbound br2 = br_outbound br1"
  proof -
    obtain incoming n2 where recv: "lk_receive lk n1 = (Inr incoming, n2)"
      using assms batch by (auto simp: client_round_def split: prod.splits sum.splits)
    show ?thesis
    proof (cases incoming)
      case None
      then show ?thesis
        using assms batch recv that [of "lk_now lk n2" cs br1 n2]
        by (cases "client_keepalive lk options (lk_now lk n2) cs br1 n2") (simp add: client_round_def Let_def)
    next
      case (Some f)
      let ?cs = "cs\<lparr>cs_last_receive := lk_now lk n2, cs_healthy := True,
        cs_backoff := (if \<not> cs_healthy cs then ro_initial_backoff options else cs_backoff cs)\<rparr>"
      obtain br2 w1 where inc: "client_incoming f br1 w = (Inr (), br2, w1)"
        using assms batch recv Some by (auto simp: client_round_def Let_def split: prod.splits sum.splits)
      have "client_keepalive lk options (lk_now lk n2) ?cs br2 n2 = (Inr (), cs', br', n')"
        using assms batch recv Some inc
        by (cases "client_keepalive lk options (lk_now lk n2) ?cs br2 n2") (simp add: client_round_def Let_def)
      then show ?thesis using that [of "lk_now lk n2" ?cs br2 n2] client_incoming_conn [OF inc] by simp
    qed
  qed
  have "now - cs_last_receive cs' < ms (ro_idle_timeout options)"
    "cs_next_heartbeat cs1 \<le> now \<longrightarrow> cs_next_heartbeat cs' = now + ms (ro_heartbeat_interval options) \<and>
       cs_heartbeat_sequence cs' = cs_heartbeat_sequence cs1 + 1"
    using keep
    by (cases "lk_send lk (make_heartbeat_frame (br_publisher_id br2) (cs_heartbeat_sequence cs1)
          (of_int (lk_now lk n2))) n2",
        auto simp: client_keepalive_eq Let_def split: if_splits sum.splits)+
  moreover have "br_outbound br' = br_outbound br1" using client_keepalive_conn [OF keep] br2 by simp
  ultimately show ?thesis using sent cs1 by metis
qed

section \<open>Concrete instances\<close>

definition bridge0 :: "'w bridge" where
  "bridge0 = projr (bridge_new 0 0 (default_bridge_options\<lparr>bo_publisher_id := 7\<rparr>))"

definition frame0 :: "u64 \<Rightarrow> frame" where
  "frame0 k = empty_frame\<lparr>fr_topic := ''imu'', fr_sequence := k, fr_send_time_ns := k + 1, fr_publisher_id := 7\<rparr>"

lemmas bridge_eval = bridge0_def bridge_new_def default_bridge_options_def ts_queue_new_def zero_stats_def
  frame0_def empty_frame_def

theorem bridge_at_most_once_witness:
  "sorted_wrt (\<lambda>f g. fr_topic f = fr_topic g \<and> fr_publisher_id f = fr_publisher_id g \<longrightarrow>
     fr_sequence f < fr_sequence g) (fst (run_reserve 4096 [frame0 0, frame0 1, frame0 0] []))"
proof (rule bridge_at_most_once)
  have k: "duplicate_key (frame0 i) = duplicate_key (frame0 0)" for i by (simp add: duplicate_key_iff frame0_def)
  show "single_epoch (set [frame0 0, frame0 1, frame0 0])" by (auto simp: single_epoch_def frame0_def)
  show "card (duplicate_key ` set [frame0 0, frame0 1, frame0 0]) \<le> unat (4096 :: size_t)"
    using k [of 1] by simp
qed

theorem dedup_limits_witness:
  "\<exists>f g h :: frame. duplicate_key g \<noteq> duplicate_key f \<and> duplicate_key h = duplicate_key f \<and>
     fst (run_reserve 4096 [f, h, f] []) = [f, h, f] \<and>
     fst (run_reserve 1 [f, g, f] []) = [f, g, f] \<and> fst (run_reserve 2 [f, g, f] []) = [f, g]"
proof -
  let ?f = "frame0 5" and ?g = "(frame0 5)\<lparr>fr_topic := ''pose''\<rparr>" and ?h = "(frame0 0)\<lparr>fr_send_time_ns := 9\<rparr>"
  have keys: "duplicate_key ?g \<noteq> duplicate_key ?f" "duplicate_key ?h = duplicate_key ?f" by (simp_all add: duplicate_key_iff frame0_def)
  have "distinct (map duplicate_key [?f, ?g])" using keys(1) by auto
  note limits = dedup_limits [OF this, of ?h]
  have restart: "duplicate_key ?h = duplicate_key ?f \<and> fr_sequence ?h = 0 \<and> fr_send_time_ns ?f < fr_send_time_ns ?h \<and> 0 < fr_sequence ?f"
    using keys(2) by (simp add: frame0_def)
  have "fst (run_reserve 4096 [?f, ?h, ?f] []) = [?f, ?h, ?f]" using limits [of 4096] restart by blast
  moreover have "fst (run_reserve 1 [?f, ?g, ?f] []) = [?f, ?g, ?f]" using limits [of 1] by simp
  moreover have "fst (run_reserve 2 [?f, ?g, ?f] []) = [?f, ?g]" using limits [of 2] by simp
  ultimately show ?thesis using keys by blast
qed

theorem receive_accounts_witness:
  "\<exists>br' w'. bridge_receive (frame0 0) (bridge0 :: nat bridge) 3 = (False, br', w') \<and>
     received (br_stats br') = received (br_stats (bridge0 :: nat bridge)) + 1"
proof -
  obtain ok br' w' where r: "bridge_receive (frame0 0) (bridge0 :: nat bridge) 3 = (ok, br', w')"
    by (metis prod_cases3)
  have "ok = False" using r by (auto simp: bridge_receive_def bridge_eval has_heartbeat_flag_zero)
  moreover have "\<not> br_stopped (bridge0 :: nat bridge)" by (simp add: bridge_eval)
  ultimately show ?thesis using receive_accounts [OF _ r] r by simp
qed

theorem backoff_schedule_witness:
  "((\<lambda>x. doubled_backoff x 1000) ^^ 3) 50 = min 1000 (50 * 2 ^ 3 :: int)"
  using backoff_schedule [of default_reconnect_options 3]
  by (simp add: default_reconnect_options_def validate_reconnect_options_def int64_max_def)

text \<open>A link whose peer never answers and whose client is told to stop once it is connected.\<close>

definition link0 :: "nat link" where
  "link0 = \<lparr>lk_connect = (\<lambda>n. (Inr (), n + 1)), lk_send = (\<lambda>f n. (Inr (), n + 1)),
     lk_receive = (\<lambda>n. (Inr None, n + 1)), lk_close = id, lk_now = int, lk_running = (\<lambda>n. n < 1)\<rparr>"

theorem attempt_accounts_witness:
  "\<exists>backoff' before' br' n' w'. client_attempt 2 link0 default_reconnect_options 50 False (bridge0 :: nat bridge) 0 3 =
       Some (backoff', before', br', n', w') \<and>
     bs_connect_attempts (br_stats br') = bs_connect_attempts (br_stats (bridge0 :: nat bridge)) + 1"
proof -
  obtain backoff' before' br' n' w' where run:
    "client_attempt 2 link0 default_reconnect_options 50 False (bridge0 :: nat bridge) 0 3 =
       Some (backoff', before', br', n', w')"
    by (simp add: client_attempt_def link0_def Let_def numeral_2_eq_2)
  have "\<not> bridge_is_connected (bridge0 :: nat bridge)" by (simp add: bridge_eval bridge_is_connected_def)
  then show ?thesis using attempt_accounts [OF run] run by simp
qed

theorem client_round_alive_witness:
  "\<exists>cs cs' br' n' w'. client_round link0 default_reconnect_options cs (bridge0 :: nat bridge) 0 3 =
       (Inr (), cs', br', n', w') \<and>
     (\<exists>now. now - cs_last_receive cs' < ms (ro_idle_timeout default_reconnect_options))"
proof -
  let ?cs = "\<lparr>cs_last_receive = 0, cs_next_heartbeat = 5, cs_heartbeat_sequence = 0, cs_healthy = False,
    cs_backoff = 50\<rparr>"
  have pop: "send_batch link0 64 bridge0 n = (Inr (), bridge0 :: nat bridge, n)" for n
    by (rule send_batch_idle) (simp add: bridge_eval)
  obtain cs' br' n' w' where "client_round link0 default_reconnect_options ?cs (bridge0 :: nat bridge) 0 3 =
       (Inr (), cs', br', n', w')"
    by (simp add: client_round_def pop) (simp add: link0_def client_keepalive_def ms_def default_reconnect_options_def)
  then show ?thesis using client_round_alive by metis
qed

definition node0 :: node where
  "node0 = \<lparr>node_name = ''bridge'', node_bus = True\<rparr>"

definition bus_cmd :: "nat topic_bus" where
  "bus_cmd = snd (create_publisher control_traits ''ControlMsg'' node0 ''cmd'' bus0)"

theorem bridge_end_to_end_witness:
  "\<exists>f b b' w'. bridge_receive f b bus_cmd = (True, b', w')"
proof -
  let ?a = "bridge0 :: nat bridge"
  let ?m = "\<lparr>ctl_timestamp_ns = 1, ctl_linear_x = 2, ctl_linear_y = 3, ctl_angular_z = 4\<rparr>"
  let ?p = "\<lparr>pub_bus = True, pub_topic = ''cmd''\<rparr>"
  let ?b = "bridge0\<lparr>br_imports := [(''cmd'', \<lparr>ir_type_id = mt_type_id control_traits,
       ir_schema_hash = mt_schema_hash control_traits,
       ir_handler = import_handler (\<lambda>h. Inr True) (\<lambda>m. 0) control_traits ''ControlMsg'' ?p ''cmd''\<rparr>)]\<rparr>"
  obtain a' where exp: "export_callback True 9 control_traits ''cmd'' ?m ?a = (Inr (), a')"
    by (simp add: export_callback_def make_frame_def size_of_def Let_def)
  obtain res w' where pub: "publish_remote (\<lambda>h. Inr True) control_traits ''ControlMsg'' ?p 0 bus_cmd = (Inr res, w')"
    by (simp add: publish_remote_def publish_shared_def publish_def bus_cmd_def create_publisher_def
        advertise_def require_initialized_def node0_def bus_eval control_traits_def
        live_subscriptions_def)
  have "\<exists>f bs. q_items (br_outbound a') = q_items (br_outbound ?a) @ [f] \<and>
    encode_frame f default_limits = Inr bs \<and> decode_frame (Span bs) default_limits = Inr f \<and>
    (\<exists>b'. bridge_receive f ?b bus_cmd = (True, b', w'))"
    by (rule bridge_end_to_end [OF control.wire_message_axioms _ _ _ exp _ _ _ _ pub])
      (simp_all add: bridge_eval full_locked_def fits_def)
  then show ?thesis by blast
qed

end
