(* ===== verification/Rml_Socket.thy ===== *)
theory Rml_Socket
  imports Rml_Prelude
begin

text \<open>
  What the transports see of the platform. The operating system is no part of the sources: its calls
  are the fields of a record \<open>os\<close> of functions on a state \<open>'n\<close> of the machine and the
  network, a parameter of every definition that makes a system call. A call may give any of its
  documented outcomes; nothing else is assumed here. The file also has the helpers that
  \<^verbatim>\<open>tcp_transport.cpp\<close> and \<^verbatim>\<open>udp_transport.cpp\<close> both start with.
\<close>

section \<open>Outcomes of system calls\<close>

datatype errno = EINTR | EAGAIN | EWOULDBLOCK | EINPROGRESS | EALREADY | Errno int

text \<open>\<open>poll\<close> on one descriptor: zero, negative, or positive with \<open>revents\<close>.\<close>

datatype poll_outcome = PollTimeout | PollFailed errno | PollReady u16

datatype recv_outcome = Received byte_buffer | RecvEof | RecvFailed errno

datatype send_outcome = Sent nat | SendFailed errno

text \<open>A datagram and whether it was truncated (\<^verbatim>\<open>MSG_TRUNC\<close>).\<close>

datatype recvmsg_outcome = Datagram byte_buffer bool | RecvmsgFailed errno

datatype family = AF_INET | AF_INET6 | AF_OTHER int

record addrinfo =
  ai_family :: family
  ai_addr :: byte_buffer

definition POLLIN :: u16 where "POLLIN = 0x001"
definition POLLOUT :: u16 where "POLLOUT = 0x004"
definition POLLERR :: u16 where "POLLERR = 0x008"
definition POLLHUP :: u16 where "POLLHUP = 0x010"
definition POLLNVAL :: u16 where "POLLNVAL = 0x020"

lemmas poll_consts = POLLIN_def POLLOUT_def POLLERR_def POLLHUP_def POLLNVAL_def

section \<open>The system interface\<close>

text \<open>
  Clock readings are nanoseconds of the monotonic clock. \<open>os_poll\<close> takes the descriptor, the events
  and the timeout in milliseconds; \<open>os_recv\<close> and \<open>os_recvmsg\<close> the number of bytes wanted;
  \<open>os_getaddrinfo\<close> the node (\<open>None\<close> for a null pointer), the service, whether a stream socket is
  meant and \<^verbatim>\<open>AI_PASSIVE\<close>, and answers with a text of \<^verbatim>\<open>gai_strerror\<close> or the
  addresses; \<open>os_socket\<close> whether the socket is created non-blocking. The flag calls are
  \<^verbatim>\<open>fcntl\<close> with \<^verbatim>\<open>F_GETFD\<close>, \<^verbatim>\<open>F_SETFD\<close>, \<^verbatim>\<open>F_GETFL\<close> and
  \<^verbatim>\<open>F_SETFL\<close>.
\<close>

record 'n os =
  os_now :: "'n \<Rightarrow> int \<times> 'n"
  os_poll :: "int \<Rightarrow> u16 \<Rightarrow> int \<Rightarrow> 'n \<Rightarrow> poll_outcome \<times> 'n"
  os_recv :: "int \<Rightarrow> nat \<Rightarrow> 'n \<Rightarrow> recv_outcome \<times> 'n"
  os_send :: "int \<Rightarrow> byte_buffer \<Rightarrow> 'n \<Rightarrow> send_outcome \<times> 'n"
  os_recvmsg :: "int \<Rightarrow> nat \<Rightarrow> 'n \<Rightarrow> recvmsg_outcome \<times> 'n"
  os_sendto :: "int \<Rightarrow> byte_buffer \<Rightarrow> byte_buffer \<Rightarrow> 'n \<Rightarrow> send_outcome \<times> 'n"
  os_shutdown :: "int \<Rightarrow> 'n \<Rightarrow> 'n"
  os_close :: "int \<Rightarrow> 'n \<Rightarrow> 'n"
  os_set_sndtimeo :: "int \<Rightarrow> int \<Rightarrow> int \<Rightarrow> 'n \<Rightarrow> errno option \<times> 'n"
  os_set_reuseaddr :: "int \<Rightarrow> 'n \<Rightarrow> 'n"
  os_so_error :: "int \<Rightarrow> 'n \<Rightarrow> (errno + errno option) \<times> 'n"
  os_getsockname :: "int \<Rightarrow> 'n \<Rightarrow> (errno + family \<times> u16) \<times> 'n"
  os_getaddrinfo :: "string option \<Rightarrow> string \<Rightarrow> bool \<Rightarrow> bool \<Rightarrow> 'n \<Rightarrow> (string + addrinfo list) \<times> 'n"
  os_socket :: "addrinfo \<Rightarrow> bool \<Rightarrow> 'n \<Rightarrow> (errno + int) \<times> 'n"
  os_bind :: "int \<Rightarrow> byte_buffer \<Rightarrow> 'n \<Rightarrow> errno option \<times> 'n"
  os_listen :: "int \<Rightarrow> int \<Rightarrow> 'n \<Rightarrow> errno option \<times> 'n"
  os_accept :: "int \<Rightarrow> 'n \<Rightarrow> (errno + int) \<times> 'n"
  os_connect :: "int \<Rightarrow> byte_buffer \<Rightarrow> 'n \<Rightarrow> errno option \<times> 'n"
  os_getfd :: "int \<Rightarrow> 'n \<Rightarrow> (errno + int) \<times> 'n"
  os_setfd :: "int \<Rightarrow> int \<Rightarrow> 'n \<Rightarrow> errno option \<times> 'n"
  os_getfl :: "int \<Rightarrow> 'n \<Rightarrow> (errno + int) \<times> 'n"
  os_setfl :: "int \<Rightarrow> int \<Rightarrow> 'n \<Rightarrow> errno option \<times> 'n"
  os_strerror :: "errno \<Rightarrow> string"

definition FD_CLOEXEC :: int where "FD_CLOEXEC = 1"
definition O_NONBLOCK :: int where "O_NONBLOCK = 0x800"

section \<open>Shared helpers\<close>

definition errno_message :: "'n os \<Rightarrow> string \<Rightarrow> errno \<Rightarrow> string" where
  "errno_message os operation error_number = operation @ '': '' @ os_strerror os error_number"

definition int_max :: int where "int_max = 2 ^ 31 - 1"

text \<open>The timeout for \<open>poll\<close>: what is left until the deadline, in milliseconds rounded up.\<close>

definition poll_timeout_ms :: "'n os \<Rightarrow> int \<Rightarrow> 'n \<Rightarrow> int \<times> 'n" where
  "poll_timeout_ms os deadline n =
     (let (now, n1) = os_now os n
      in if now \<ge> deadline then (0, n1)
         else let remaining = deadline - now;
                  milliseconds = remaining div 1000000;
                  v = (if milliseconds * 1000000 < remaining then milliseconds + 1 else milliseconds)
         in (min v int_max, n1))"

text \<open>The deadline of an operation: a negative timeout counts as none. (Timeouts are taken to be short
  enough that the sum is a time point of the clock.)\<close>

definition deadline_after :: "'n os \<Rightarrow> int \<Rightarrow> 'n \<Rightarrow> int \<times> 'n" where
  "deadline_after os timeout n =
     (let t = (if timeout < 0 then 0 else timeout); (now, n1) = os_now os n
      in (now + t * 1000000, n1))"

text \<open>\<open>what\<close> is the transport's name in the text of the exception.\<close>

definition socket_local_port :: "'n os \<Rightarrow> string \<Rightarrow> int \<Rightarrow> 'n \<Rightarrow> u16 result \<times> 'n" where
  "socket_local_port os what socket_fd n =
     (case os_getsockname os socket_fd n of
        (Inl e, n1) \<Rightarrow> (Inl (TransportError (errno_message os ''getsockname'' e)), n1)
      | (Inr (AF_INET, port), n1) \<Rightarrow> (Inr port, n1)
      | (Inr (AF_INET6, port), n1) \<Rightarrow> (Inr port, n1)
      | (Inr (AF_OTHER k, port), n1) \<Rightarrow>
          (Inl (TransportError (what @ '' socket has an unsupported address family'')), n1))"

section \<open>Properties\<close>

text \<open>The timeout never makes \<open>poll\<close> return before the deadline, unless it is capped, and asks for less
  than one millisecond too much.\<close>

lemma poll_timeout_ms_bounds:
  assumes "poll_timeout_ms os deadline n = (v, n')"
  shows "0 \<le> v \<and> v \<le> int_max \<and>
    (v < int_max \<longrightarrow> (\<exists>now. os_now os n = (now, n') \<and> (if now \<ge> deadline then v = 0
       else deadline \<le> now + v * 1000000 \<and> now + v * 1000000 < deadline + 1000000)))"
proof -
  obtain now n1 where now: "os_now os n = (now, n1)" by force
  have ceil: "r \<le> (if r div 1000000 * 1000000 < r then r div 1000000 + 1 else r div 1000000) * 1000000 \<and>
      (if r div 1000000 * 1000000 < r then r div 1000000 + 1 else r div 1000000) * 1000000 < r + 1000000"
    for r :: int
    by (auto; presburger)
  show ?thesis
    using assms now ceil [of "deadline - now"]
    by (auto simp: poll_timeout_ms_def Let_def int_max_def min_def split: if_splits)
qed

end
