(* ===== verification/Rml_Channel.thy ===== *)
theory Rml_Channel
  imports Rml_Frame
begin

text \<open>
  The interface between the transports and their users: a source of frames. Both transports offer a
  \<^verbatim>\<open>receive_frame\<close> with a timeout; the session manager and the bridge call it in a loop. The
  locale \<open>frame_source\<close> says what such a loop may rely on, for a transport that has the frames \<open>fs\<close> still to
  deliver: a frame that is returned is the first of them, and a call that returns without a frame
  loses nothing.
\<close>

section \<open>A receive loop\<close>

text \<open>
  The frames a sequence of calls returns, up to the first exception; \<open>q\<close> are the arguments of a
  call. The last component is the state after the calls, \<open>None\<close> when one of them threw or did
  not return.
\<close>

primrec collect :: "('q \<Rightarrow> 's \<Rightarrow> (frame option result \<times> 's) option) \<Rightarrow> 'q list \<Rightarrow> 's \<Rightarrow> frame list \<times> 's option" where
  "collect receive [] s = ([], Some s)"
| "collect receive (q # qs) s = (case receive q s of
       None \<Rightarrow> ([], None)
     | Some (Inl e, s1) \<Rightarrow> ([], None)
     | Some (Inr None, s1) \<Rightarrow> collect receive qs s1
     | Some (Inr (Some f), s1) \<Rightarrow> (case collect receive qs s1 of (fs, t) \<Rightarrow> (f # fs, t)))"

lemma result_option_cases:
  obtains e where "r = Inl e" | "r = Inr None" | v where "r = Inr (Some v)"
  by (metis not_None_eq obj_sumE)

section \<open>The contract\<close>

locale frame_source =
  fixes receive :: "'q \<Rightarrow> 's \<Rightarrow> (frame option result \<times> 's) option"
    and pending :: "'s \<Rightarrow> frame list \<Rightarrow> bool"
  assumes receive_first: "pending s fs \<Longrightarrow> receive q s = Some (Inr (Some f), s') \<Longrightarrow>
      \<exists>gs. fs = f # gs \<and> pending s' gs"
    and receive_nothing: "pending s fs \<Longrightarrow> receive q s = Some (Inr None, s') \<Longrightarrow> pending s' fs"
begin

lemma collect_in_order:
  "pending s fs \<Longrightarrow> collect receive qs s = (gs, t) \<Longrightarrow>
     \<exists>rest. fs = gs @ rest \<and> (\<forall>s'. t = Some s' \<longrightarrow> pending s' rest)"
proof (induction qs arbitrary: s fs gs)
  case Nil
  then show ?case by auto
next
  case (Cons q qs)
  show ?case
  proof (cases "receive q s")
    case None
    then show ?thesis using Cons.prems by auto
  next
    case (Some res)
    obtain r s1 where res: "res = (r, s1)" by force
    show ?thesis
    proof (cases r rule: result_option_cases)
      case 1
      then show ?thesis using Cons.prems Some res by auto
    next
      case 2
      then show ?thesis
        using Cons.IH [OF receive_nothing [OF Cons.prems(1)]] Cons.prems(2) Some res by auto
    next
      case (3 f)
      then obtain fs' where fs: "fs = f # fs'" "pending s1 fs'"
        using receive_first [OF Cons.prems(1)] Some res by blast
      then show ?thesis
        using Cons.IH [OF fs(2)] Cons.prems(2) Some res 3 by (auto split: prod.splits)
    qed
  qed
qed

end

section \<open>The sending side\<close>

text \<open>The other end: \<open>written s fs\<close> says that the frames \<open>fs\<close> are all that has gone into the channel. A call of
  \<^verbatim>\<open>send_frame\<close> that returns has added its frame.\<close>

locale frame_sink =
  fixes send :: "'q \<Rightarrow> frame \<Rightarrow> 's \<Rightarrow> (unit result \<times> 's) option"
    and written :: "'s \<Rightarrow> frame list \<Rightarrow> bool"
  assumes send_appends: "written s fs \<Longrightarrow> send q f s = Some (Inr (), s') \<Longrightarrow> written s' (fs @ [f])"

text \<open>A connection is used in both directions: what it reads does not disturb what it has written.\<close>

locale frame_link = frame_sink send written
  for send :: "'q \<Rightarrow> frame \<Rightarrow> 's \<Rightarrow> (unit result \<times> 's) option" and written :: "'s \<Rightarrow> frame list \<Rightarrow> bool" +
  fixes receive :: "'p \<Rightarrow> 's \<Rightarrow> (frame option result \<times> 's) option"
  assumes receive_keeps: "written s fs \<Longrightarrow> receive q s = Some (Inr fo, s') \<Longrightarrow> written s' fs"

section \<open>Frames on the wire\<close>

text \<open>A frame the limits allow to be encoded.\<close>

definition sendable :: "frame_limits \<Rightarrow> frame \<Rightarrow> bool" where
  "sendable lim f \<longleftrightarrow> frame_ok f \<and> is_ok (encode_frame f lim)"

definition wire_image :: "frame list \<Rightarrow> byte_buffer" where
  "wire_image fs = concat (map frame_image fs)"

lemma wire_image_simps [simp]:
  "wire_image [] = []" "wire_image (f # fs) = frame_image f @ wire_image fs"
  by (simp_all add: wire_image_def)

lemma sendable_encodes: "sendable lim f \<Longrightarrow> encode_frame f lim = Inr (frame_image f)"
  unfolding sendable_def by (metis encode_frame_Inr is_ok_iff)

lemma sendable_decodes: "sendable lim f \<Longrightarrow> decode_frame (Span (frame_image f)) lim = Inr f"
  using encode_frame_Inr decode_frame_image sendable_encodes unfolding sendable_def by metis

lemma sendable_image_size:
  assumes "sendable lim f"
  shows "length (frame_image f) < 2 ^ 64" and "56 \<le> length (frame_image f)"
    and "frame_size_from_header (Span (take 56 (frame_image f))) lim = Inr (size_of (frame_image f))"
proof -
  obtain n where n: "checked_frame_size (size_of (fr_topic f)) (size_of (fr_payload f)) lim = Inr n"
    using encode_frame_Inr sendable_encodes [OF assms] assms unfolding sendable_def by metis
  have ok: "frame_ok f" using assms by (simp add: sendable_def)
  show "length (frame_image f) < 2 ^ 64" using frame_image_fits(1) [OF ok n] by (simp add: fits_def)
  show "56 \<le> length (frame_image f)" by (simp add: frame_image_def)
  show "frame_size_from_header (Span (take 56 (frame_image f))) lim = Inr (size_of (frame_image f))"
    using header_announces_size [OF ok sendable_encodes [OF assms], of "[]"] by (simp add: fits_def)
qed

end
