(* ===== verification/Rml_Udp.thy ===== *)
theory Rml_Udp
  imports Rml_Socket Rml_Channel
begin

text \<open>
  The UDP transport (\<^verbatim>\<open>transport/udp_transport.hpp\<close>,
  \<^verbatim>\<open>src/transport/udp_transport.cpp\<close>): one frame per datagram, with truncation detected and
  oversized frames refused. System calls and the bounds on loops are as in the TCP transport.
\<close>

section \<open>State\<close>

record udp_options =
  uo_max_datagram_size :: size_t
  uo_frame_limits :: frame_limits

definition default_udp_options :: udp_options where
  "default_udp_options = \<lparr>uo_max_datagram_size = 1400, uo_frame_limits = default_limits\<rparr>"

text \<open>The destination is the address that is copied; its length is \<^verbatim>\<open>destination_length_\<close>.\<close>

record udp_sender =
  us_socket_fd :: int
  us_destination :: byte_buffer
  us_options :: udp_options

record udp_receiver =
  ur_socket_fd :: int
  ur_options :: udp_options

definition kMaximumUdpPayload :: size_t where "kMaximumUdpPayload = 65507"

definition validate_udp_options :: "udp_options \<Rightarrow> unit result" where
  "validate_udp_options options =
     (if uo_max_datagram_size options < ucast kHeaderSize
      then Inl (TransportError ''UDP maximum datagram size must fit the 56-byte frame header'')
      else if uo_max_datagram_size options > kMaximumUdpPayload
      then Inl (TransportError ''UDP maximum datagram size exceeds the IPv4 UDP payload limit'')
      else if uo_max_datagram_size options > 0x7FFFFFFFFFFFFFFF
      then Inl (TransportError ''UDP maximum datagram size exceeds ssize_t'')
      else Inr ())"

section \<open>The sender\<close>

definition sockaddr_storage_size :: nat where "sockaddr_storage_size = 128"

text \<open>The first address that fits and for which a socket can be made.\<close>

primrec find_destination :: "'n os \<Rightarrow> addrinfo list \<Rightarrow> 'n \<Rightarrow> (int \<times> byte_buffer) option \<times> 'n" where
  "find_destination os [] n = (None, n)"
| "find_destination os (address # rest) n =
     (if length (ai_addr address) > sockaddr_storage_size then find_destination os rest n
      else (case os_socket os address False n of
          (Inl e, n1) \<Rightarrow> find_destination os rest n1
        | (Inr candidate, n1) \<Rightarrow> (Some (candidate, ai_addr address), n1)))"

definition udp_sender_new :: "'n os \<Rightarrow> string \<Rightarrow> u16 \<Rightarrow> udp_options \<Rightarrow> 'n \<Rightarrow> udp_sender result \<times> 'n" where
  "udp_sender_new os host port options n =
     (case validate_udp_options options of
        Inl e \<Rightarrow> (Inl e, n)
      | Inr _ \<Rightarrow>
          if host = [] then (Inl (TransportError ''UDP destination host must not be empty''), n)
          else (case os_getaddrinfo os (Some host) (to_string (unat port)) False False n of
              (Inl msg, n1) \<Rightarrow> (Inl (TransportError (''getaddrinfo for UDP destination: '' @ msg)), n1)
            | (Inr addresses, n1) \<Rightarrow> (case find_destination os addresses n1 of
                  (None, n2) \<Rightarrow> (Inl (TransportError ''could not create a UDP sender socket''), n2)
                | (Some (fd, dest), n2) \<Rightarrow>
                    (Inr \<lparr>us_socket_fd = fd, us_destination = dest, us_options = options\<rparr>, n2))))"

definition udp_sender_close :: "'n os \<Rightarrow> udp_sender \<Rightarrow> 'n \<Rightarrow> udp_sender \<times> 'n" where
  "udp_sender_close os s n =
     (if us_socket_fd s \<ge> 0 then (s\<lparr>us_socket_fd := -1\<rparr>, os_close os (us_socket_fd s) n) else (s, n))"

definition udp_sender_move :: "udp_sender \<Rightarrow> udp_sender \<times> udp_sender" where
  "udp_sender_move other = (other, other\<lparr>us_socket_fd := -1, us_destination := []\<rparr>)"

definition udp_sender_move_assign ::
  "'n os \<Rightarrow> udp_sender \<Rightarrow> udp_sender \<Rightarrow> 'n \<Rightarrow> udp_sender \<times> udp_sender \<times> 'n" where
  "udp_sender_move_assign os this other n =
     (case udp_sender_move other of (new, moved) \<Rightarrow> (new, moved, snd (udp_sender_close os this n)))"

primrec sendto_loop :: "nat \<Rightarrow> 'n os \<Rightarrow> udp_sender \<Rightarrow> byte_buffer \<Rightarrow> 'n \<Rightarrow> (unit result \<times> 'n) option" where
  "sendto_loop 0 os s data n = None"
| "sendto_loop (Suc fuel) os s data n =
     (case os_sendto os (us_socket_fd s) data (us_destination s) n of
        (SendFailed e, n1) \<Rightarrow>
          if e = EINTR then sendto_loop fuel os s data n1
          else Some (Inl (TransportError (errno_message os ''sendto UDP socket'' e)), n1)
      | (Sent k, n1) \<Rightarrow>
          if k \<noteq> length data
          then Some (Inl (TransportError ''sendto performed a partial UDP datagram send''), n1)
          else Some (Inr (), n1))"

definition send_datagram :: "nat \<Rightarrow> 'n os \<Rightarrow> span \<Rightarrow> udp_sender \<Rightarrow> 'n \<Rightarrow> (unit result \<times> 'n) option" where
  "send_datagram fuel os sp s n =
     (if us_socket_fd s < 0 then Some (Inl (TransportError ''UDP sender is closed''), n)
      else if (case sp of Null sz \<Rightarrow> sz \<noteq> 0 | Span data \<Rightarrow> False)
      then Some (Inl (TransportError ''UDP datagram data pointer is null''), n)
      else if span_size sp > uo_max_datagram_size (us_options s)
      then Some (Inl (TransportError ''UDP datagram exceeds configured maximum size''), n)
      else sendto_loop fuel os s (span_bytes sp) n)"

definition udp_send_frame :: "nat \<Rightarrow> 'n os \<Rightarrow> frame \<Rightarrow> udp_sender \<Rightarrow> 'n \<Rightarrow> (unit result \<times> 'n) option" where
  "udp_send_frame fuel os f s n =
     (case encode_frame f (uo_frame_limits (us_options s)) of
        Inl e \<Rightarrow> Some (Inl e, n)
      | Inr encoded \<Rightarrow> send_datagram fuel os (Span encoded) s n)"

section \<open>The receiver\<close>

primrec try_udp_bind :: "'n os \<Rightarrow> addrinfo list \<Rightarrow> errno option \<Rightarrow> 'n \<Rightarrow> (errno option + int) \<times> 'n" where
  "try_udp_bind os [] last_error n = (Inl last_error, n)"
| "try_udp_bind os (address # rest) last_error n =
     (case os_socket os address False n of
        (Inl e, n1) \<Rightarrow> try_udp_bind os rest (Some e) n1
      | (Inr candidate, n1) \<Rightarrow>
          let n2 = os_set_reuseaddr os candidate n1
          in (case os_bind os candidate (ai_addr address) n2 of
                (None, n3) \<Rightarrow> (Inr candidate, n3)
              | (Some e, n3) \<Rightarrow> try_udp_bind os rest (Some e) (os_close os candidate n3)))"

definition udp_receiver_new :: "'n os \<Rightarrow> string \<Rightarrow> u16 \<Rightarrow> udp_options \<Rightarrow> 'n \<Rightarrow> udp_receiver result \<times> 'n" where
  "udp_receiver_new os bind_address port options n =
     (case validate_udp_options options of
        Inl e \<Rightarrow> (Inl e, n)
      | Inr _ \<Rightarrow> (case os_getaddrinfo os (if bind_address = [] then None else Some bind_address)
               (to_string (unat port)) False True n of
            (Inl msg, n1) \<Rightarrow> (Inl (TransportError (''getaddrinfo for UDP bind: '' @ msg)), n1)
          | (Inr addresses, n1) \<Rightarrow> (case try_udp_bind os addresses None n1 of
                (Inr fd, n2) \<Rightarrow> (Inr \<lparr>ur_socket_fd = fd, ur_options = options\<rparr>, n2)
              | (Inl (Some e), n2) \<Rightarrow> (Inl (TransportError (errno_message os ''bind UDP socket'' e)), n2)
              | (Inl None, n2) \<Rightarrow> (Inl (TransportError ''could not create a UDP receiver socket''), n2))))"

definition udp_receiver_new_any :: "'n os \<Rightarrow> u16 \<Rightarrow> udp_options \<Rightarrow> 'n \<Rightarrow> udp_receiver result \<times> 'n" where
  "udp_receiver_new_any os port options n = udp_receiver_new os [] port options n"

definition udp_receiver_close :: "'n os \<Rightarrow> udp_receiver \<Rightarrow> 'n \<Rightarrow> udp_receiver \<times> 'n" where
  "udp_receiver_close os r n =
     (if ur_socket_fd r \<ge> 0 then (r\<lparr>ur_socket_fd := -1\<rparr>, os_close os (ur_socket_fd r) n) else (r, n))"

definition udp_receiver_move :: "udp_receiver \<Rightarrow> udp_receiver \<times> udp_receiver" where
  "udp_receiver_move other = (other, other\<lparr>ur_socket_fd := -1\<rparr>)"

definition udp_receiver_move_assign ::
  "'n os \<Rightarrow> udp_receiver \<Rightarrow> udp_receiver \<Rightarrow> 'n \<Rightarrow> udp_receiver \<times> udp_receiver \<times> 'n" where
  "udp_receiver_move_assign os this other n =
     (case udp_receiver_move other of (new, moved) \<Rightarrow> (new, moved, snd (udp_receiver_close os this n)))"

definition udp_socket_local_port :: "'n os \<Rightarrow> int \<Rightarrow> 'n \<Rightarrow> u16 result \<times> 'n" where
  "udp_socket_local_port os socket_fd n = socket_local_port os ''UDP'' socket_fd n"

definition udp_local_port :: "'n os \<Rightarrow> udp_receiver \<Rightarrow> 'n \<Rightarrow> u16 result \<times> 'n" where
  "udp_local_port os r n =
     (if ur_socket_fd r < 0 then (Inl (TransportError ''UDP receiver is closed''), n)
      else udp_socket_local_port os (ur_socket_fd r) n)"

primrec wait_readable :: "nat \<Rightarrow> 'n os \<Rightarrow> int \<Rightarrow> int \<Rightarrow> 'n \<Rightarrow> (bool result \<times> 'n) option" where
  "wait_readable 0 os socket_fd deadline n = None"
| "wait_readable (Suc fuel) os socket_fd deadline n =
     (let (timeout, n1) = poll_timeout_ms os deadline n
      in (case os_poll os socket_fd POLLIN timeout n1 of
            (PollTimeout, n2) \<Rightarrow> Some (Inr False, n2)
          | (PollFailed e, n2) \<Rightarrow>
              if e = EINTR
              then (let (now, n3) = os_now os n2
                    in if now \<ge> deadline then Some (Inr False, n3) else wait_readable fuel os socket_fd deadline n3)
              else Some (Inl (TransportError (errno_message os ''poll UDP socket'' e)), n2)
          | (PollReady revents, n2) \<Rightarrow>
              if revents AND POLLNVAL \<noteq> 0
              then Some (Inl (TransportError ''poll reported an invalid UDP socket''), n2)
              else if revents AND POLLERR \<noteq> 0
              then (case os_so_error os socket_fd n2 of
                  (Inr (Some e), n3) \<Rightarrow> Some (Inl (TransportError (errno_message os ''UDP socket error'' e)), n3)
                | (_, n3) \<Rightarrow> Some (Inl (TransportError ''poll reported a UDP socket error''), n3))
              else if revents AND POLLIN \<noteq> 0 then Some (Inr True, n2)
              else wait_readable fuel os socket_fd deadline n2))"

primrec recvmsg_loop ::
  "nat \<Rightarrow> nat \<Rightarrow> 'n os \<Rightarrow> int \<Rightarrow> udp_receiver \<Rightarrow> 'n \<Rightarrow> (frame option result \<times> 'n) option" where
  "recvmsg_loop 0 pf os deadline r n = None"
| "recvmsg_loop (Suc fuel) pf os deadline r n =
     (case wait_readable pf os (ur_socket_fd r) deadline n of
        None \<Rightarrow> None
      | Some (Inl e, n1) \<Rightarrow> Some (Inl e, n1)
      | Some (Inr False, n1) \<Rightarrow> Some (Inr None, n1)
      | Some (Inr True, n1) \<Rightarrow>
          (case os_recvmsg os (ur_socket_fd r) (unat (uo_max_datagram_size (ur_options r))) n1 of
             (RecvmsgFailed e, n2) \<Rightarrow>
               if e = EINTR \<or> e = EAGAIN \<or> e = EWOULDBLOCK
               then (let (now, n3) = os_now os n2
                     in if now \<ge> deadline then Some (Inr None, n3) else recvmsg_loop fuel pf os deadline r n3)
               else Some (Inl (TransportError (errno_message os ''recvmsg UDP socket'' e)), n2)
           | (Datagram data truncated, n2) \<Rightarrow>
               if truncated
               then Some (Inl (TransportError ''received UDP datagram exceeds configured maximum size''), n2)
               else Some (rbind (decode_frame (Span data) (uo_frame_limits (ur_options r))) (\<lambda>f. Inr (Some f)), n2)))"

definition udp_receive_frame ::
  "nat \<Rightarrow> nat \<Rightarrow> 'n os \<Rightarrow> int \<Rightarrow> udp_receiver \<Rightarrow> 'n \<Rightarrow> (frame option result \<times> 'n) option" where
  "udp_receive_frame fuel pf os timeout r n =
     (if ur_socket_fd r < 0 then Some (Inl (TransportError ''UDP receiver is closed''), n)
      else let (deadline, n1) = deadline_after os timeout n in recvmsg_loop fuel pf os deadline r n1)"

section \<open>Datagrams\<close>

text \<open>
  What the kernel promises of a bound datagram socket: \<open>queue n\<close> are the datagrams waiting on
  descriptor \<open>fd\<close>. \<open>recvmsg\<close> takes the first of them, cuts it to the size of the buffer and says
  whether it had to; no other call of the receive path takes any.
\<close>

definition udp_socket :: "'n os \<Rightarrow> int \<Rightarrow> ('n \<Rightarrow> byte_buffer list) \<Rightarrow> bool" where
  "udp_socket os fd queue \<longleftrightarrow>
     (\<forall>n. queue (snd (os_now os n)) = queue n) \<and>
     (\<forall>ev t n. queue (snd (os_poll os fd ev t n)) = queue n) \<and>
     (\<forall>n. queue (snd (os_so_error os fd n)) = queue n) \<and>
     (\<forall>k n bs tr n'. os_recvmsg os fd k n = (Datagram bs tr, n') \<longrightarrow>
        (\<exists>d. queue n = d # queue n' \<and> bs = take k d \<and> tr = (length d > k))) \<and>
     (\<forall>k n e n'. os_recvmsg os fd k n = (RecvmsgFailed e, n') \<longrightarrow> queue n' = queue n)"

lemma udp_socketD:
  assumes "udp_socket os fd queue"
  shows "os_now os n = (t, n') \<Longrightarrow> queue n' = queue n"
    and "os_poll os fd ev tm n = (p, n') \<Longrightarrow> queue n' = queue n"
    and "os_so_error os fd n = (so, n') \<Longrightarrow> queue n' = queue n"
    and "os_recvmsg os fd k n = (Datagram bs tr, n') \<Longrightarrow> \<exists>d. queue n = d # queue n' \<and> bs = take k d \<and> tr = (length d > k)"
    and "os_recvmsg os fd k n = (RecvmsgFailed e, n') \<Longrightarrow> queue n' = queue n"
  using assms unfolding udp_socket_def by (metis snd_conv)+

lemma wait_readable_queue:
  assumes "udp_socket os fd queue"
  shows "wait_readable pf os fd d n = Some (r, n') \<Longrightarrow> queue n' = queue n"
proof (induction pf arbitrary: n)
  case (Suc pf)
  note D = udp_socketD [OF assms]
  obtain v n1 where v: "poll_timeout_ms os d n = (v, n1)" by force
  obtain p n2 where p: "os_poll os fd POLLIN v n1 = (p, n2)" by force
  obtain now n3 where now: "os_now os n2 = (now, n3)" by force
  obtain so n4 where so: "os_so_error os fd n2 = (so, n4)" by force
  have "queue n1 = queue n"
    using v D(1) by (cases "os_now os n") (auto simp: poll_timeout_ms_def Let_def split: if_splits)
  then have same: "queue n2 = queue n" "queue n3 = queue n" "queue n4 = queue n"
    using D(2) [OF p] D(1) [OF now] D(3) [OF so] by simp_all
  show ?case
  proof (cases p)
    case (PollFailed e)
    then show ?thesis using Suc v p now same by (auto split: if_splits)
  next
    case (PollReady revents)
    then show ?thesis
      using Suc v p so same by (auto split: if_splits sum.splits option.splits)
  qed (use Suc.prems v p same in auto)
qed simp

text \<open>What a receiver makes of one datagram.\<close>

definition datagram_result :: "udp_options \<Rightarrow> byte_buffer \<Rightarrow> frame option result" where
  "datagram_result options d =
     (if length d > unat (uo_max_datagram_size options)
      then Inl (TransportError ''received UDP datagram exceeds configured maximum size'')
      else rbind (decode_frame (Span d) (uo_frame_limits options)) (\<lambda>f. Inr (Some f)))"

lemma recvmsg_loop_queue:
  assumes "udp_socket os (ur_socket_fd r) queue"
  shows "recvmsg_loop fuel pf os d r n = Some (res, n') \<Longrightarrow>
    queue n' = queue n \<and> (\<forall>f. res \<noteq> Inr (Some f)) \<or>
    (\<exists>dg. queue n = dg # queue n' \<and> res = datagram_result (ur_options r) dg)"
proof (induction fuel arbitrary: n)
  case (Suc fuel)
  note D = udp_socketD [OF assms]
  obtain w n1 where wait: "wait_readable pf os (ur_socket_fd r) d n = Some (w, n1)"
    using Suc.prems by (auto split: option.splits)
  note n1 = wait_readable_queue [OF assms wait]
  obtain mr n2 where msg: "os_recvmsg os (ur_socket_fd r) (unat (uo_max_datagram_size (ur_options r))) n1 = (mr, n2)"
    by force
  obtain now n3 where now: "os_now os n2 = (now, n3)" by force
  show ?case
  proof (cases "w = Inr True")
    case False
    then show ?thesis using Suc.prems wait n1 by (cases w) auto
  next
    case True
    show ?thesis
    proof (cases mr)
      case (Datagram bs tr)
      then obtain dg where dg: "queue n = dg # queue n2" "bs = take (unat (uo_max_datagram_size (ur_options r))) dg"
        "tr = (length dg > unat (uo_max_datagram_size (ur_options r)))"
        using D(4) msg n1 by metis
      then have "res = datagram_result (ur_options r) dg \<and> n' = n2"
        using Suc.prems wait True msg Datagram by (auto simp: datagram_result_def split: if_splits)
      then show ?thesis using dg(1) by blast
    next
      case (RecvmsgFailed e)
      have same: "queue n2 = queue n" "queue n3 = queue n" using D(5) msg RecvmsgFailed n1 D(1) [OF now] by auto
      then show ?thesis
        using Suc.prems Suc.IH [of n3] wait True msg RecvmsgFailed now by (auto split: if_splits)
    qed
  qed
qed simp

lemma udp_receive_queue:
  assumes "udp_socket os (ur_socket_fd r) queue"
    and "udp_receive_frame fuel pf os timeout r n = Some (res, n')"
  shows "queue n' = queue n \<and> (\<forall>f. res \<noteq> Inr (Some f)) \<or>
    (\<exists>dg. queue n = dg # queue n' \<and> res = datagram_result (ur_options r) dg)"
proof (cases "ur_socket_fd r < 0")
  case True
  then show ?thesis using assms(2) by (auto simp: udp_receive_frame_def)
next
  case False
  obtain d n1 where d: "deadline_after os timeout n = (d, n1)" by force
  have "queue n1 = queue n"
    using d udp_socketD(1) [OF assms(1)] by (cases "os_now os n") (auto simp: deadline_after_def Let_def)
  then show ?thesis
    using recvmsg_loop_queue [OF assms(1), of fuel pf d n1 res n'] assms(2) d False by (simp add: udp_receive_frame_def)
qed

section \<open>A source of frames\<close>

definition udp_pending :: "'n os \<Rightarrow> udp_receiver \<times> 'n \<Rightarrow> frame list \<Rightarrow> bool" where
  "udp_pending os s fs \<longleftrightarrow> (\<exists>queue. udp_socket os (ur_socket_fd (fst s)) queue \<and>
     queue (snd s) = map frame_image fs \<and>
     (\<forall>f \<in> set fs. sendable (uo_frame_limits (ur_options (fst s))) f \<and>
        length (frame_image f) \<le> unat (uo_max_datagram_size (ur_options (fst s)))))"

definition udp_source ::
  "'n os \<Rightarrow> nat \<times> nat \<times> int \<Rightarrow> udp_receiver \<times> 'n \<Rightarrow> (frame option result \<times> udp_receiver \<times> 'n) option" where
  "udp_source os q s = (case q of (fuel, pf, timeout) \<Rightarrow>
     map_option (\<lambda>(res, n'). (res, fst s, n')) (udp_receive_frame fuel pf os timeout (fst s) (snd s)))"

lemma datagram_result_image:
  assumes "sendable (uo_frame_limits options) f" and "length (frame_image f) \<le> unat (uo_max_datagram_size options)"
  shows "datagram_result options (frame_image f) = Inr (Some f)"
  using assms sendable_decodes by (simp add: datagram_result_def)

lemma udp_receive_pending:
  assumes "udp_pending os (r, n) fs" and "udp_receive_frame fuel pf os timeout r n = Some (Inr fo, n')"
  shows "case fo of None \<Rightarrow> udp_pending os (r, n') fs | Some f \<Rightarrow> \<exists>gs. fs = f # gs \<and> udp_pending os (r, n') gs"
proof -
  obtain queue where socket: "udp_socket os (ur_socket_fd r) queue" and queue: "queue n = map frame_image fs"
    and ok: "\<forall>f \<in> set fs. sendable (uo_frame_limits (ur_options r)) f \<and>
        length (frame_image f) \<le> unat (uo_max_datagram_size (ur_options r))"
    using assms(1) by (auto simp: udp_pending_def)
  show ?thesis
    using udp_receive_queue [OF socket assms(2)]
  proof
    assume same: "queue n' = queue n \<and> (\<forall>f. Inr fo \<noteq> Inr (Some f))"
    then show ?thesis using socket queue ok by (cases fo) (auto simp: udp_pending_def)
  next
    assume "\<exists>dg. queue n = dg # queue n' \<and> Inr fo = datagram_result (ur_options r) dg"
    then obtain f gs where fs: "fs = f # gs" "queue n' = map frame_image gs"
      "Inr fo = datagram_result (ur_options r) (frame_image f)"
      using queue by (cases fs) auto
    then show ?thesis
      using ok socket datagram_result_image [of "ur_options r" f] by (auto simp: udp_pending_def)
  qed
qed

interpretation udp: frame_source "udp_source os" "udp_pending os" for os :: "'n os"
proof unfold_locales
  fix s s' :: "udp_receiver \<times> 'n" and fs q f
  assume "udp_pending os s fs" "udp_source os q s = Some (Inr (Some f), s')"
  then show "\<exists>gs. fs = f # gs \<and> udp_pending os s' gs"
    using udp_receive_pending [of os "fst s" "snd s" fs _ _ _ "Some f"]
    by (auto simp: udp_source_def split: prod.splits)
next
  fix s s' :: "udp_receiver \<times> 'n" and fs q
  assume "udp_pending os s fs" "udp_source os q s = Some (Inr None, s')"
  then show "udp_pending os s' fs"
    using udp_receive_pending [of os "fst s" "snd s" fs _ _ _ None]
    by (auto simp: udp_source_def split: prod.splits)
qed

section \<open>Progress\<close>

text \<open>A socket whose datagrams are at hand: \<open>poll\<close> reports it readable exactly as long as one waits, and then
  \<open>recvmsg\<close> takes it.\<close>

definition udp_ready :: "'n os \<Rightarrow> int \<Rightarrow> ('n \<Rightarrow> byte_buffer list) \<Rightarrow> bool" where
  "udp_ready os fd queue \<longleftrightarrow> udp_socket os fd queue \<and>
     (\<forall>t n. if queue n = [] then \<exists>n'. os_poll os fd POLLIN t n = (PollTimeout, n')
        else \<exists>rv n'. os_poll os fd POLLIN t n = (PollReady rv, n') \<and> rv AND POLLNVAL = 0 \<and> rv AND POLLERR = 0 \<and>
          rv AND POLLIN \<noteq> 0) \<and>
     (\<forall>k n. queue n \<noteq> [] \<longrightarrow> (\<exists>bs tr n'. os_recvmsg os fd k n = (Datagram bs tr, n')))"

lemma wait_readable_ready:
  assumes "udp_ready os fd queue" and "0 < pf"
  obtains n' where "wait_readable pf os fd d n = Some (Inr (queue n \<noteq> []), n')" "queue n' = queue n"
proof -
  have socket: "udp_socket os fd queue" using assms(1) by (simp add: udp_ready_def)
  obtain k where k: "pf = Suc k" using assms(2) gr0_implies_Suc by blast
  obtain v n1 where v: "poll_timeout_ms os d n = (v, n1)" by force
  have n1: "queue n1 = queue n"
    using v udp_socketD(1) [OF socket] by (cases "os_now os n") (auto simp: poll_timeout_ms_def Let_def split: if_splits)
  have "\<exists>n'. wait_readable pf os fd d n = Some (Inr (queue n \<noteq> []), n')"
  proof (cases "queue n = []")
    case True
    then obtain n2 where "os_poll os fd POLLIN v n1 = (PollTimeout, n2)"
      using assms(1) n1 unfolding udp_ready_def by metis
    then show ?thesis using k v True by simp
  next
    case False
    then obtain rv n2 where "os_poll os fd POLLIN v n1 = (PollReady rv, n2)" "rv AND POLLNVAL = 0" "rv AND POLLERR = 0"
      "rv AND POLLIN \<noteq> 0"
      using assms(1) n1 unfolding udp_ready_def by metis
    then show ?thesis using k v False by simp
  qed
  then show thesis using that wait_readable_queue [OF socket] by blast
qed

lemma udp_receive_ready:
  assumes ready: "udp_ready os (ur_socket_fd r) queue" and "0 \<le> ur_socket_fd r" and "0 < fuel" and "0 < pf"
  shows "\<exists>n'. udp_receive_frame fuel pf os timeout r n =
      Some (case queue n of [] \<Rightarrow> Inr None | dg # _ \<Rightarrow> datagram_result (ur_options r) dg, n') \<and> queue n' = tl (queue n)"
proof -
  have socket: "udp_socket os (ur_socket_fd r) queue" using ready by (simp add: udp_ready_def)
  obtain k where k: "fuel = Suc k" using assms(3) gr0_implies_Suc by blast
  obtain d n0 where d: "deadline_after os timeout n = (d, n0)" by force
  have n0: "queue n0 = queue n"
    using d udp_socketD(1) [OF socket] by (cases "os_now os n") (auto simp: deadline_after_def Let_def)
  obtain n1 where wait: "wait_readable pf os (ur_socket_fd r) d n0 = Some (Inr (queue n0 \<noteq> []), n1)" "queue n1 = queue n0"
    using wait_readable_ready [OF ready assms(4)] by blast
  show ?thesis
  proof (cases "queue n")
    case Nil
    then show ?thesis using k d n0 wait assms(2) by (simp add: udp_receive_frame_def)
  next
    case (Cons dg dgs)
    let ?k = "unat (uo_max_datagram_size (ur_options r))"
    obtain bs tr n2 where msg: "os_recvmsg os (ur_socket_fd r) ?k n1 = (Datagram bs tr, n2)"
      using ready wait(2) n0 Cons unfolding udp_ready_def by fastforce
    then have "dg # dgs = dg # queue n2" "bs = take ?k dg" "tr = (length dg > ?k)"
      using udp_socketD(4) [OF socket msg] wait(2) n0 Cons by auto
    then show ?thesis
      using k d n0 wait msg Cons assms(2) by (auto simp: udp_receive_frame_def datagram_result_def)
  qed
qed

section \<open>Sending datagrams\<close>

text \<open>\<open>sent n\<close> are the datagrams handed to the network from descriptor \<open>fd\<close>, with their destination: a call
  hands over one, or fails and hands over none.\<close>

definition udp_sink :: "'n os \<Rightarrow> int \<Rightarrow> ('n \<Rightarrow> (byte_buffer \<times> byte_buffer) list) \<Rightarrow> bool" where
  "udp_sink os fd sent \<longleftrightarrow>
     (\<forall>data dest n k n'. os_sendto os fd data dest n = (Sent k, n') \<longrightarrow> sent n' = sent n @ [(dest, take k data)]) \<and>
     (\<forall>data dest n e n'. os_sendto os fd data dest n = (SendFailed e, n') \<longrightarrow> sent n' = sent n)"

lemma sendto_loop_sink:
  assumes "udp_sink os (us_socket_fd s) sent"
  shows "sendto_loop fuel os s data n = Some (Inr (), n') \<Longrightarrow> sent n' = sent n @ [(us_destination s, data)]"
proof (induction fuel arbitrary: n)
  case (Suc fuel)
  obtain so n1 where send: "os_sendto os (us_socket_fd s) data (us_destination s) n = (so, n1)" by force
  show ?case
  proof (cases so)
    case (Sent k)
    then have "sent n1 = sent n @ [(us_destination s, take k data)]" using assms send unfolding udp_sink_def by blast
    then show ?thesis using Suc.prems send Sent by (auto split: if_splits)
  next
    case (SendFailed e)
    then have "sent n1 = sent n" using assms send unfolding udp_sink_def by blast
    then show ?thesis using Suc send SendFailed by (auto split: if_splits)
  qed
qed simp

text \<open>The sender is a sink of frames: one datagram for each.\<close>

definition udp_send :: "'n os \<Rightarrow> nat \<Rightarrow> frame \<Rightarrow> udp_sender \<times> 'n \<Rightarrow> (unit result \<times> udp_sender \<times> 'n) option" where
  "udp_send os fuel f s = (case udp_send_frame fuel os f (fst s) (snd s) of
     None \<Rightarrow> None | Some (r, n) \<Rightarrow> Some (r, fst s, n))"

definition udp_written :: "'n os \<Rightarrow> ('n \<Rightarrow> (byte_buffer \<times> byte_buffer) list) \<Rightarrow> udp_sender \<times> 'n \<Rightarrow> frame list \<Rightarrow> bool" where
  "udp_written os sent s fs \<longleftrightarrow> udp_sink os (us_socket_fd (fst s)) sent \<and>
     ((\<forall>f \<in> set fs. frame_ok f) \<longrightarrow> map snd (sent (snd s)) = map frame_image fs)"

interpretation udp_link: frame_sink "udp_send os" "udp_written os sent" for os :: "'n os" and sent
proof unfold_locales
  fix x x' :: "udp_sender \<times> 'n" and fs fuel f
  assume written: "udp_written os sent x fs" and run: "udp_send os fuel f x = Some (Inr (), x')"
  obtain s n where x: "x = (s, n)" by force
  then obtain n' where send: "udp_send_frame fuel os f s n = Some (Inr (), n')" and x': "x' = (s, n')"
    using run by (auto simp: udp_send_def split: option.splits)
  then obtain bs where bs: "encode_frame f (uo_frame_limits (us_options s)) = Inr bs"
    "sendto_loop fuel os s bs n = Some (Inr (), n')"
    by (auto simp: udp_send_frame_def send_datagram_def split: sum.splits if_splits)
  have "sent n' = sent n @ [(us_destination s, bs)]"
    using sendto_loop_sink [OF _ bs(2)] written x by (simp add: udp_written_def)
  moreover have "bs = frame_image f" if "frame_ok f" using that bs(1) encode_frame_Inr by blast
  ultimately show "udp_written os sent x' (fs @ [f])" using written x x' by (auto simp: udp_written_def)
qed

section \<open>Properties of the datagram transport\<close>

text \<open>One frame per datagram: whatever datagrams arrive, a call of \<^verbatim>\<open>receive_frame\<close> either takes
  none of them and returns no frame, or takes exactly the first one and reports on it alone: it
  throws if the datagram did not fit the buffer, and otherwise does what \<^verbatim>\<open>decode_frame\<close> does
  on all of its bytes. A bad datagram never affects the next one.\<close>

theorem udp_one_frame_per_datagram:
  assumes "udp_socket os (ur_socket_fd r) queue"
    and "udp_receive_frame fuel pf os timeout r n = Some (res, n')"
  shows "queue n' = queue n \<and> (\<forall>f. res \<noteq> Inr (Some f)) \<or>
    (\<exists>dg. queue n = dg # queue n' \<and>
       res = (if length dg > unat (uo_max_datagram_size (ur_options r))
          then Inl (TransportError ''received UDP datagram exceeds configured maximum size'')
          else rbind (decode_frame (Span dg) (uo_frame_limits (ur_options r))) (\<lambda>f. Inr (Some f))))"
  using udp_receive_queue [OF assms] unfolding datagram_result_def .

text \<open>Frames survive datagrams that are neither lost nor reordered: the frames a sequence of receive calls
  returns are the frames sent, in order, and the others are still to come.\<close>

theorem udp_delivers_in_order:
  assumes "udp_socket os (ur_socket_fd r) queue" and "queue n = map frame_image fs"
    and "\<forall>f \<in> set fs. sendable (uo_frame_limits (ur_options r)) f \<and>
       length (frame_image f) \<le> unat (uo_max_datagram_size (ur_options r))"
    and "collect (udp_source os) calls (r, n) = (gs, t)"
  shows "\<exists>rest. fs = gs @ rest \<and> (\<forall>s'. t = Some s' \<longrightarrow> udp_pending os s' rest)"
proof -
  have "udp_pending os (r, n) fs" using assms(1-3) by (auto simp: udp_pending_def)
  then show ?thesis using assms(4) by (rule udp.collect_in_order)
qed

text \<open>A frame is sent as one datagram to the configured destination, or not at all: a frame larger than
  the configured maximum is refused before any system call.\<close>

theorem udp_send_atomic:
  assumes "udp_sink os (us_socket_fd s) sent" and "sendable (uo_frame_limits (us_options s)) f"
    and "0 \<le> us_socket_fd s" and "udp_send_frame fuel os f s n = Some (r, n')"
  shows "(length (frame_image f) > unat (uo_max_datagram_size (us_options s)) \<longrightarrow>
       r = Inl (TransportError ''UDP datagram exceeds configured maximum size'') \<and> n' = n) \<and>
    (r = Inr () \<longrightarrow> sent n' = sent n @ [(us_destination s, frame_image f)])"
proof -
  have size: "span_size (Span (frame_image f)) > uo_max_datagram_size (us_options s) \<longleftrightarrow>
      length (frame_image f) > unat (uo_max_datagram_size (us_options s))"
    using sendable_image_size(1) [OF assms(2)] by (simp add: word_less_nat_alt fits_def)
  show ?thesis
    using assms(3,4) sendable_encodes [OF assms(2)] size sendto_loop_sink [OF assms(1), of fuel "frame_image f" n n']
    by (auto simp: udp_send_frame_def send_datagram_def split: if_splits)
qed

section \<open>A concrete datagram socket\<close>

text \<open>Its state is the queue of waiting datagrams.\<close>

definition mailslot :: "byte_buffer list os" where
  "mailslot = \<lparr>os_now = (\<lambda>n. (0, n)), os_poll = (\<lambda>fd ev t n. (if n = [] then PollTimeout else PollReady POLLIN, n)),
     os_recv = (\<lambda>fd k n. (RecvEof, n)), os_send = (\<lambda>fd data n. (Sent 0, n)),
     os_recvmsg = (\<lambda>fd k n. case n of [] \<Rightarrow> (RecvmsgFailed EAGAIN, [])
       | d # ds \<Rightarrow> (Datagram (take k d) (length d > k), ds)),
     os_sendto = (\<lambda>fd data dest n. (Sent (length data), n @ [data])), os_shutdown = (\<lambda>fd n. n), os_close = (\<lambda>fd n. n),
     os_set_sndtimeo = (\<lambda>fd a b n. (None, n)), os_set_reuseaddr = (\<lambda>fd n. n), os_so_error = (\<lambda>fd n. (Inr None, n)),
     os_getsockname = (\<lambda>fd n. (Inr (AF_INET, 7), n)), os_getaddrinfo = (\<lambda>a b c d n. (Inr [], n)),
     os_socket = (\<lambda>a b n. (Inl (Errno 24), n)), os_bind = (\<lambda>fd a n. (None, n)), os_listen = (\<lambda>fd k n. (None, n)),
     os_accept = (\<lambda>fd n. (Inl EAGAIN, n)), os_connect = (\<lambda>fd a n. (None, n)), os_getfd = (\<lambda>fd n. (Inr 0, n)),
     os_setfd = (\<lambda>fd k n. (None, n)), os_getfl = (\<lambda>fd n. (Inr 0, n)), os_setfl = (\<lambda>fd k n. (None, n)),
     os_strerror = (\<lambda>e. ''error'')\<rparr>"

lemma mailslot_socket: "udp_socket mailslot fd (\<lambda>n. n)"
  by (auto simp: udp_socket_def mailslot_def split: list.splits)

lemma mailslot_ready: "udp_ready mailslot fd (\<lambda>n. n)"
  using mailslot_socket [of fd] by (auto simp: udp_ready_def mailslot_def poll_consts neq_Nil_conv)

definition receiver0 :: udp_receiver where
  "receiver0 = \<lparr>ur_socket_fd = 5, ur_options = default_udp_options\<rparr>"

theorem udp_one_frame_per_datagram_witness:
  "\<exists>res n'. udp_receive_frame 1 1 mailslot 10 receiver0 [replicate 1500 0, []] = Some (res, n') \<and>
     n' = [[]] \<and> res = Inl (TransportError ''received UDP datagram exceeds configured maximum size'')"
proof -
  obtain res n' where run: "udp_receive_frame 1 1 mailslot 10 receiver0 [replicate 1500 0, []] = Some (res, n')"
    and taken: "n' = [[]]"
    by (simp add: udp_receive_frame_def deadline_after_def poll_timeout_ms_def int_max_def mailslot_def receiver0_def
        poll_consts default_udp_options_def)
  show ?thesis
    using udp_one_frame_per_datagram [OF mailslot_socket run] run taken
    by (auto simp: receiver0_def default_udp_options_def)
qed

end
