(* ===== verification/Rml_Tcp.thy ===== *)
theory Rml_Tcp
  imports Rml_Socket Rml_Channel
begin

text \<open>
  The TCP transport (\<^verbatim>\<open>transport/tcp_transport.hpp\<close>,
  \<^verbatim>\<open>src/transport/tcp_transport.cpp\<close>): sending whole buffers over a socket that takes them in
  parts, reassembling frames from a stream that delivers them in pieces, listening, accepting and
  connecting. System calls are those of \<open>os\<close>. A loop that the platform can keep going for ever
  (an interrupted call is retried) takes a bound on its rounds and is \<open>None\<close> when the bound is
  reached; \<open>fuel\<close> bounds the loop at hand and \<open>pf\<close> the \<open>poll\<close> loops inside it.
\<close>

section \<open>State\<close>

record tcp_connection =
  tc_socket_fd :: int
  tc_limits :: frame_limits
  tc_receive_buffer :: byte_buffer

record tcp_server_options =
  so_backlog :: int
  so_frame_limits :: frame_limits

definition default_server_options :: tcp_server_options where
  "default_server_options = \<lparr>so_backlog = 128, so_frame_limits = default_limits\<rparr>"

record tcp_server =
  ts_socket_fd :: int
  ts_options :: tcp_server_options

record tcp_client =
  tcl_host :: string
  tcl_port :: u16
  tcl_frame_limits :: frame_limits

section \<open>Waiting\<close>

primrec poll_socket :: "nat \<Rightarrow> 'n os \<Rightarrow> int \<Rightarrow> u16 \<Rightarrow> int \<Rightarrow> 'n \<Rightarrow> (u16 option result \<times> 'n) option" where
  "poll_socket 0 os socket_fd events deadline n = None"
| "poll_socket (Suc fuel) os socket_fd events deadline n =
     (let (timeout, n1) = poll_timeout_ms os deadline n
      in (case os_poll os socket_fd events timeout n1 of
            (PollTimeout, n2) \<Rightarrow> Some (Inr None, n2)
          | (PollFailed e, n2) \<Rightarrow>
              if e = EINTR
              then (let (now, n3) = os_now os n2
                    in if now \<ge> deadline then Some (Inr None, n3)
                       else poll_socket fuel os socket_fd events deadline n3)
              else Some (Inl (TransportError (errno_message os ''poll TCP socket'' e)), n2)
          | (PollReady revents, n2) \<Rightarrow>
              if revents AND POLLNVAL \<noteq> 0
              then Some (Inl (TransportError ''poll reported an invalid TCP socket''), n2)
              else if revents AND (events OR POLLERR OR POLLHUP) \<noteq> 0
              then Some (Inr (Some revents), n2)
              else poll_socket fuel os socket_fd events deadline n2))"

section \<open>The connection\<close>

definition tcp_connection_new :: "int \<Rightarrow> frame_limits \<Rightarrow> tcp_connection" where
  "tcp_connection_new socket_fd limits =
     \<lparr>tc_socket_fd = socket_fd, tc_limits = limits, tc_receive_buffer = []\<rparr>"

definition tcp_is_open :: "tcp_connection \<Rightarrow> bool" where
  "tcp_is_open c \<longleftrightarrow> tc_socket_fd c \<ge> 0"

definition native_handle :: "tcp_connection \<Rightarrow> int" where
  "native_handle c = tc_socket_fd c"

definition interrupt :: "'n os \<Rightarrow> tcp_connection \<Rightarrow> 'n \<Rightarrow> 'n" where
  "interrupt os c n = (if tc_socket_fd c \<ge> 0 then os_shutdown os (tc_socket_fd c) n else n)"

definition set_send_timeout :: "'n os \<Rightarrow> int \<Rightarrow> tcp_connection \<Rightarrow> 'n \<Rightarrow> unit result \<times> 'n" where
  "set_send_timeout os timeout c n =
     (if timeout \<le> 0 then (Inl (TransportError ''TCP send timeout must be positive''), n)
      else let seconds = timeout div 1000;
               remainder = (timeout - seconds * 1000) * 1000
      in if tc_socket_fd c < 0 then (Inl (TransportError ''TCP connection is closed''), n)
         else (case os_set_sndtimeo os (tc_socket_fd c) seconds remainder n of
             (Some e, n1) \<Rightarrow> (Inl (TransportError (errno_message os ''set TCP send timeout'' e)), n1)
           | (None, n1) \<Rightarrow> (Inr (), n1)))"

definition close_noexcept :: "'n os \<Rightarrow> tcp_connection \<Rightarrow> 'n \<Rightarrow> tcp_connection \<times> 'n" where
  "close_noexcept os c n =
     (if tc_socket_fd c \<ge> 0 then (c\<lparr>tc_socket_fd := -1\<rparr>, os_close os (tc_socket_fd c) n) else (c, n))"

definition tcp_close :: "'n os \<Rightarrow> tcp_connection \<Rightarrow> 'n \<Rightarrow> tcp_connection \<times> 'n" where
  "tcp_close os c n = (case close_noexcept os c n of (c1, n1) \<Rightarrow> (c1\<lparr>tc_receive_buffer := []\<rparr>, n1))"

text \<open>Moving: the new object, and the object moved from (whose buffer the move leaves empty). The
  assignment is between two objects; onto itself it does nothing.\<close>

definition tcp_move :: "tcp_connection \<Rightarrow> tcp_connection \<times> tcp_connection" where
  "tcp_move other = (other, other\<lparr>tc_socket_fd := -1, tc_receive_buffer := []\<rparr>)"

definition tcp_move_assign ::
  "'n os \<Rightarrow> tcp_connection \<Rightarrow> tcp_connection \<Rightarrow> 'n \<Rightarrow> tcp_connection \<times> tcp_connection \<times> 'n" where
  "tcp_move_assign os this other n =
     (case tcp_move other of (new, moved) \<Rightarrow> (new, moved, snd (close_noexcept os this n)))"

section \<open>Sending\<close>

definition ssize_max :: nat where
  "ssize_max = 2 ^ 63 - 1"

primrec send_loop :: "nat \<Rightarrow> 'n os \<Rightarrow> int \<Rightarrow> byte_buffer \<Rightarrow> nat \<Rightarrow> 'n \<Rightarrow> (unit result \<times> 'n) option" where
  "send_loop 0 os socket_fd data offset n = (if offset < length data then None else Some (Inr (), n))"
| "send_loop (Suc fuel) os socket_fd data offset n =
     (if \<not> offset < length data then Some (Inr (), n)
      else let chunk_size = min (length data - offset) ssize_max
      in (case os_send os socket_fd (take chunk_size (drop offset data)) n of
            (Sent k, n1) \<Rightarrow>
              if k > 0 then send_loop fuel os socket_fd data (offset + k) n1
              else Some (Inl (TransportError ''TCP send returned zero before completion''), n1)
          | (SendFailed e, n1) \<Rightarrow>
              if e = EINTR then send_loop fuel os socket_fd data offset n1
              else Some (Inl (TransportError (errno_message os ''send TCP socket'' e)), n1)))"

definition send_all :: "nat \<Rightarrow> 'n os \<Rightarrow> span \<Rightarrow> tcp_connection \<Rightarrow> 'n \<Rightarrow> (unit result \<times> 'n) option" where
  "send_all fuel os sp c n =
     (case sp of
        Null sz \<Rightarrow>
          if sz \<noteq> 0 then Some (Inl (TransportError ''TCP send data pointer is null''), n)
          else if tc_socket_fd c < 0 then Some (Inl (TransportError ''TCP connection is closed''), n)
          else Some (Inr (), n)
      | Span data \<Rightarrow>
          if tc_socket_fd c < 0 then Some (Inl (TransportError ''TCP connection is closed''), n)
          else send_loop fuel os (tc_socket_fd c) data 0 n)"

definition tcp_send_frame :: "nat \<Rightarrow> 'n os \<Rightarrow> frame \<Rightarrow> tcp_connection \<Rightarrow> 'n \<Rightarrow> (unit result \<times> 'n) option" where
  "tcp_send_frame fuel os f c n =
     (case encode_frame f (tc_limits c) of
        Inl e \<Rightarrow> Some (Inl e, n)
      | Inr encoded \<Rightarrow> send_all fuel os (Span encoded) c n)"

section \<open>Receiving\<close>

definition retry_errno :: "errno \<Rightarrow> bool" where
  "retry_errno e \<longleftrightarrow> e = EINTR \<or> e = EAGAIN \<or> e = EWOULDBLOCK"

primrec read_until ::
  "nat \<Rightarrow> nat \<Rightarrow> 'n os \<Rightarrow> int \<Rightarrow> int \<Rightarrow> nat \<Rightarrow> tcp_connection \<Rightarrow> 'n \<Rightarrow> (bool result \<times> tcp_connection \<times> 'n) option" where
  "read_until 0 pf os socket_fd deadline wanted_size c n =
     (if length (tc_receive_buffer c) < wanted_size then None else Some (Inr True, c, n))"
| "read_until (Suc fuel) pf os socket_fd deadline wanted_size c n =
     (if \<not> length (tc_receive_buffer c) < wanted_size then Some (Inr True, c, n)
      else (case poll_socket pf os socket_fd POLLIN deadline n of
          None \<Rightarrow> None
        | Some (Inl e, n1) \<Rightarrow> Some (Inl e, c, n1)
        | Some (Inr None, n1) \<Rightarrow> Some (Inr False, c, n1)
        | Some (Inr (Some readiness), n1) \<Rightarrow>
            let wanted = min 8192 (wanted_size - length (tc_receive_buffer c))
            in (case os_recv os socket_fd wanted n1 of
                  (Received chunk, n2) \<Rightarrow>
                    read_until fuel pf os socket_fd deadline wanted_size
                      (c\<lparr>tc_receive_buffer := tc_receive_buffer c @ chunk\<rparr>) n2
                | (RecvEof, n2) \<Rightarrow>
                    Some (Inl (TransportError ''TCP peer disconnected while receiving a frame''), c,
                      interrupt os c n2)
                | (RecvFailed e, n2) \<Rightarrow>
                    if retry_errno e
                    then (let (now, n3) = os_now os n2
                          in if now \<ge> deadline then Some (Inr False, c, n3)
                             else read_until fuel pf os socket_fd deadline wanted_size c n3)
                    else Some (Inl (TransportError (errno_message os ''receive TCP frame'' e)), c,
                      interrupt os c n2))))"

definition header_size :: nat where
  "header_size = unat kHeaderSize"

definition tcp_receive_frame ::
  "nat \<Rightarrow> nat \<Rightarrow> 'n os \<Rightarrow> int \<Rightarrow> tcp_connection \<Rightarrow> 'n \<Rightarrow> (frame option result \<times> tcp_connection \<times> 'n) option" where
  "tcp_receive_frame fuel pf os timeout c n =
     (if tc_socket_fd c < 0 then Some (Inl (TransportError ''TCP connection is closed''), c, n)
      else let (deadline, n1) = deadline_after os timeout n
      in (case read_until fuel pf os (tc_socket_fd c) deadline header_size c n1 of
            None \<Rightarrow> None
          | Some (Inl e, c1, n2) \<Rightarrow> Some (Inl e, c1, n2)
          | Some (Inr False, c1, n2) \<Rightarrow> Some (Inr None, c1, n2)
          | Some (Inr True, c1, n2) \<Rightarrow>
              (case frame_size_from_header (Span (take header_size (tc_receive_buffer c1))) (tc_limits c1) of
                 Inl e \<Rightarrow> Some (Inl e, c1\<lparr>tc_receive_buffer := []\<rparr>, interrupt os c1 n2)
               | Inr total_size \<Rightarrow>
                   (case read_until fuel pf os (tc_socket_fd c1) deadline (unat total_size) c1 n2 of
                      None \<Rightarrow> None
                    | Some (Inl e, c2, n3) \<Rightarrow> Some (Inl e, c2, n3)
                    | Some (Inr False, c2, n3) \<Rightarrow> Some (Inr None, c2, n3)
                    | Some (Inr True, c2, n3) \<Rightarrow>
                        (case decode_frame (Span (tc_receive_buffer c2)) (tc_limits c2) of
                           Inl e \<Rightarrow> Some (Inl e, c2\<lparr>tc_receive_buffer := []\<rparr>, n3)
                         | Inr f \<Rightarrow> Some (Inr (Some f), c2\<lparr>tc_receive_buffer := []\<rparr>, n3))))))"

section \<open>The server\<close>

text \<open>The candidate addresses in turn; the result has the socket, or the last error.\<close>

primrec try_bind ::
  "'n os \<Rightarrow> int \<Rightarrow> addrinfo list \<Rightarrow> errno option \<Rightarrow> 'n \<Rightarrow> (errno option + int) \<times> 'n" where
  "try_bind os backlog [] last_error n = (Inl last_error, n)"
| "try_bind os backlog (address # rest) last_error n =
     (case os_socket os address True n of
        (Inl e, n1) \<Rightarrow> try_bind os backlog rest (Some e) n1
      | (Inr candidate, n1) \<Rightarrow>
          let n2 = os_set_reuseaddr os candidate n1
          in (case os_bind os candidate (ai_addr address) n2 of
                (Some e, n3) \<Rightarrow> try_bind os backlog rest (Some e) (os_close os candidate n3)
              | (None, n3) \<Rightarrow> (case os_listen os candidate backlog n3 of
                    (Some e, n4) \<Rightarrow> try_bind os backlog rest (Some e) (os_close os candidate n4)
                  | (None, n4) \<Rightarrow> (Inr candidate, n4))))"

definition tcp_server_new :: "'n os \<Rightarrow> string \<Rightarrow> u16 \<Rightarrow> tcp_server_options \<Rightarrow> 'n \<Rightarrow> tcp_server result \<times> 'n" where
  "tcp_server_new os bind_address port options n =
     (if so_backlog options \<le> 0 then (Inl (TransportError ''TCP listen backlog must be positive''), n)
      else (case os_getaddrinfo os (if bind_address = [] then None else Some bind_address)
               (to_string (unat port)) True True n of
          (Inl msg, n1) \<Rightarrow> (Inl (TransportError (''getaddrinfo for TCP bind: '' @ msg)), n1)
        | (Inr addresses, n1) \<Rightarrow> (case try_bind os (so_backlog options) addresses None n1 of
              (Inr socket_fd, n2) \<Rightarrow> (Inr \<lparr>ts_socket_fd = socket_fd, ts_options = options\<rparr>, n2)
            | (Inl (Some e), n2) \<Rightarrow>
                (Inl (TransportError (errno_message os ''bind/listen TCP socket'' e)), n2)
            | (Inl None, n2) \<Rightarrow> (Inl (TransportError ''could not create a TCP server socket''), n2))))"

definition tcp_server_new_any :: "'n os \<Rightarrow> u16 \<Rightarrow> tcp_server_options \<Rightarrow> 'n \<Rightarrow> tcp_server result \<times> 'n" where
  "tcp_server_new_any os port options n = tcp_server_new os [] port options n"

definition set_close_on_exec :: "'n os \<Rightarrow> int \<Rightarrow> 'n \<Rightarrow> unit result \<times> 'n" where
  "set_close_on_exec os socket_fd n =
     (case os_getfd os socket_fd n of
        (Inl e, n1) \<Rightarrow> (Inl (TransportError (errno_message os ''set FD_CLOEXEC'' e)), n1)
      | (Inr descriptor_flags, n1) \<Rightarrow> (case os_setfd os socket_fd (descriptor_flags OR FD_CLOEXEC) n1 of
            (Some e, n2) \<Rightarrow> (Inl (TransportError (errno_message os ''set FD_CLOEXEC'' e)), n2)
          | (None, n2) \<Rightarrow> (Inr (), n2)))"

primrec accept_rounds ::
  "nat \<Rightarrow> nat \<Rightarrow> 'n os \<Rightarrow> int \<Rightarrow> tcp_server \<Rightarrow> 'n \<Rightarrow> (tcp_connection option result \<times> 'n) option" where
  "accept_rounds 0 pf os deadline s n = None"
| "accept_rounds (Suc fuel) pf os deadline s n =
     (case poll_socket pf os (ts_socket_fd s) POLLIN deadline n of
        None \<Rightarrow> None
      | Some (Inl e, n1) \<Rightarrow> Some (Inl e, n1)
      | Some (Inr None, n1) \<Rightarrow> Some (Inr None, n1)
      | Some (Inr (Some readiness), n1) \<Rightarrow> (case os_accept os (ts_socket_fd s) n1 of
            (Inr client_socket, n2) \<Rightarrow> (case set_close_on_exec os client_socket n2 of
                (Inl e, n3) \<Rightarrow> Some (Inl e, os_close os client_socket n3)
              | (Inr _, n3) \<Rightarrow>
                  Some (Inr (Some (tcp_connection_new client_socket (so_frame_limits (ts_options s)))), n3))
          | (Inl e, n2) \<Rightarrow>
              if retry_errno e
              then (let (now, n3) = os_now os n2
                    in if now \<ge> deadline then Some (Inr None, n3) else accept_rounds fuel pf os deadline s n3)
              else Some (Inl (TransportError (errno_message os ''accept TCP connection'' e)), n2)))"

definition accept ::
  "nat \<Rightarrow> nat \<Rightarrow> 'n os \<Rightarrow> int \<Rightarrow> tcp_server \<Rightarrow> 'n \<Rightarrow> (tcp_connection option result \<times> 'n) option" where
  "accept fuel pf os timeout s n =
     (if ts_socket_fd s < 0 then Some (Inl (TransportError ''TCP server is closed''), n)
      else let (deadline, n1) = deadline_after os timeout n in accept_rounds fuel pf os deadline s n1)"

definition tcp_server_local_port :: "'n os \<Rightarrow> tcp_server \<Rightarrow> 'n \<Rightarrow> u16 result \<times> 'n" where
  "tcp_server_local_port os s n =
     (if ts_socket_fd s < 0 then (Inl (TransportError ''TCP server is closed''), n)
      else socket_local_port os ''TCP'' (ts_socket_fd s) n)"

definition tcp_server_close :: "'n os \<Rightarrow> tcp_server \<Rightarrow> 'n \<Rightarrow> tcp_server \<times> 'n" where
  "tcp_server_close os s n =
     (if ts_socket_fd s \<ge> 0 then (s\<lparr>ts_socket_fd := -1\<rparr>, os_close os (ts_socket_fd s) n) else (s, n))"

definition tcp_server_move :: "tcp_server \<Rightarrow> tcp_server \<times> tcp_server" where
  "tcp_server_move other = (other, other\<lparr>ts_socket_fd := -1\<rparr>)"

definition tcp_server_move_assign :: "'n os \<Rightarrow> tcp_server \<Rightarrow> tcp_server \<Rightarrow> 'n \<Rightarrow> tcp_server \<times> tcp_server \<times> 'n" where
  "tcp_server_move_assign os this other n =
     (case tcp_server_move other of (new, moved) \<Rightarrow> (new, moved, snd (tcp_server_close os this n)))"

section \<open>The client\<close>

definition tcp_client_new :: "string \<Rightarrow> u16 \<Rightarrow> frame_limits \<Rightarrow> tcp_client result" where
  "tcp_client_new host port limits =
     (if host = [] then Inl (TransportError ''TCP destination host must not be empty'')
      else Inr \<lparr>tcl_host = host, tcl_port = port, tcl_frame_limits = limits\<rparr>)"

text \<open>How the loop over the addresses ends: with a socket, with a thrown exception, or without one, then
  with the flag \<^verbatim>\<open>timed_out\<close> and the last error.\<close>

datatype connect_end = Connected int | Thrown exn | GivenUp bool "errno option"

definition finish_connect :: "'n os \<Rightarrow> int \<Rightarrow> int \<Rightarrow> 'n \<Rightarrow> connect_end \<times> 'n" where
  "finish_connect os candidate original_flags n =
     (case os_setfl os candidate original_flags n of
        (Some e, n1) \<Rightarrow> (Thrown (TransportError (errno_message os ''restore TCP socket blocking mode'' e)),
          os_close os candidate n1)
      | (None, n1) \<Rightarrow> (Connected candidate, n1))"

text \<open>
  The loop body in two parts: waiting for a connection in progress, and the whole body. \<open>Inl e\<close> is
  \<^verbatim>\<open>continue\<close> after \<open>last_error = e\<close>, \<open>Inr r\<close> leaves the loop with \<open>r\<close>.
\<close>

definition await_connect ::
  "nat \<Rightarrow> 'n os \<Rightarrow> int \<Rightarrow> int \<Rightarrow> int \<Rightarrow> errno option \<Rightarrow> 'n \<Rightarrow> ((errno + connect_end) \<times> 'n) option" where
  "await_connect pf os deadline candidate original_flags last_error n =
     (case poll_socket pf os candidate POLLOUT deadline n of
        None \<Rightarrow> None
      | Some (Inl ex, n1) \<Rightarrow> Some (Inr (Thrown ex), n1)
      | Some (Inr None, n1) \<Rightarrow> Some (Inr (GivenUp True last_error), os_close os candidate n1)
      | Some (Inr (Some readiness), n1) \<Rightarrow> (case os_so_error os candidate n1 of
            (Inl e, n2) \<Rightarrow> Some (Inl e, os_close os candidate n2)
          | (Inr (Some e), n2) \<Rightarrow>
              let (now, n3) = os_now os (os_close os candidate n2)
              in if now \<ge> deadline then Some (Inr (GivenUp True (Some e)), n3) else Some (Inl e, n3)
          | (Inr None, n2) \<Rightarrow>
              (case finish_connect os candidate original_flags n2 of (r, n3) \<Rightarrow> Some (Inr r, n3))))"

definition try_address ::
  "nat \<Rightarrow> 'n os \<Rightarrow> int \<Rightarrow> addrinfo \<Rightarrow> errno option \<Rightarrow> 'n \<Rightarrow> ((errno + connect_end) \<times> 'n) option" where
  "try_address pf os deadline address last_error n =
     (case os_socket os address False n of
        (Inl e, n1) \<Rightarrow> Some (Inl e, n1)
      | (Inr candidate, n1) \<Rightarrow> (case os_getfl os candidate n1 of
            (Inl e, n2) \<Rightarrow> Some (Inl e, os_close os candidate n2)
          | (Inr original_flags, n2) \<Rightarrow> (case os_setfl os candidate (original_flags OR O_NONBLOCK) n2 of
                (Some e, n3) \<Rightarrow> Some (Inl e, os_close os candidate n3)
              | (None, n3) \<Rightarrow> (case os_connect os candidate (ai_addr address) n3 of
                    (None, n4) \<Rightarrow>
                      (case finish_connect os candidate original_flags n4 of (r, n5) \<Rightarrow> Some (Inr r, n5))
                  | (Some e, n4) \<Rightarrow>
                      if e \<noteq> EINPROGRESS \<and> e \<noteq> EALREADY \<and> e \<noteq> EINTR
                      then Some (Inl e, os_close os candidate n4)
                      else await_connect pf os deadline candidate original_flags last_error n4))))"

primrec try_connect ::
  "nat \<Rightarrow> 'n os \<Rightarrow> int \<Rightarrow> addrinfo list \<Rightarrow> errno option \<Rightarrow> 'n \<Rightarrow> (connect_end \<times> 'n) option" where
  "try_connect pf os deadline [] last_error n = Some (GivenUp False last_error, n)"
| "try_connect pf os deadline (address # rest) last_error n =
     (case try_address pf os deadline address last_error n of
        None \<Rightarrow> None
      | Some (Inl e, n1) \<Rightarrow> try_connect pf os deadline rest (Some e) n1
      | Some (Inr r, n1) \<Rightarrow> Some (r, n1))"

definition tcp_connect :: "nat \<Rightarrow> 'n os \<Rightarrow> int \<Rightarrow> tcp_client \<Rightarrow> 'n \<Rightarrow> (tcp_connection result \<times> 'n) option" where
  "tcp_connect pf os timeout cl n =
     (let (deadline, n1) = deadline_after os timeout n
      in (case os_getaddrinfo os (Some (tcl_host cl)) (to_string (unat (tcl_port cl))) True False n1 of
            (Inl msg, n2) \<Rightarrow> Some (Inl (TransportError (''getaddrinfo for TCP destination: '' @ msg)), n2)
          | (Inr addresses, n2) \<Rightarrow> (case try_connect pf os deadline addresses None n2 of
                None \<Rightarrow> None
              | Some (Connected fd, n3) \<Rightarrow> Some (Inr (tcp_connection_new fd (tcl_frame_limits cl)), n3)
              | Some (Thrown ex, n3) \<Rightarrow> Some (Inl ex, n3)
              | Some (GivenUp True last_error, n3) \<Rightarrow> Some (Inl (TransportError ''TCP connect timed out''), n3)
              | Some (GivenUp False (Some e), n3) \<Rightarrow>
                  Some (Inl (TransportError (errno_message os ''connect TCP socket'' e)), n3)
              | Some (GivenUp False None, n3) \<Rightarrow>
                  Some (Inl (TransportError ''could not create a TCP client socket''), n3))))"

section \<open>The byte stream\<close>

text \<open>
  What the kernel promises of an established stream, as far as this side can tell: \<open>incoming n\<close> are the
  bytes that are still to be read from descriptor \<open>fd\<close>. Reading takes a non-empty piece off the front,
  at most as long as asked for; no other call of the receive path changes them.
\<close>

definition tcp_stream :: "'n os \<Rightarrow> int \<Rightarrow> ('n \<Rightarrow> byte_buffer) \<Rightarrow> bool" where
  "tcp_stream os fd incoming \<longleftrightarrow>
     (\<forall>n. incoming (snd (os_now os n)) = incoming n) \<and>
     (\<forall>ev t n. incoming (snd (os_poll os fd ev t n)) = incoming n) \<and>
     (\<forall>k n bs n'. os_recv os fd k n = (Received bs, n') \<longrightarrow>
        bs \<noteq> [] \<and> length bs \<le> k \<and> incoming n = bs @ incoming n') \<and>
     (\<forall>k n e n'. os_recv os fd k n = (RecvFailed e, n') \<longrightarrow> incoming n' = incoming n)"

lemma tcp_streamD:
  assumes "tcp_stream os fd incoming"
  shows "os_now os n = (t, n') \<Longrightarrow> incoming n' = incoming n"
    and "os_poll os fd ev tm n = (p, n') \<Longrightarrow> incoming n' = incoming n"
    and "os_recv os fd k n = (Received bs, n') \<Longrightarrow> bs \<noteq> [] \<and> length bs \<le> k \<and> incoming n = bs @ incoming n'"
    and "os_recv os fd k n = (RecvFailed e, n') \<Longrightarrow> incoming n' = incoming n"
  using assms unfolding tcp_stream_def by (metis snd_conv)+

lemma poll_timeout_ms_incoming:
  assumes "tcp_stream os fd incoming" and "poll_timeout_ms os deadline n = (v, n')"
  shows "incoming n' = incoming n"
  using assms(2) tcp_streamD(1) [OF assms(1)]
  by (cases "os_now os n") (auto simp: poll_timeout_ms_def Let_def split: if_splits)

lemma poll_socket_incoming:
  assumes "tcp_stream os fd incoming"
  shows "poll_socket pf os fd ev deadline n = Some (r, n') \<Longrightarrow> incoming n' = incoming n"
proof (induction pf arbitrary: n)
  case (Suc pf)
  obtain v n1 where v: "poll_timeout_ms os deadline n = (v, n1)" by force
  obtain p n2 where p: "os_poll os fd ev v n1 = (p, n2)" by force
  obtain now n3 where now: "os_now os n2 = (now, n3)" by force
  have same: "incoming n1 = incoming n" "incoming n2 = incoming n1" "incoming n3 = incoming n2"
    using poll_timeout_ms_incoming [OF assms v] tcp_streamD(2) [OF assms p] tcp_streamD(1) [OF assms now]
    by auto
  show ?case
  proof (cases p)
    case (PollFailed e)
    then show ?thesis using Suc v p now same by (auto split: if_splits)
  next
    case (PollReady revents)
    then show ?thesis using Suc v p same by (auto split: if_splits)
  qed (use Suc.prems v p same in auto)
qed simp

text \<open>The reading loop appends what it takes from the stream, and never reads past its target.\<close>

lemma read_until_stream:
  assumes "tcp_stream os fd incoming"
  shows "read_until fuel pf os fd deadline target c n = Some (r, c', n') \<Longrightarrow>
     \<exists>bs. c' = c\<lparr>tc_receive_buffer := tc_receive_buffer c @ bs\<rparr> \<and>
       length (tc_receive_buffer c @ bs) \<le> max target (length (tc_receive_buffer c)) \<and>
       (is_ok r \<longrightarrow> incoming n = bs @ incoming n') \<and>
       (r = Inr True \<longrightarrow> length (tc_receive_buffer c @ bs) = max target (length (tc_receive_buffer c)))"
proof (induction fuel arbitrary: c n)
  case 0
  then show ?case by (intro exI [of _ "[]"]) (auto split: if_splits)
next
  case (Suc fuel)
  let ?wanted = "min 8192 (target - length (tc_receive_buffer c))"
  show ?case
  proof (cases "length (tc_receive_buffer c) < target")
    case False
    then show ?thesis using Suc.prems by (intro exI [of _ "[]"]) auto
  next
    case True
    then obtain pr n1 where poll: "poll_socket pf os fd POLLIN deadline n = Some (pr, n1)"
      using Suc.prems(1) by (auto split: option.splits)
    note n1 = poll_socket_incoming [OF assms poll]
    obtain rr n2 where recv: "os_recv os fd ?wanted n1 = (rr, n2)" by force
    obtain now n3 where now: "os_now os n2 = (now, n3)" by force
    show ?thesis
    proof (cases pr rule: result_option_cases)
      case 1
      then show ?thesis using Suc.prems True poll by (intro exI [of _ "[]"]) auto
    next
      case 2
      then show ?thesis using Suc.prems True poll n1 by (intro exI [of _ "[]"]) auto
    next
      case 3
      show ?thesis
      proof (cases rr)
        case (Received bs)
        note got = tcp_streamD(3) [OF assms recv [unfolded Received]]
        have run: "read_until fuel pf os fd deadline target
            (c\<lparr>tc_receive_buffer := tc_receive_buffer c @ bs\<rparr>) n2 = Some (r, c', n')"
          using Suc.prems(1) True poll 3 recv Received by simp
        have "max target (length (tc_receive_buffer c @ bs)) = target" using got True by auto
        then obtain bs' where "c' = c\<lparr>tc_receive_buffer := tc_receive_buffer c @ bs @ bs'\<rparr>"
          "length (tc_receive_buffer c @ bs @ bs') \<le> target" "is_ok r \<longrightarrow> incoming n2 = bs' @ incoming n'"
          "r = Inr True \<longrightarrow> length (tc_receive_buffer c @ bs @ bs') = target"
          using Suc.IH [OF run] by auto
        then show ?thesis using got n1 True by (intro exI [of _ "bs @ bs'"]) auto
      next
        case RecvEof
        then show ?thesis using Suc.prems True poll 3 recv by (intro exI [of _ "[]"]) auto
      next
        case (RecvFailed e)
        then show ?thesis
          using Suc.prems Suc.IH [of c n3] True poll 3 recv now n1 tcp_streamD(4) [OF assms, of ?wanted n1 e n2]
            tcp_streamD(1) [OF assms now]
          by (cases "retry_errno e"; cases "deadline \<le> now") (auto intro: exI [of _ "[]"])
      qed
    qed
  qed
qed

lemma deadline_after_incoming:
  assumes "tcp_stream os fd incoming" and "deadline_after os timeout n = (d, n')"
  shows "incoming n' = incoming n"
  using assms(2) tcp_streamD(1) [OF assms(1)] by (cases "os_now os n") (auto simp: deadline_after_def Let_def)

section \<open>Reassembly\<close>

text \<open>A unit of the stream: bytes whose first 56 announce their number. Every encoded frame is one, and
  so is a frame whose body was corrupted.\<close>

definition stream_unit :: "frame_limits \<Rightarrow> byte_buffer \<Rightarrow> bool" where
  "stream_unit lim u \<longleftrightarrow> 56 \<le> length u \<and> length u < 2 ^ 64 \<and>
     frame_size_from_header (Span (take 56 u)) lim = Inr (size_of u)"

lemma sendable_stream_unit: "sendable lim f \<Longrightarrow> stream_unit lim (frame_image f)"
  using sendable_image_size unfolding stream_unit_def by blast

definition unit_result :: "frame_limits \<Rightarrow> byte_buffer \<Rightarrow> frame option result" where
  "unit_result lim u = rbind (decode_frame (Span u) lim) (\<lambda>f. Inr (Some f))"

lemma header_size_eq [simp]: "header_size = 56"
  by (simp add: header_size_def kHeaderSize_def)

lemma prefix_split:
  assumes "xs @ ys = us @ vs" and "length xs \<le> length us"
  shows "xs = take (length xs) us" and "us = xs @ drop (length xs) us" and "ys = drop (length xs) us @ vs"
  using assms by (auto simp: append_eq_append_conv_if split: if_splits) (metis append_take_drop_id)

lemma stream_unit_size: "stream_unit lim u \<Longrightarrow> unat (size_of u) = length u"
  unfolding stream_unit_def by (rule unat_size_of) (simp add: fits_def)

text \<open>After the first phase the buffer is a part of the unit that has the whole header.\<close>

lemma header_phase:
  assumes "tcp_stream os fd incoming" and "stream_unit (tc_limits c) u"
    and "tc_receive_buffer c @ incoming n = u @ rest" and "length (tc_receive_buffer c) \<le> length u"
    and "read_until fuel pf os fd deadline header_size c n = Some (Inr True, c1, n1)"
  obtains bs where "c1 = c\<lparr>tc_receive_buffer := tc_receive_buffer c @ bs\<rparr>" "incoming n = bs @ incoming n1"
    "length (tc_receive_buffer c @ bs) \<le> length u"
    "frame_size_from_header (Span (take header_size (tc_receive_buffer c1))) (tc_limits c1) = Inr (size_of u)"
proof -
  obtain bs where bs: "c1 = c\<lparr>tc_receive_buffer := tc_receive_buffer c @ bs\<rparr>" "incoming n = bs @ incoming n1"
    "length (tc_receive_buffer c @ bs) = max 56 (length (tc_receive_buffer c))"
    using read_until_stream [OF assms(1,5)] by auto
  have len: "56 \<le> length (tc_receive_buffer c @ bs)" "length (tc_receive_buffer c @ bs) \<le> length u"
    using bs(3) assms(2,4) by (auto simp: stream_unit_def)
  have "(tc_receive_buffer c @ bs) @ incoming n1 = u @ rest" using bs(2) assms(3) by simp
  then have "tc_receive_buffer c @ bs = take (length (tc_receive_buffer c @ bs)) u"
    using len(2) by (rule prefix_split(1))
  then have "take 56 (tc_receive_buffer c @ bs) = take 56 u" using len(1) by (metis min.absorb1 take_take)
  then show ?thesis using that bs len(2) assms(2) by (simp add: stream_unit_def)
qed

lemma body_phase:
  assumes "tcp_stream os fd incoming" and "tc_receive_buffer c @ incoming n = u @ rest"
    and "length (tc_receive_buffer c) \<le> length u"
    and "read_until fuel pf os fd deadline (length u) c n = Some (Inr True, c1, n1)"
  shows "c1 = c\<lparr>tc_receive_buffer := u\<rparr>" and "incoming n1 = rest"
proof -
  obtain bs where bs: "c1 = c\<lparr>tc_receive_buffer := tc_receive_buffer c @ bs\<rparr>" "incoming n = bs @ incoming n1"
    "length (tc_receive_buffer c @ bs) = length u"
    using read_until_stream [OF assms(1,4)] assms(3) by auto
  have "(tc_receive_buffer c @ bs) @ incoming n1 = u @ rest" using bs(2) assms(2) by simp
  then have "tc_receive_buffer c @ bs = u \<and> incoming n1 = rest" using bs(3) append_eq_append_conv by blast
  then show "c1 = c\<lparr>tc_receive_buffer := u\<rparr>" and "incoming n1 = rest" using bs(1) by simp_all
qed

lemma tcp_receive_eval:
  assumes "\<not> tc_socket_fd c < 0" and "deadline_after os timeout n = (d, n0)"
    and "read_until fuel pf os (tc_socket_fd c) d header_size c n0 = Some (r1, c1, n1)"
    and "r1 = Inr True \<Longrightarrow> tc_socket_fd c1 = tc_socket_fd c"
    and "r1 = Inr True \<Longrightarrow> frame_size_from_header (Span (take header_size (tc_receive_buffer c1))) (tc_limits c1) = Inr sz"
    and "r1 = Inr True \<Longrightarrow> read_until fuel pf os (tc_socket_fd c) d (unat sz) c1 n1 = res2"
  shows "tcp_receive_frame fuel pf os timeout c n = (case r1 of
      Inl e \<Rightarrow> Some (Inl e, c1, n1)
    | Inr False \<Rightarrow> Some (Inr None, c1, n1)
    | Inr True \<Rightarrow> (case res2 of
        None \<Rightarrow> None
      | Some (Inl e, c2, n2) \<Rightarrow> Some (Inl e, c2, n2)
      | Some (Inr False, c2, n2) \<Rightarrow> Some (Inr None, c2, n2)
      | Some (Inr True, c2, n2) \<Rightarrow>
          Some (unit_result (tc_limits c2) (tc_receive_buffer c2), c2\<lparr>tc_receive_buffer := []\<rparr>, n2)))"
proof (cases "r1 = Inr True")
  case False
  then show ?thesis
    using assms(1-3) by (auto simp: tcp_receive_frame_def split: sum.splits bool.splits)
next
  case True
  then show ?thesis
    using assms by (auto simp: tcp_receive_frame_def unit_result_def split: option.splits sum.splits bool.splits)
qed

lemma tcp_receive_unit:
  assumes stream: "tcp_stream os (tc_socket_fd c) incoming" and u: "stream_unit (tc_limits c) u"
    and split: "tc_receive_buffer c @ incoming n = u @ rest" "length (tc_receive_buffer c) \<le> length u"
    and run: "tcp_receive_frame fuel pf os timeout c n = Some (Inr fo, c', n')"
  shows "case fo of
      None \<Rightarrow> \<exists>bs. c' = c\<lparr>tc_receive_buffer := tc_receive_buffer c @ bs\<rparr> \<and>
        length (tc_receive_buffer c @ bs) \<le> length u \<and> incoming n = bs @ incoming n'
    | Some f \<Rightarrow> decode_frame (Span u) (tc_limits c) = Inr f \<and> c' = c\<lparr>tc_receive_buffer := []\<rparr> \<and> incoming n' = rest"
proof -
  have open_fd: "\<not> tc_socket_fd c < 0" using run by (auto simp: tcp_receive_frame_def)
  obtain d n0 where d: "deadline_after os timeout n = (d, n0)" by force
  have n0: "incoming n0 = incoming n" using deadline_after_incoming [OF stream d] .
  note split0 = split(1) [folded n0]
  let ?fd = "tc_socket_fd c"
  obtain r1 c1 n1 where one: "read_until fuel pf os ?fd d header_size c n0 = Some (r1, c1, n1)"
    using run open_fd d by (auto simp: tcp_receive_frame_def Let_def split: option.splits)
  note eval = tcp_receive_eval [OF open_fd d one]
  show ?thesis
  proof (cases "r1 = Inr True")
    case False
    have none: "is_ok r1 \<and> fo = None \<and> c' = c1 \<and> n' = n1"
      using run False eval [of undefined None] by (cases r1) (auto split: bool.splits)
    moreover obtain bs where "c1 = c\<lparr>tc_receive_buffer := tc_receive_buffer c @ bs\<rparr>"
      "length (tc_receive_buffer c @ bs) \<le> max 56 (length (tc_receive_buffer c))" "incoming n0 = bs @ incoming n1"
      using read_until_stream [OF stream one] none by auto
    ultimately show ?thesis using u split(2) n0 by (fastforce simp: stream_unit_def)
  next
    case True
    obtain bs where c1: "c1 = c\<lparr>tc_receive_buffer := tc_receive_buffer c @ bs\<rparr>" "incoming n0 = bs @ incoming n1"
      "length (tc_receive_buffer c @ bs) \<le> length u"
      and size: "frame_size_from_header (Span (take header_size (tc_receive_buffer c1))) (tc_limits c1) = Inr (size_of u)"
      using header_phase [OF stream u split0 split(2) one [unfolded True]] .
    have split1: "tc_receive_buffer c1 @ incoming n1 = u @ rest" "length (tc_receive_buffer c1) \<le> length u"
      using c1 split0 by auto
    obtain res2 where two: "read_until fuel pf os ?fd d (length u) c1 n1 = res2" by simp
    note outcome = eval [of "size_of u" res2, unfolded stream_unit_size [OF u], OF _ size two, unfolded True]
    obtain r2 c2 n2 where res2: "res2 = Some (r2, c2, n2)" "is_ok r2"
      using run outcome c1(1) by (auto split: option.splits sum.splits bool.splits)
    show ?thesis
    proof (cases "r2 = Inr True")
      case False
      then have "fo = None \<and> c' = c2 \<and> n' = n2" using run outcome c1(1) res2 by (auto split: sum.splits bool.splits)
      moreover obtain bs' where "c2 = c1\<lparr>tc_receive_buffer := tc_receive_buffer c1 @ bs'\<rparr>"
        "length (tc_receive_buffer c1 @ bs') \<le> length u" "incoming n1 = bs' @ incoming n2"
        using read_until_stream [OF stream, of fuel pf d "length u" c1 n1 r2 c2 n2] two res2 split1(2) by auto
      ultimately show ?thesis using c1 n0 by (auto intro: exI [of _ "bs @ bs'"])
    next
      case True
      then have "c2 = c1\<lparr>tc_receive_buffer := u\<rparr>" "incoming n2 = rest"
        using body_phase [OF stream split1, of fuel pf d c2 n2] two res2 by simp_all
      then show ?thesis
        using run outcome res2 True c1(1) by (auto simp: unit_result_def)
    qed
  qed
qed

text \<open>The frames a connection has still to deliver: its buffer and the rest of the stream are their images,
  and the buffer holds no more than the first one.\<close>

definition tcp_holds :: "('n \<Rightarrow> byte_buffer) \<Rightarrow> tcp_connection \<times> 'n \<Rightarrow> frame list \<Rightarrow> bool" where
  "tcp_holds incoming s fs \<longleftrightarrow>
     (\<forall>f \<in> set fs. sendable (tc_limits (fst s)) f) \<and>
     tc_receive_buffer (fst s) @ incoming (snd s) = wire_image fs \<and>
     length (tc_receive_buffer (fst s)) \<le> (case fs of [] \<Rightarrow> 0 | f # _ \<Rightarrow> length (frame_image f))"

definition tcp_pending :: "'n os \<Rightarrow> tcp_connection \<times> 'n \<Rightarrow> frame list \<Rightarrow> bool" where
  "tcp_pending os s fs \<longleftrightarrow> (\<exists>incoming. tcp_stream os (tc_socket_fd (fst s)) incoming \<and> tcp_holds incoming s fs)"

definition tcp_source ::
  "'n os \<Rightarrow> nat \<times> nat \<times> int \<Rightarrow> tcp_connection \<times> 'n \<Rightarrow> (frame option result \<times> tcp_connection \<times> 'n) option" where
  "tcp_source os q s = (case q of (fuel, pf, timeout) \<Rightarrow> tcp_receive_frame fuel pf os timeout (fst s) (snd s))"

lemma tcp_receive_end:
  assumes "tcp_stream os (tc_socket_fd c) incoming" and "tc_receive_buffer c = []" and "incoming n = []"
    and "tcp_receive_frame fuel pf os timeout c n = Some (Inr fo, c', n')"
  shows "fo = None \<and> c' = c \<and> incoming n' = []"
proof -
  have open_fd: "\<not> tc_socket_fd c < 0" using assms(4) by (auto simp: tcp_receive_frame_def)
  obtain d n0 where d: "deadline_after os timeout n = (d, n0)" by force
  have n0: "incoming n0 = []" using deadline_after_incoming [OF assms(1) d] assms(3) by simp
  obtain r1 c1 n1 where one: "read_until fuel pf os (tc_socket_fd c) d header_size c n0 = Some (r1, c1, n1)"
    using assms(4) open_fd d by (auto simp: tcp_receive_frame_def Let_def split: option.splits)
  obtain bs where bs: "c1 = c\<lparr>tc_receive_buffer := tc_receive_buffer c @ bs\<rparr>"
    "is_ok r1 \<longrightarrow> incoming n0 = bs @ incoming n1"
    "r1 = Inr True \<longrightarrow> length (tc_receive_buffer c @ bs) = max header_size (length (tc_receive_buffer c))"
    using read_until_stream [OF assms(1) one] by blast
  then have "r1 \<noteq> Inr True" using assms(2) n0 by auto
  then have "is_ok r1 \<and> fo = None \<and> c' = c1 \<and> n' = n1"
    using assms(4) tcp_receive_eval [OF open_fd d one, of undefined None] by (cases r1) (auto split: bool.splits)
  then show ?thesis using bs assms(2) n0 by simp
qed

lemma tcp_receive_holds:
  assumes stream: "tcp_stream os (tc_socket_fd c) incoming" and holds: "tcp_holds incoming (c, n) fs"
    and run: "tcp_receive_frame fuel pf os timeout c n = Some (Inr fo, c', n')"
  shows "tc_socket_fd c' = tc_socket_fd c \<and>
    (case fo of None \<Rightarrow> tcp_holds incoming (c', n') fs | Some f \<Rightarrow> \<exists>gs. fs = f # gs \<and> tcp_holds incoming (c', n') gs)"
proof -
  have send: "\<forall>f \<in> set fs. sendable (tc_limits c) f"
    and image: "tc_receive_buffer c @ incoming n = wire_image fs"
    and len: "length (tc_receive_buffer c) \<le> (case fs of [] \<Rightarrow> 0 | f # _ \<Rightarrow> length (frame_image f))"
    using holds by (auto simp: tcp_holds_def)
  show ?thesis
  proof (cases fs)
    case Nil
    then show ?thesis using tcp_receive_end [OF stream _ _ run] image by (auto simp: tcp_holds_def)
  next
    case (Cons f gs)
    have f: "sendable (tc_limits c) f" using send Cons by simp
    have split: "tc_receive_buffer c @ incoming n = frame_image f @ wire_image gs"
      "length (tc_receive_buffer c) \<le> length (frame_image f)"
      using image len Cons by simp_all
    note got = tcp_receive_unit [OF stream sendable_stream_unit [OF f] split run]
    show ?thesis
    proof (cases fo)
      case None
      then show ?thesis using got image send Cons by (auto simp: tcp_holds_def)
    next
      case (Some g)
      then show ?thesis
        using got sendable_decodes [OF f] send Cons by (auto simp: tcp_holds_def split: list.splits)
    qed
  qed
qed

lemma tcp_receive_pending:
  assumes "tcp_pending os (c, n) fs" and run: "tcp_receive_frame fuel pf os timeout c n = Some (Inr fo, c', n')"
  shows "case fo of None \<Rightarrow> tcp_pending os (c', n') fs | Some f \<Rightarrow> \<exists>gs. fs = f # gs \<and> tcp_pending os (c', n') gs"
proof -
  obtain incoming where stream: "tcp_stream os (tc_socket_fd c) incoming" and holds: "tcp_holds incoming (c, n) fs"
    using assms(1) by (auto simp: tcp_pending_def)
  show ?thesis using tcp_receive_holds [OF stream holds run] stream
    by (auto simp: tcp_pending_def split: option.splits)
qed

interpretation tcp: frame_source "tcp_source os" "tcp_pending os" for os :: "'n os"
proof unfold_locales
  fix s s' :: "tcp_connection \<times> 'n" and fs q f
  assume "tcp_pending os s fs" "tcp_source os q s = Some (Inr (Some f), s')"
  then show "\<exists>gs. fs = f # gs \<and> tcp_pending os s' gs"
    using tcp_receive_pending [of os "fst s" "snd s" fs _ _ _ "Some f" "fst s'" "snd s'"]
    by (auto simp: tcp_source_def split: prod.splits)
next
  fix s s' :: "tcp_connection \<times> 'n" and fs q
  assume "tcp_pending os s fs" "tcp_source os q s = Some (Inr None, s')"
  then show "tcp_pending os s' fs"
    using tcp_receive_pending [of os "fst s" "snd s" fs _ _ _ None "fst s'" "snd s'"]
    by (auto simp: tcp_source_def split: prod.splits)
qed

section \<open>Progress\<close>

text \<open>A connection whose data is at hand: as long as bytes are to come, \<open>poll\<close> reports the descriptor
  readable and reading gives some of them.\<close>

definition tcp_ready :: "'n os \<Rightarrow> int \<Rightarrow> ('n \<Rightarrow> byte_buffer) \<Rightarrow> bool" where
  "tcp_ready os fd incoming \<longleftrightarrow> tcp_stream os fd incoming \<and>
     (\<forall>t n. incoming n \<noteq> [] \<longrightarrow> (\<exists>rv n'. os_poll os fd POLLIN t n = (PollReady rv, n') \<and> rv AND POLLNVAL = 0 \<and>
        rv AND (POLLIN OR POLLERR OR POLLHUP) \<noteq> 0)) \<and>
     (\<forall>k n. 0 < k \<longrightarrow> incoming n \<noteq> [] \<longrightarrow> (\<exists>bs n'. os_recv os fd k n = (Received bs, n')))"

lemma poll_socket_ready:
  assumes "tcp_ready os fd incoming" and "incoming n \<noteq> []" and "0 < pf"
  obtains rv n' where "poll_socket pf os fd POLLIN d n = Some (Inr (Some rv), n')" "incoming n' = incoming n"
proof -
  have stream: "tcp_stream os fd incoming" using assms(1) by (simp add: tcp_ready_def)
  obtain k where pf: "pf = Suc k" using assms(3) by (cases pf) auto
  obtain v n1 where v: "poll_timeout_ms os d n = (v, n1)" by force
  have n1: "incoming n1 = incoming n" using poll_timeout_ms_incoming [OF stream v] .
  obtain rv n2 where "os_poll os fd POLLIN v n1 = (PollReady rv, n2)" "rv AND POLLNVAL = 0"
    "rv AND (POLLIN OR POLLERR OR POLLHUP) \<noteq> 0"
    using assms(1,2) n1 unfolding tcp_ready_def by metis
  then have "poll_socket pf os fd POLLIN d n = Some (Inr (Some rv), n2)" using v pf by simp
  then show ?thesis using that poll_socket_incoming [OF stream] by blast
qed

lemma read_until_ready:
  assumes "tcp_ready os fd incoming" and "0 < pf"
  shows "target - length (tc_receive_buffer c) \<le> fuel \<Longrightarrow>
    target - length (tc_receive_buffer c) \<le> length (incoming n) \<Longrightarrow>
    \<exists>c' n'. read_until fuel pf os fd d target c n = Some (Inr True, c', n')"
proof (induction fuel arbitrary: c n)
  case 0
  then show ?case by simp
next
  case (Suc fuel)
  show ?case
  proof (cases "length (tc_receive_buffer c) < target")
    case True
    let ?wanted = "min 8192 (target - length (tc_receive_buffer c))"
    have "incoming n \<noteq> []" "0 < ?wanted" using True Suc.prems(2) by auto
    obtain rv n1 where poll: "poll_socket pf os fd POLLIN d n = Some (Inr (Some rv), n1)" "incoming n1 = incoming n"
      using poll_socket_ready [OF assms(1) \<open>incoming n \<noteq> []\<close> assms(2)] .
    then obtain bs n2 where recv: "os_recv os fd ?wanted n1 = (Received bs, n2)"
      using assms(1) \<open>0 < ?wanted\<close> \<open>incoming n \<noteq> []\<close> unfolding tcp_ready_def by metis
    have got: "bs \<noteq> []" "incoming n = bs @ incoming n2"
      using tcp_streamD(3) [OF _ recv] assms(1) poll(2) by (auto simp: tcp_ready_def)
    have len: "length bs > 0" "length (incoming n) = length bs + length (incoming n2)" using got by simp_all
    then have "\<exists>c' n'. read_until fuel pf os fd d target (c\<lparr>tc_receive_buffer := tc_receive_buffer c @ bs\<rparr>) n2 =
        Some (Inr True, c', n')"
    proof (intro Suc.IH)
      show "target - length (tc_receive_buffer (c\<lparr>tc_receive_buffer := tc_receive_buffer c @ bs\<rparr>)) \<le> fuel"
        using Suc.prems(1) len(1) by (simp del: length_greater_0_conv)
      show "target - length (tc_receive_buffer (c\<lparr>tc_receive_buffer := tc_receive_buffer c @ bs\<rparr>)) \<le> length (incoming n2)"
        using Suc.prems(2) len(2) by simp
    qed
    then show ?thesis using True poll recv by simp
  qed simp
qed

lemma tcp_receive_ready:
  assumes ready: "tcp_ready os (tc_socket_fd c) incoming" and "0 \<le> tc_socket_fd c"
    and u: "stream_unit (tc_limits c) u" and split: "tc_receive_buffer c @ incoming n = u @ rest"
      "length (tc_receive_buffer c) \<le> length u"
    and fuel: "length u \<le> fuel" "0 < pf"
  shows "\<exists>n'. tcp_receive_frame fuel pf os timeout c n =
      Some (unit_result (tc_limits c) u, c\<lparr>tc_receive_buffer := []\<rparr>, n') \<and> incoming n' = rest"
proof -
  let ?fd = "tc_socket_fd c"
  have stream: "tcp_stream os ?fd incoming" using ready by (simp add: tcp_ready_def)
  have open_fd: "\<not> ?fd < 0" using assms(2) by simp
  have len: "56 \<le> length u" "length u = length (tc_receive_buffer c) + (length (incoming n) - length rest)"
    using u arg_cong [OF split(1), of length] split(2) by (auto simp: stream_unit_def)
  obtain d n0 where d: "deadline_after os timeout n = (d, n0)" by force
  have n0: "incoming n0 = incoming n" using deadline_after_incoming [OF stream d] .
  have "56 - length (tc_receive_buffer c) \<le> fuel" "56 - length (tc_receive_buffer c) \<le> length (incoming n0)"
    using len fuel(1) unfolding n0 by linarith+
  then obtain c1 n1 where one: "read_until fuel pf os ?fd d header_size c n0 = Some (Inr True, c1, n1)"
    using read_until_ready [OF ready fuel(2), of header_size c fuel n0 d] by auto
  obtain bs where c1: "c1 = c\<lparr>tc_receive_buffer := tc_receive_buffer c @ bs\<rparr>" "incoming n0 = bs @ incoming n1"
    "length (tc_receive_buffer c @ bs) \<le> length u"
    and size: "frame_size_from_header (Span (take header_size (tc_receive_buffer c1))) (tc_limits c1) = Inr (size_of u)"
    using header_phase [OF stream u split(1) [folded n0] split(2) one] .
  have split1: "tc_receive_buffer c1 @ incoming n1 = u @ rest" "length (tc_receive_buffer c1) \<le> length u"
    using c1 split(1) n0 by auto
  have "length (tc_receive_buffer c1) + length (incoming n1) = length u + length rest"
    using arg_cong [OF split1(1), of length] by simp
  then have "length u - length (tc_receive_buffer c1) \<le> fuel"
    "length u - length (tc_receive_buffer c1) \<le> length (incoming n1)"
    using fuel(1) by linarith+
  then obtain c2 n2 where two: "read_until fuel pf os ?fd d (length u) c1 n1 = Some (Inr True, c2, n2)"
    using read_until_ready [OF ready fuel(2)] by blast
  have "c2 = c1\<lparr>tc_receive_buffer := u\<rparr>" "incoming n2 = rest" using body_phase [OF stream split1 two] by simp_all
  then show ?thesis
    using tcp_receive_eval [OF open_fd d one _ size] two stream_unit_size [OF u] c1(1) by simp
qed

section \<open>Sending\<close>

text \<open>What the kernel promises of the other direction: \<open>outgoing n\<close> are the bytes the socket has taken so far,
  in order; a call takes a front part of what it is given, or nothing.\<close>

definition tcp_sink :: "'n os \<Rightarrow> int \<Rightarrow> ('n \<Rightarrow> byte_buffer) \<Rightarrow> bool" where
  "tcp_sink os fd outgoing \<longleftrightarrow>
     (\<forall>data n k n'. os_send os fd data n = (Sent k, n') \<longrightarrow>
        k \<le> length data \<and> outgoing n' = outgoing n @ take k data) \<and>
     (\<forall>data n e n'. os_send os fd data n = (SendFailed e, n') \<longrightarrow> outgoing n' = outgoing n)"

lemma send_loop_sink:
  assumes "tcp_sink os fd outgoing"
  shows "send_loop fuel os fd data offset n = Some (r, n') \<Longrightarrow> offset \<le> length data \<Longrightarrow>
    \<exists>k. outgoing n' = outgoing n @ take k (drop offset data) \<and>
      (if is_ok r then k = length data - offset else k < length data - offset)"
proof (induction fuel arbitrary: offset n)
  case 0
  then show ?case by (auto split: if_splits intro!: exI [of _ 0])
next
  case (Suc fuel)
  show ?case
  proof (cases "offset < length data")
    case False
    then show ?thesis using Suc.prems by (auto intro!: exI [of _ 0])
  next
    case True
    let ?chunk = "take (min (length data - offset) ssize_max) (drop offset data)"
    obtain so n1 where send: "os_send os fd ?chunk n = (so, n1)" by force
    show ?thesis
    proof (cases so)
      case (Sent k)
      then have k: "k \<le> length ?chunk" "outgoing n1 = outgoing n @ take k ?chunk"
        using assms send unfolding tcp_sink_def by blast+
      then have chunk: "k \<le> length data - offset" "take k ?chunk = take k (drop offset data)" by auto
      show ?thesis
      proof (cases "k = 0")
        case True
        then show ?thesis using Suc.prems \<open>offset < length data\<close> send Sent k by (auto intro!: exI [of _ 0])
      next
        case False
        then have run: "send_loop fuel os fd data (offset + k) n1 = Some (r, n')"
          using Suc.prems(1) \<open>offset < length data\<close> send Sent by simp
        have "offset + k \<le> length data" using chunk(1) Suc.prems(2) by linarith
        then obtain j where j: "outgoing n' = outgoing n1 @ take j (drop (offset + k) data)"
          "if is_ok r then j = length data - (offset + k) else j < length data - (offset + k)"
          using Suc.IH [OF run] by blast
        then have "outgoing n' = outgoing n @ take (k + j) (drop offset data)"
        proof -
          have "drop (offset + k) data = drop k (drop offset data)" by (simp add: add.commute)
          then show ?thesis using j(1) k(2) chunk(2) by (simp only: take_add append_assoc)
        qed
        then show ?thesis using j(2) chunk(1) by (intro exI [of _ "k + j"]) (auto split: if_splits)
      qed
    next
      case (SendFailed e)
      then have "outgoing n1 = outgoing n" using assms send unfolding tcp_sink_def by blast
      then show ?thesis
        using Suc.prems Suc.IH [of offset n1] True send SendFailed
        by (cases "e = EINTR") (auto intro!: exI [of _ 0])
    qed
  qed
qed

text \<open>The loop ends: a socket that is never interrupted needs at most one round per byte.\<close>

lemma send_loop_returns:
  assumes "\<And>data n n'. os_send os fd data n \<noteq> (SendFailed EINTR, n')"
  shows "length data - offset \<le> fuel \<Longrightarrow> send_loop fuel os fd data offset n \<noteq> None"
proof (induction fuel arbitrary: offset n)
  case (Suc fuel)
  let ?chunk = "take (min (length data - offset) ssize_max) (drop offset data)"
  obtain so n1 where send: "os_send os fd ?chunk n = (so, n1)" by force
  show ?case
    using Suc.IH [of "offset + k" n1 for k] Suc.prems send assms
    by (cases so) (auto simp: Let_def)
qed simp

text \<open>On a socket that takes some of what it is given, everything is sent.\<close>

lemma send_loop_succeeds:
  assumes "\<And>data n. data \<noteq> [] \<Longrightarrow> \<exists>k n'. os_send os fd data n = (Sent k, n') \<and> 0 < k"
  shows "length data - offset \<le> fuel \<Longrightarrow> \<exists>n'. send_loop fuel os fd data offset n = Some (Inr (), n')"
proof (induction fuel arbitrary: offset n)
  case (Suc fuel)
  show ?case
  proof (cases "offset < length data")
    case True
    then have "take (min (length data - offset) ssize_max) (drop offset data) \<noteq> []" by (simp add: ssize_max_def)
    then obtain k n1 where "os_send os fd (take (min (length data - offset) ssize_max) (drop offset data)) n = (Sent k, n1)"
      "0 < k" using assms by blast
    then show ?thesis using True Suc.IH [of "offset + k" n1] Suc.prems by (simp add: Let_def)
  qed simp
qed simp

section \<open>Both directions of a connection\<close>

text \<open>
  What a platform promises of the bytes written: \<open>out fd n\<close> is everything handed to descriptor \<open>fd\<close> since it is a
  socket. A new socket has nothing written to it, sending appends, and no other call of a connection, nor of
  setting one up, changes it.
\<close>

definition tcp_out :: "'n os \<Rightarrow> (int \<Rightarrow> 'n \<Rightarrow> byte_buffer) \<Rightarrow> bool" where
  "tcp_out os out \<longleftrightarrow>
     (\<forall>fd. tcp_sink os fd (out fd)) \<and>
     (\<forall>address nonblocking n fd n'. os_socket os address nonblocking n = (Inr fd, n') \<longrightarrow> out fd n' = []) \<and>
     (\<forall>fd n. out fd (snd (os_now os n)) = out fd n) \<and>
     (\<forall>fd ev t n. out fd (snd (os_poll os fd ev t n)) = out fd n) \<and>
     (\<forall>fd k n. out fd (snd (os_recv os fd k n)) = out fd n) \<and>
     (\<forall>fd n. out fd (snd (os_so_error os fd n)) = out fd n) \<and>
     (\<forall>fd n. out fd (snd (os_getfl os fd n)) = out fd n) \<and>
     (\<forall>fd flags n. out fd (snd (os_setfl os fd flags n)) = out fd n) \<and>
     (\<forall>fd address n. out fd (snd (os_connect os fd address n)) = out fd n) \<and>
     (\<forall>fd a b n. out fd (snd (os_set_sndtimeo os fd a b n)) = out fd n)"

lemma tcp_outD:
  assumes "tcp_out os out"
  shows "tcp_sink os fd (out fd)" and "os_socket os address nb n = (Inr fd, n') \<Longrightarrow> out fd n' = []"
    and "os_now os n = (t, n') \<Longrightarrow> out fd n' = out fd n"
    and "os_poll os fd ev tm n = (p, n') \<Longrightarrow> out fd n' = out fd n"
    and "os_recv os fd k n = (r, n') \<Longrightarrow> out fd n' = out fd n"
    and "os_so_error os fd n = (s, n') \<Longrightarrow> out fd n' = out fd n"
    and "os_getfl os fd n = (g, n') \<Longrightarrow> out fd n' = out fd n"
    and "os_setfl os fd flags n = (e, n') \<Longrightarrow> out fd n' = out fd n"
    and "os_connect os fd addr n = (e, n') \<Longrightarrow> out fd n' = out fd n"
    and "os_set_sndtimeo os fd a b n = (e, n') \<Longrightarrow> out fd n' = out fd n"
  using assms unfolding tcp_out_def by (metis snd_conv)+

lemma poll_timeout_ms_out: "tcp_out os out \<Longrightarrow> poll_timeout_ms os d n = (t, n') \<Longrightarrow> out fd n' = out fd n"
  by (auto simp: poll_timeout_ms_def Let_def split: prod.splits if_splits dest: tcp_outD(3))

lemma poll_socket_out:
  assumes out: "tcp_out os out"
  shows "poll_socket fuel os fd ev d n = Some (r, n') \<Longrightarrow> out fd n' = out fd n"
proof (induction fuel arbitrary: n)
  case (Suc fuel)
  obtain t n1 where t: "poll_timeout_ms os d n = (t, n1)" by force
  obtain p n2 where p: "os_poll os fd ev t n1 = (p, n2)" by force
  have n2: "out fd n2 = out fd n" using poll_timeout_ms_out [OF out t] tcp_outD(4) [OF out p] by simp
  obtain now n3 where now: "os_now os n2 = (now, n3)" by force
  show ?case
    using Suc.prems Suc.IH t p now n2 tcp_outD(3) [OF out now, of fd]
    by (cases p) (auto simp: Let_def split: if_splits)
qed simp

text \<open>Without an exception, reading only changes the buffer of the connection.\<close>

lemma read_until_out:
  assumes out: "tcp_out os out"
  shows "read_until fuel pf os fd d wanted c n = Some (Inr b, c', n') \<Longrightarrow>
    out fd n' = out fd n \<and> tc_socket_fd c' = tc_socket_fd c \<and> tc_limits c' = tc_limits c"
proof (induction fuel arbitrary: c n)
  case 0
  then show ?case by (auto split: if_splits)
next
  case (Suc fuel)
  show ?case
  proof (cases "length (tc_receive_buffer c) < wanted")
    case False
    then show ?thesis using Suc.prems by simp
  next
    case True
    obtain ro n1 where poll: "poll_socket pf os fd POLLIN d n = Some (Inr ro, n1)"
      using Suc.prems True by (auto split: option.splits sum.splits)
    show ?thesis
    proof (cases ro)
      case None
      then show ?thesis using Suc.prems True poll poll_socket_out [OF out poll] by auto
    next
      case (Some ev)
      obtain rr n2 where recv: "os_recv os fd (min 8192 (wanted - length (tc_receive_buffer c))) n1 = (rr, n2)" by force
      obtain now n3 where now: "os_now os n2 = (now, n3)" by force
      have same: "out fd n2 = out fd n" "out fd n3 = out fd n"
        using poll_socket_out [OF out poll] tcp_outD(5) [OF out recv] tcp_outD(3) [OF out now] by simp_all
      show ?thesis
        using Suc.prems Suc.IH [of "c\<lparr>tc_receive_buffer := tc_receive_buffer c @ bs\<rparr>" n2 for bs] Suc.IH [of c n3]
          True poll Some recv now same
        by (cases rr) (auto split: if_splits)
    qed
  qed
qed

lemma tcp_receive_out:
  assumes out: "tcp_out os out" and run: "tcp_receive_frame fuel pf os timeout c n = Some (Inr fo, c', n')"
  shows "out (tc_socket_fd c) n' = out (tc_socket_fd c) n \<and> tc_socket_fd c' = tc_socket_fd c \<and> tc_limits c' = tc_limits c"
proof -
  obtain d n0 where d: "deadline_after os timeout n = (d, n0)" by force
  then have n0: "out fd n0 = out fd n" for fd
    using tcp_outD(3) [OF out] by (auto simp: deadline_after_def split: prod.splits)
  note keeps = read_until_out [OF out]
  show ?thesis
    using run d n0
    by (auto simp: tcp_receive_frame_def Let_def split: if_splits option.splits sum.splits bool.splits dest!: keeps)
qed

lemma await_connect_out:
  "tcp_out os out \<Longrightarrow> await_connect pf os d fd flags e n = Some (Inr (Connected fd'), n') \<Longrightarrow> fd' = fd \<and> out fd n' = out fd n"
  by (auto simp: await_connect_def finish_connect_def Let_def split: option.splits sum.splits prod.splits if_splits)
    (metis poll_socket_out tcp_outD(6,8))

lemma try_address_out:
  assumes "tcp_out os out" and "try_address pf os d address e n = Some (Inr (Connected fd), n')"
  shows "out fd n' = []"
  using assms
  by (auto simp: try_address_def finish_connect_def Let_def split: option.splits sum.splits prod.splits if_splits
      dest!: await_connect_out [OF assms(1)])
    (metis tcp_outD(2,7-9))+

lemma try_connect_out:
  "tcp_out os out \<Longrightarrow> try_connect pf os d addresses e n = Some (Connected fd, n') \<Longrightarrow> out fd n' = []"
  by (induction addresses arbitrary: e n) (auto split: option.splits sum.splits dest: try_address_out)

lemma tcp_connect_out:
  assumes "tcp_out os out" and "tcp_connect pf os timeout cl n = Some (Inr c, n')"
  shows "out (tc_socket_fd c) n' = [] \<and> tc_limits c = tcl_frame_limits cl \<and> tc_receive_buffer c = []"
  using assms
  by (auto simp: tcp_connect_def tcp_connection_new_def Let_def
      split: option.splits sum.splits prod.splits connect_end.splits bool.splits dest: try_connect_out)

definition tcp_send :: "'n os \<Rightarrow> nat \<Rightarrow> frame \<Rightarrow> tcp_connection \<times> 'n \<Rightarrow> (unit result \<times> tcp_connection \<times> 'n) option" where
  "tcp_send os fuel f s = (case tcp_send_frame fuel os f (fst s) (snd s) of
     None \<Rightarrow> None | Some (r, n) \<Rightarrow> Some (r, fst s, n))"

definition tcp_written :: "'n os \<Rightarrow> (int \<Rightarrow> 'n \<Rightarrow> byte_buffer) \<Rightarrow> tcp_connection \<times> 'n \<Rightarrow> frame list \<Rightarrow> bool" where
  "tcp_written os out s fs \<longleftrightarrow> tcp_out os out \<and> tc_limits (fst s) = default_limits \<and>
     (\<forall>f \<in> set fs. is_ok (encode_frame f default_limits)) \<and>
     ((\<forall>f \<in> set fs. frame_ok f) \<longrightarrow> out (tc_socket_fd (fst s)) (snd s) = wire_image fs)"

lemma tcp_send_written:
  assumes "tcp_written os out (c, n) fs" and "tcp_send os fuel f (c, n) = Some (Inr (), s')"
  shows "tcp_written os out s' (fs @ [f])"
proof -
  have out: "tcp_out os out" and lim: "tc_limits c = default_limits" using assms(1) by (auto simp: tcp_written_def)
  obtain n' where send: "tcp_send_frame fuel os f c n = Some (Inr (), n')" and s': "s' = (c, n')"
    using assms(2) by (auto simp: tcp_send_def split: option.splits)
  then obtain bs where bs: "encode_frame f default_limits = Inr bs"
    "send_loop fuel os (tc_socket_fd c) bs 0 n = Some (Inr (), n')"
    using lim by (auto simp: tcp_send_frame_def send_all_def split: sum.splits if_splits)
  have "out (tc_socket_fd c) n' = out (tc_socket_fd c) n @ bs"
    using send_loop_sink [OF tcp_outD(1) [OF out] bs(2)] by auto
  moreover have "bs = frame_image f" if "frame_ok f" using that bs(1) encode_frame_Inr [of f default_limits bs] by blast
  ultimately show ?thesis using assms(1) bs(1) s' by (auto simp: tcp_written_def wire_image_def)
qed

interpretation tcp_link: frame_link "tcp_send os" "tcp_written os out" "tcp_source os" for os :: "'n os" and out
proof unfold_locales
  fix s s' :: "tcp_connection \<times> 'n" and fs q f
  assume "tcp_written os out s fs" "tcp_send os q f s = Some (Inr (), s')"
  then show "tcp_written os out s' (fs @ [f])" using tcp_send_written [of os out "fst s" "snd s"] by simp
next
  fix s s' :: "tcp_connection \<times> 'n" and fs q fo
  assume "tcp_written os out s fs" "tcp_source os q s = Some (Inr fo, s')"
  then show "tcp_written os out s' fs"
    using tcp_receive_out [of os out _ _ _ "fst s" "snd s" fo "fst s'" "snd s'"]
    by (auto simp: tcp_source_def tcp_written_def split: prod.splits)
qed

section \<open>Properties of the stream transport\<close>

text \<open>C5: Frames survive the stream: however the kernel cuts and joins the bytes, and however often calls time
  out in between, the frames that a sequence of \<^verbatim>\<open>receive_frame\<close> calls returns are the frames
  whose encodings make up the stream, in order, without gap or repetition, and what has not been
  returned yet is still to come.\<close>

theorem tcp_delivers_in_order:
  assumes "tcp_stream os (tc_socket_fd c) incoming" and "tc_receive_buffer c = []"
    and "\<forall>f \<in> set fs. sendable (tc_limits c) f" and "incoming n = wire_image fs"
    and "collect (tcp_source os) calls (c, n) = (gs, t)"
  shows "\<exists>rest. fs = gs @ rest \<and> (\<forall>s'. t = Some s' \<longrightarrow> tcp_pending os s' rest)"
proof -
  have "tcp_pending os (c, n) fs" using assms(1-4) by (auto simp: tcp_pending_def tcp_holds_def split: list.splits)
  then show ?thesis using assms(5) by (rule tcp.collect_in_order)
qed

text \<open>C32: When the data is at hand, one call of \<^verbatim>\<open>receive_frame\<close> consumes exactly the next unit of the
  stream, with one round of the loop per byte at most: it returns the frame, or throws what
  \<^verbatim>\<open>decode_frame\<close> throws on a corrupted one; either way the connection stands at the
  beginning of the next frame.\<close>

theorem tcp_receive_resynchronises:
  assumes "tcp_ready os (tc_socket_fd c) incoming" and "0 \<le> tc_socket_fd c"
    and "stream_unit (tc_limits c) u" and "\<forall>f \<in> set fs. sendable (tc_limits c) f"
    and "tc_receive_buffer c @ incoming n = u @ wire_image fs" and "length (tc_receive_buffer c) \<le> length u"
    and "length u \<le> fuel" and "0 < pf"
  shows "\<exists>c' n'. tcp_receive_frame fuel pf os timeout c n =
      Some (rbind (decode_frame (Span u) (tc_limits c)) (\<lambda>f. Inr (Some f)), c', n') \<and>
    tcp_pending os (c', n') fs \<and> tcp_is_open c' \<and> tc_receive_buffer c' = []"
proof -
  obtain n' where "tcp_receive_frame fuel pf os timeout c n =
      Some (unit_result (tc_limits c) u, c\<lparr>tc_receive_buffer := []\<rparr>, n')" "incoming n' = wire_image fs"
    using tcp_receive_ready [OF assms(1-3,5-8)] by blast
  moreover have "tcp_stream os (tc_socket_fd c) incoming" using assms(1) by (simp add: tcp_ready_def)
  ultimately show ?thesis
    using assms(2,4)
    by (intro exI [of _ "c\<lparr>tc_receive_buffer := []\<rparr>"] exI [of _ n'])
      (auto simp: unit_result_def tcp_pending_def tcp_holds_def tcp_is_open_def split: list.splits)
qed

text \<open>\<^verbatim>\<open>send_frame\<close> sends whole frames: a call that returns has put the complete encoding of the
  frame on the wire, after everything sent before; a call that throws has sent a proper part of it,
  never all and never anything else; and with a socket that is not interrupted for ever the loop
  ends within one round per byte.\<close>

theorem tcp_send_whole:
  assumes "tcp_sink os (tc_socket_fd c) outgoing" and "sendable (tc_limits c) f" and "0 \<le> tc_socket_fd c"
  shows "(\<forall>r n'. tcp_send_frame fuel os f c n = Some (r, n') \<longrightarrow>
      (if is_ok r then outgoing n' = outgoing n @ frame_image f
       else \<exists>k < length (frame_image f). outgoing n' = outgoing n @ take k (frame_image f))) \<and>
    ((\<forall>data n n'. os_send os (tc_socket_fd c) data n \<noteq> (SendFailed EINTR, n')) \<longrightarrow>
      length (frame_image f) \<le> fuel \<longrightarrow> tcp_send_frame fuel os f c n \<noteq> None)"
proof -
  have eq: "tcp_send_frame fuel os f c n = send_loop fuel os (tc_socket_fd c) (frame_image f) 0 n"
    using sendable_encodes [OF assms(2)] assms(3) by (simp add: tcp_send_frame_def send_all_def)
  have "if is_ok r then outgoing n' = outgoing n @ frame_image f
       else \<exists>k < length (frame_image f). outgoing n' = outgoing n @ take k (frame_image f)"
    if "send_loop fuel os (tc_socket_fd c) (frame_image f) 0 n = Some (r, n')" for r n'
    using send_loop_sink [OF assms(1) that] by (auto split: if_splits)
  then show ?thesis using send_loop_returns [of os "tc_socket_fd c" "frame_image f" 0 fuel n] eq by auto
qed

section \<open>A concrete socket\<close>

text \<open>A platform for the instances: its state is what is to be read and what was sent; reading gives at
  most three bytes, sending takes at most five.\<close>

definition piecemeal :: "(byte_buffer \<times> byte_buffer) os" where
  "piecemeal = \<lparr>os_now = (\<lambda>n. (0, n)), os_poll = (\<lambda>fd ev t n. (PollReady POLLIN, n)),
     os_recv = (\<lambda>fd k n. if fst n = [] then (RecvEof, n)
       else if k = 0 then (RecvFailed EAGAIN, n)
       else (Received (take (min k 3) (fst n)), drop (min k 3) (fst n), snd n)),
     os_send = (\<lambda>fd data n. (Sent (min 5 (length data)), fst n, snd n @ take 5 data)),
     os_recvmsg = (\<lambda>fd k n. (RecvmsgFailed (Errno 95), n)), os_sendto = (\<lambda>fd d a n. (SendFailed (Errno 95), n)),
     os_shutdown = (\<lambda>fd n. n), os_close = (\<lambda>fd n. n), os_set_sndtimeo = (\<lambda>fd a b n. (None, n)),
     os_set_reuseaddr = (\<lambda>fd n. n), os_so_error = (\<lambda>fd n. (Inr None, n)),
     os_getsockname = (\<lambda>fd n. (Inr (AF_INET, 7), n)), os_getaddrinfo = (\<lambda>a b c d n. (Inr [], n)),
     os_socket = (\<lambda>a b n. (Inl (Errno 24), n)), os_bind = (\<lambda>fd a n. (None, n)),
     os_listen = (\<lambda>fd k n. (None, n)), os_accept = (\<lambda>fd n. (Inl EAGAIN, n)), os_connect = (\<lambda>fd a n. (None, n)),
     os_getfd = (\<lambda>fd n. (Inr 0, n)), os_setfd = (\<lambda>fd k n. (None, n)), os_getfl = (\<lambda>fd n. (Inr 0, n)),
     os_setfl = (\<lambda>fd k n. (None, n)), os_strerror = (\<lambda>e. ''error'')\<rparr>"

lemma piecemeal_stream: "tcp_stream piecemeal fd fst"
  by (auto simp: tcp_stream_def piecemeal_def split: if_splits)

lemma piecemeal_ready: "tcp_ready piecemeal fd fst"
proof -
  have "\<exists>bs n'. os_recv piecemeal fd k n = (Received bs, n')" if "0 < k" "fst n \<noteq> []" for k n
    using that by (simp add: piecemeal_def)
  then show ?thesis
    using piecemeal_stream by (simp add: tcp_ready_def) (simp add: piecemeal_def poll_consts)
qed

lemma piecemeal_sink: "tcp_sink piecemeal fd snd"
  by (auto simp: tcp_sink_def piecemeal_def min_def)

text \<open>A variant on which connections can be opened: a new socket has nothing sent.\<close>

definition reachable_host :: "(byte_buffer \<times> byte_buffer) os" where
  "reachable_host = piecemeal\<lparr>os_getaddrinfo := (\<lambda>a b c d n. (Inr [\<lparr>ai_family = AF_INET, ai_addr = []\<rparr>], n)),
     os_socket := (\<lambda>a b n. (Inr 4, fst n, []))\<rparr>"

lemma reachable_host_ready: "tcp_ready reachable_host fd fst"
  using piecemeal_ready [of fd] by (simp add: tcp_ready_def tcp_stream_def reachable_host_def)

lemma reachable_host_out: "tcp_out reachable_host (\<lambda>fd. snd)"
  using piecemeal_sink by (auto simp: tcp_out_def tcp_sink_def reachable_host_def piecemeal_def)

lemma reachable_host_takes: "data \<noteq> [] \<Longrightarrow> \<exists>k n'. os_send reachable_host fd data n = (Sent k, n') \<and> 0 < k"
  by (simp add: reachable_host_def piecemeal_def)

lemma reachable_host_read:
  "wanted - length (tc_receive_buffer c) \<le> fuel \<Longrightarrow> \<exists>r. read_until fuel 1 reachable_host fd d wanted c n = Some r"
proof (induction fuel arbitrary: c n)
  case (Suc fuel)
  have poll: "poll_socket 1 reachable_host fd POLLIN d n = Some (Inr (Some POLLIN), n)"
    by (simp add: poll_timeout_ms_def reachable_host_def piecemeal_def poll_consts Let_def)
  obtain r n1 where recv: "os_recv reachable_host fd (min 8192 (wanted - length (tc_receive_buffer c))) n = (r, n1)"
    by (rule prod.exhaust)
  show ?case
  proof (cases r)
    case (Received bs)
    then have "bs \<noteq> []" using recv by (auto simp: reachable_host_def piecemeal_def split: if_splits)
    then have "wanted - length (tc_receive_buffer c @ bs) \<le> fuel" using Suc.prems by (cases bs) auto
    then show ?thesis using Suc.IH [of "c\<lparr>tc_receive_buffer := tc_receive_buffer c @ bs\<rparr>" n1] poll recv Received by simp
  next
    case RecvEof
    then show ?thesis using poll recv by simp
  next
    case (RecvFailed e)
    have "os_recv reachable_host fd k n \<noteq> (RecvFailed e, n1)" if "k \<noteq> 0" for k
      using that by (auto simp: reachable_host_def piecemeal_def)
    then have "\<not> length (tc_receive_buffer c) < wanted" using recv RecvFailed by fastforce
    then show ?thesis by simp
  qed
qed simp

lemma reachable_host_receive: "\<exists>r. tcp_receive_frame (2 ^ 64) 1 reachable_host timeout c n = Some r"
proof -
  obtain d n0 where d: "deadline_after reachable_host timeout n = (d, n0)" by (rule prod.exhaust)
  define fuel :: nat where "fuel = 2 ^ 64"
  have "header_size - length (tc_receive_buffer c) \<le> fuel" by (simp add: fuel_def)
  then obtain r where "read_until fuel 1 reachable_host (tc_socket_fd c) d header_size c n0 = Some r"
    using reachable_host_read by blast
  then obtain r1 c1 n1 where one: "read_until fuel 1 reachable_host (tc_socket_fd c) d header_size c n0 = Some (r1, c1, n1)"
    by (metis prod_cases3)
  have "unat (k :: u64) - x \<le> fuel" for k x
    using unsigned_less [of k, where 'a = nat] by (simp add: fuel_def le_diff_conv)
  then have two: "\<exists>r. read_until fuel 1 reachable_host (tc_socket_fd c1) d (unat (k :: u64)) c1 n1 = Some r" for k
    using reachable_host_read by blast
  have "\<exists>r. tcp_receive_frame fuel 1 reachable_host timeout c n = Some r"
  proof (cases "\<not> tc_socket_fd c < 0 \<and> r1 = Inr True")
    case False
    then show ?thesis using d one by (cases r1) (auto simp: tcp_receive_frame_def split: bool.splits)
  next
    case True
    show ?thesis
    proof (cases "frame_size_from_header (Span (take header_size (tc_receive_buffer c1))) (tc_limits c1)")
      case (Inl e)
      then show ?thesis using d one True by (simp add: tcp_receive_frame_def)
    next
      case (Inr k)
      obtain r2 c2 n2 where "read_until fuel 1 reachable_host (tc_socket_fd c1) d (unat k) c1 n1 = Some (r2, c2, n2)"
        using two by (metis prod_cases3)
      then show ?thesis using d one True Inr
        by (cases r2) (auto simp: tcp_receive_frame_def split: bool.splits sum.splits)
    qed
  qed
  then show ?thesis by (simp add: fuel_def)
qed

definition conn0 :: tcp_connection where
  "conn0 = tcp_connection_new 4 default_limits"

lemma sample_sendable: "sendable default_limits sample_frame"
  using sample_frame_ok sample_frame_encoded by (simp add: sendable_def)

theorem tcp_delivers_in_order_witness:
  "\<exists>gs t rest. collect (tcp_source piecemeal) [(200, 1, 10), (200, 1, 10)]
      (conn0, wire_image [sample_frame, sample_frame], []) = (gs, t) \<and>
    [sample_frame, sample_frame] = gs @ rest"
proof -
  obtain gs t where run: "collect (tcp_source piecemeal) [(200, 1, 10), (200, 1, 10)]
      (conn0, wire_image [sample_frame, sample_frame], []) = (gs, t)"
    by force
  have "\<exists>rest. [sample_frame, sample_frame] = gs @ rest \<and> (\<forall>s'. t = Some s' \<longrightarrow> tcp_pending piecemeal s' rest)"
    by (rule tcp_delivers_in_order [OF piecemeal_stream _ _ _ run])
      (use sample_sendable in \<open>simp_all add: conn0_def tcp_connection_new_def\<close>)
  then show ?thesis using run by blast
qed

theorem tcp_receive_resynchronises_witness:
  "\<exists>c' n'. tcp_receive_frame (length (frame_image sample_frame)) 1 piecemeal 10 conn0
      (frame_image sample_frame @ wire_image [sample_frame], []) = Some (Inr (Some sample_frame), c', n') \<and>
    tcp_pending piecemeal (c', n') [sample_frame]"
  using tcp_receive_resynchronises [OF piecemeal_ready, of conn0 "frame_image sample_frame" "[sample_frame]"
      "(frame_image sample_frame @ wire_image [sample_frame], [])" "length (frame_image sample_frame)" 1 10]
    sample_sendable sendable_stream_unit [OF sample_sendable] sendable_decodes [OF sample_sendable]
  by (auto simp: conn0_def tcp_connection_new_def)

theorem tcp_send_whole_witness:
  "\<exists>r n'. tcp_send_frame (length (frame_image sample_frame)) piecemeal sample_frame conn0 ([], []) = Some (r, n') \<and>
    (is_ok r \<longrightarrow> snd n' = frame_image sample_frame)"
proof -
  have s: "sendable (tc_limits conn0) sample_frame" "0 \<le> tc_socket_fd conn0"
    using sample_sendable by (simp_all add: conn0_def tcp_connection_new_def)
  have "\<forall>data n n'. os_send piecemeal (tc_socket_fd conn0) data n \<noteq> (SendFailed EINTR, n')" by (simp add: piecemeal_def)
  then obtain r n' where run: "tcp_send_frame (length (frame_image sample_frame)) piecemeal sample_frame conn0 ([], []) =
      Some (r, n')"
    using tcp_send_whole [OF piecemeal_sink s, of "length (frame_image sample_frame)" "([], [])"] by force
  moreover have "if is_ok r then snd n' = snd ([] :: byte_buffer, [] :: byte_buffer) @ frame_image sample_frame
      else \<exists>k < length (frame_image sample_frame). snd n' = snd ([] :: byte_buffer, [] :: byte_buffer) @ take k (frame_image sample_frame)"
    using tcp_send_whole [OF piecemeal_sink s, of "length (frame_image sample_frame)" "([], [])"] run by blast
  ultimately show ?thesis by auto
qed

end
