(* ===== verification/Rml_Descriptors.thy ===== *)
theory Rml_Descriptors
  imports Rml_Tcp
begin

text \<open>
  Ownership of socket descriptors while TCP connections are set up: what listening, accepting and
  connecting leave open, on success and on every failure.
\<close>

section \<open>Descriptors\<close>

text \<open>What the kernel promises of descriptors: \<open>opens n\<close> are the descriptors the process has open. Creating
  and accepting a socket opens a fresh one, \<open>close\<close> closes one, and no other call of the connection
  set-up changes them.\<close>

definition descriptors :: "'n os \<Rightarrow> ('n \<Rightarrow> int set) \<Rightarrow> bool" where
  "descriptors os opens \<longleftrightarrow>
     (\<forall>a nb n fd n'. os_socket os a nb n = (Inr fd, n') \<longrightarrow> fd \<notin> opens n \<and> opens n' = insert fd (opens n)) \<and>
     (\<forall>a nb n e n'. os_socket os a nb n = (Inl e, n') \<longrightarrow> opens n' = opens n) \<and>
     (\<forall>s n fd n'. os_accept os s n = (Inr fd, n') \<longrightarrow> fd \<notin> opens n \<and> opens n' = insert fd (opens n)) \<and>
     (\<forall>s n e n'. os_accept os s n = (Inl e, n') \<longrightarrow> opens n' = opens n) \<and>
     (\<forall>fd n. opens (os_close os fd n) = opens n - {fd}) \<and>
     (\<forall>n. opens (snd (os_now os n)) = opens n) \<and>
     (\<forall>fd ev t n. opens (snd (os_poll os fd ev t n)) = opens n) \<and>
     (\<forall>fd n. opens (os_set_reuseaddr os fd n) = opens n) \<and>
     (\<forall>fd a n. opens (snd (os_bind os fd a n)) = opens n) \<and>
     (\<forall>fd k n. opens (snd (os_listen os fd k n)) = opens n) \<and>
     (\<forall>fd a n. opens (snd (os_connect os fd a n)) = opens n) \<and>
     (\<forall>fd n. opens (snd (os_so_error os fd n)) = opens n) \<and>
     (\<forall>fd n. opens (snd (os_getfd os fd n)) = opens n) \<and>
     (\<forall>fd k n. opens (snd (os_setfd os fd k n)) = opens n) \<and>
     (\<forall>fd n. opens (snd (os_getfl os fd n)) = opens n) \<and>
     (\<forall>fd k n. opens (snd (os_setfl os fd k n)) = opens n) \<and>
     (\<forall>a b c d n. opens (snd (os_getaddrinfo os a b c d n)) = opens n)"

lemma descriptorsD:
  assumes "descriptors os opens"
  shows "os_socket os a nb n = (Inr fd, n') \<Longrightarrow> fd \<notin> opens n \<and> opens n' = insert fd (opens n)"
    and "os_socket os a nb n = (Inl e, n') \<Longrightarrow> opens n' = opens n"
    and "os_accept os fd' n = (Inr fd, n') \<Longrightarrow> fd \<notin> opens n \<and> opens n' = insert fd (opens n)"
    and "os_accept os fd' n = (Inl e, n') \<Longrightarrow> opens n' = opens n"
    and "opens (os_close os fd n) = opens n - {fd}"
    and "os_now os n = (t, n') \<Longrightarrow> opens n' = opens n"
    and "os_poll os fd ev tm n = (pr, n') \<Longrightarrow> opens n' = opens n"
    and "opens (os_set_reuseaddr os fd n) = opens n"
    and "os_bind os fd addr n = (eo, n') \<Longrightarrow> opens n' = opens n"
    and "os_listen os fd k n = (eo, n') \<Longrightarrow> opens n' = opens n"
    and "os_connect os fd addr n = (eo, n') \<Longrightarrow> opens n' = opens n"
    and "os_so_error os fd n = (so, n') \<Longrightarrow> opens n' = opens n"
    and "os_getfd os fd n = (fl, n') \<Longrightarrow> opens n' = opens n"
    and "os_setfd os fd k n = (eo, n') \<Longrightarrow> opens n' = opens n"
    and "os_getfl os fd n = (fl, n') \<Longrightarrow> opens n' = opens n"
    and "os_setfl os fd k n = (eo, n') \<Longrightarrow> opens n' = opens n"
    and "os_getaddrinfo os nd srv b1 b2 n = (gr, n') \<Longrightarrow> opens n' = opens n"
  using assms unfolding descriptors_def by (metis snd_conv)+

text \<open>The effect on the open descriptors: unchanged, or one fresh descriptor more.\<close>

definition balanced :: "int set \<Rightarrow> int option \<Rightarrow> int set \<Rightarrow> bool" where
  "balanced A fdo B \<longleftrightarrow> (case fdo of None \<Rightarrow> B = A | Some fd \<Rightarrow> fd \<notin> A \<and> B = insert fd A)"

lemma balanced_simps [simp]: "balanced A None B \<longleftrightarrow> B = A"
  "balanced A (Some fd) B \<longleftrightarrow> fd \<notin> A \<and> B = insert fd A"
  by (simp_all add: balanced_def)

fun bound_fd :: "'e + int \<Rightarrow> int option" where
  "bound_fd (Inl e) = None" | "bound_fd (Inr fd) = Some fd"

fun accepted_fd :: "tcp_connection option result \<Rightarrow> int option" where
  "accepted_fd (Inr (Some c)) = Some (tc_socket_fd c)" | "accepted_fd r = None"

fun server_fd :: "tcp_server result \<Rightarrow> int option" where
  "server_fd (Inl e) = None" | "server_fd (Inr s) = Some (ts_socket_fd s)"

fun connection_fd :: "tcp_connection result \<Rightarrow> int option" where
  "connection_fd (Inl e) = None" | "connection_fd (Inr c) = Some (tc_socket_fd c)"

fun end_fd :: "connect_end \<Rightarrow> int option" where
  "end_fd (Connected fd) = Some fd" | "end_fd e = None"

section \<open>Polling and listening\<close>

lemma poll_socket_opens:
  assumes "descriptors os opens"
  shows "poll_socket pf os fd ev d n = Some (r, n') \<Longrightarrow> opens n' = opens n"
proof (induction pf arbitrary: n)
  case (Suc pf)
  note D = descriptorsD [OF assms]
  obtain v n1 where v: "poll_timeout_ms os d n = (v, n1)" by force
  obtain p n2 where p: "os_poll os fd ev v n1 = (p, n2)" by force
  obtain now n3 where now: "os_now os n2 = (now, n3)" by force
  have "opens n1 = opens n"
    using v D(6) by (cases "os_now os n") (auto simp: poll_timeout_ms_def Let_def split: if_splits)
  then have same: "opens n2 = opens n" "opens n3 = opens n" using D(7) [OF p] D(6) [OF now] by simp_all
  show ?case
  proof (cases p)
    case (PollFailed e)
    then show ?thesis using Suc v p now same by (auto split: if_splits)
  next
    case (PollReady revents)
    then show ?thesis using Suc v p same by (auto split: if_splits)
  qed (use Suc.prems v p same in auto)
qed simp

lemma try_bind_opens:
  assumes "descriptors os opens"
  shows "try_bind os backlog addresses prior n = (r, n') \<Longrightarrow>
    balanced (opens n) (bound_fd r) (opens n')"
proof (induction addresses arbitrary: prior n)
  case (Cons a rest)
  note D = descriptorsD [OF assms]
  obtain sr n1 where sock: "os_socket os a True n = (sr, n1)" by force
  show ?case
  proof (cases sr)
    case (Inl e)
    then show ?thesis using Cons.IH [of "Some e" n1] Cons.prems sock D(2) [of a True n e n1] by simp
  next
    case (Inr fd)
    let ?n2 = "os_set_reuseaddr os fd n1"
    obtain br n3 where bind: "os_bind os fd (ai_addr a) ?n2 = (br, n3)" by force
    obtain lr n4 where listen: "os_listen os fd backlog n3 = (lr, n4)" by force
    have o: "fd \<notin> opens n" "opens n3 = insert fd (opens n)" "opens n4 = insert fd (opens n)"
      using D(1) sock Inr D(8) D(9) [OF bind] D(10) [OF listen] by auto
    then have closed: "opens (os_close os fd n3) = opens n" "opens (os_close os fd n4) = opens n" using D(5) by auto
    show ?thesis
      using Cons.prems Cons.IH [of "br" "os_close os fd n3"] Cons.IH [of "lr" "os_close os fd n4"]
        sock Inr bind listen o closed
      by (cases br; cases lr) auto
  qed
qed auto

lemma accept_rounds_opens:
  assumes "descriptors os opens"
  shows "accept_rounds fuel pf os d s n = Some (r, n') \<Longrightarrow>
    balanced (opens n) (accepted_fd r) (opens n')"
proof (induction fuel arbitrary: n)
  case (Suc fuel)
  note D = descriptorsD [OF assms]
  obtain pr n1 where poll: "poll_socket pf os (ts_socket_fd s) POLLIN d n = Some (pr, n1)"
    using Suc.prems by (auto split: option.splits)
  note n1 = poll_socket_opens [OF assms poll]
  obtain ar n2 where acc: "os_accept os (ts_socket_fd s) n1 = (ar, n2)" by force
  show ?case
  proof (cases "\<exists>rv. pr = Inr (Some rv)")
    case False
    then show ?thesis using Suc.prems poll n1 by (cases pr rule: result_option_cases) auto
  next
    case True
    show ?thesis
    proof (cases ar)
      case (Inl e)
      obtain now n3 where now: "os_now os n2 = (now, n3)" by force
      have "opens n2 = opens n" "opens n3 = opens n" using D(4) acc Inl n1 D(6) [OF now] by auto
      then show ?thesis using Suc.prems Suc.IH [of n3] True poll acc Inl now by (auto split: if_splits)
    next
      case (Inr fd)
      obtain cr n3 where cloexec: "set_close_on_exec os fd n2 = (cr, n3)" by force
      have "opens n3 = opens n2"
        using cloexec D(13) D(14)
        by (auto simp: set_close_on_exec_def split: sum.splits option.splits prod.splits)
      moreover have "fd \<notin> opens n" "opens n2 = insert fd (opens n)" using D(3) [OF acc [unfolded Inr]] n1 by auto
      ultimately show ?thesis
        using Suc.prems True poll acc Inr cloexec D(5) [of fd n3]
        by (auto simp: tcp_connection_new_def split: sum.splits)
    qed
  qed
qed simp

section \<open>Connecting\<close>

text \<open>\<open>poll\<close> fails only by being interrupted, and never reports an invalid descriptor.\<close>

definition poll_sound :: "'n os \<Rightarrow> bool" where
  "poll_sound os \<longleftrightarrow>
     (\<forall>fd ev t n e n'. os_poll os fd ev t n = (PollFailed e, n') \<longrightarrow> e = EINTR) \<and>
     (\<forall>fd ev t n rv n'. os_poll os fd ev t n = (PollReady rv, n') \<longrightarrow> rv AND POLLNVAL = 0)"

lemma poll_socket_sound:
  assumes "poll_sound os"
  shows "poll_socket pf os fd ev d n = Some (r, n') \<Longrightarrow> is_ok r"
proof (induction pf arbitrary: n)
  case (Suc pf)
  obtain v n1 where v: "poll_timeout_ms os d n = (v, n1)" by force
  obtain p n2 where p: "os_poll os fd ev v n1 = (p, n2)" by force
  show ?case
  proof (cases p)
    case (PollFailed e)
    then have "e = EINTR" using assms p unfolding poll_sound_def by blast
    then show ?thesis using Suc v p PollFailed by (auto split: if_splits prod.splits)
  next
    case (PollReady revents)
    then have "revents AND POLLNVAL = 0" using assms p unfolding poll_sound_def by blast
    then show ?thesis using Suc v p PollReady by (auto split: if_splits)
  qed (use Suc.prems v p in auto)
qed simp

lemma finish_connect_opens:
  assumes "descriptors os opens" and "fd \<notin> A" and "opens n = insert fd A"
    and "finish_connect os fd flags n = (r, n')"
  shows "balanced A (end_fd r) (opens n')"
proof -
  obtain e n1 where "os_setfl os fd flags n = (e, n1)" by force
  then show ?thesis
    using assms descriptorsD(5,16) [OF assms(1)] by (cases e) (auto simp: finish_connect_def)
qed

fun step_fd :: "errno + connect_end \<Rightarrow> int option" where
  "step_fd (Inl e) = None" | "step_fd (Inr r) = end_fd r"

lemma await_connect_opens:
  assumes os: "descriptors os opens" "poll_sound os" and fresh: "fd \<notin> A" "opens n = insert fd A"
    and run: "await_connect pf os d fd flags prior n = Some (r, n')"
  shows "balanced A (step_fd r) (opens n')"
proof -
  note D = descriptorsD [OF os(1)]
  obtain pr n1 where poll: "poll_socket pf os fd POLLOUT d n = Some (pr, n1)"
    using run by (auto simp: await_connect_def split: option.splits)
  have n1: "opens n1 = insert fd A" using poll_socket_opens [OF os(1) poll] fresh by simp
  obtain so n2 where so: "os_so_error os fd n1 = (so, n2)" by force
  have n2: "opens n2 = insert fd A" using D(12) [OF so] n1 by simp
  obtain now n3 where now: "os_now os (os_close os fd n2) = (now, n3)" by force
  have closed: "opens (os_close os fd n1) = A" "opens (os_close os fd n2) = A" "opens n3 = A"
    using D(6) [OF now] D(5) n1 n2 fresh(1) by auto
  show ?thesis
  proof (cases pr rule: result_option_cases)
    case 1
    then show ?thesis using poll_socket_sound [OF os(2) poll] by simp
  next
    case 2
    then show ?thesis using run poll closed by (auto simp: await_connect_def)
  next
    case (3 rv)
    then show ?thesis
      using run poll so now closed finish_connect_opens [OF os(1) fresh(1) n2]
      by (cases so rule: result_option_cases) (auto simp: await_connect_def split: if_splits prod.splits)
  qed
qed

lemma try_address_opens:
  assumes os: "descriptors os opens" "poll_sound os" and run: "try_address pf os d a prior n = Some (r, n')"
  shows "balanced (opens n) (step_fd r) (opens n')"
proof -
  note D = descriptorsD [OF os(1)]
  obtain sr n1 where sock: "os_socket os a False n = (sr, n1)" by force
  show ?thesis
  proof (cases sr)
    case (Inl e)
    then show ?thesis using run sock D(2) [of a False n e n1] by (auto simp: try_address_def)
  next
    case (Inr fd)
    have fresh: "fd \<notin> opens n" "opens n1 = insert fd (opens n)" using D(1) sock Inr by auto
    obtain fr n2 where getfl: "os_getfl os fd n1 = (fr, n2)" by force
    obtain er n3 where setfl: "os_setfl os fd (projr fr OR O_NONBLOCK) n2 = (er, n3)" by force
    obtain cr n4 where conn: "os_connect os fd (ai_addr a) n3 = (cr, n4)" by force
    have o: "opens n2 = insert fd (opens n)" "opens n3 = insert fd (opens n)" "opens n4 = insert fd (opens n)"
      using D(15) [OF getfl] D(16) [OF setfl] D(11) [OF conn] fresh by simp_all
    then have closed: "opens (os_close os fd n2) = opens n" "opens (os_close os fd n3) = opens n"
      "opens (os_close os fd n4) = opens n"
      using D(5) fresh(1) by auto
    show ?thesis
      using run sock Inr getfl setfl conn closed finish_connect_opens [OF os(1) fresh(1) o(3)]
        await_connect_opens [OF os fresh(1) o(3)]
      by (cases fr; cases er; cases cr) (auto simp: try_address_def split: if_splits prod.splits)
  qed
qed

lemma try_connect_opens:
  assumes os: "descriptors os opens" "poll_sound os"
  shows "try_connect pf os d addresses prior n = Some (r, n') \<Longrightarrow> balanced (opens n) (end_fd r) (opens n')"
proof (induction addresses arbitrary: prior n)
  case (Cons a rest)
  then obtain sr n1 where step: "try_address pf os d a prior n = Some (sr, n1)" by (auto split: option.splits)
  show ?case
    using Cons.prems Cons.IH [of "Some (projl sr)" n1] step try_address_opens [OF os step] by (cases sr) auto
qed auto

section \<open>Properties of connection set-up\<close>

text \<open>C33: No descriptor is lost: listening, accepting and, as long as \<open>poll\<close> itself does not fail, connecting
  leave exactly one more descriptor open when they succeed, owned by the object they return, and
  exactly the same descriptors as before when they fail, time out or give up.\<close>

theorem tcp_descriptors_balanced:
  assumes "descriptors os opens"
  shows "(\<forall>r n'. tcp_server_new os address port options n = (r, n') \<longrightarrow> balanced (opens n) (server_fd r) (opens n')) \<and>
    (\<forall>r n'. accept fuel pf os timeout s n = Some (r, n') \<longrightarrow> balanced (opens n) (accepted_fd r) (opens n')) \<and>
    (poll_sound os \<longrightarrow> (\<forall>r n'. tcp_connect pf os timeout cl n = Some (r, n') \<longrightarrow>
       balanced (opens n) (connection_fd r) (opens n')))"
proof (intro conjI allI impI)
  note D = descriptorsD [OF assms]
  obtain d n1 where d: "deadline_after os timeout n = (d, n1)" by force
  have n1: "opens n1 = opens n"
    using d D(6) by (cases "os_now os n") (auto simp: deadline_after_def Let_def)
  show "balanced (opens n) (server_fd r) (opens n')" if "tcp_server_new os address port options n = (r, n')" for r n'
  proof -
    obtain gr n2 where get: "os_getaddrinfo os (if address = [] then None else Some address) (to_string (unat port))
        True True n = (gr, n2)"
      by force
    obtain br n3 where bind: "try_bind os (so_backlog options) (projr gr) None n2 = (br, n3)" by force
    show ?thesis
      using that get bind D(17) [OF get] try_bind_opens [OF assms bind]
      by (cases gr; cases br) (auto simp: tcp_server_new_def split: if_splits option.splits)
  qed
  show "balanced (opens n) (accepted_fd r) (opens n')" if "accept fuel pf os timeout s n = Some (r, n')" for r n'
    using that d n1 accept_rounds_opens [OF assms, of fuel pf d s n1 r n'] by (auto simp: accept_def split: if_splits)
  show "balanced (opens n) (connection_fd r) (opens n')"
    if "poll_sound os" "tcp_connect pf os timeout cl n = Some (r, n')" for r n'
  proof -
    obtain gr n2 where get: "os_getaddrinfo os (Some (tcl_host cl)) (to_string (unat (tcl_port cl))) True False n1 = (gr, n2)"
      by force
    show ?thesis
      using that(2) d n1 get D(17) [OF get] try_connect_opens [OF assms that(1), of pf d "projr gr" None n2]
      by (cases gr)
        (auto simp: tcp_connect_def tcp_connection_new_def split: option.splits connect_end.splits bool.splits)
  qed
qed

section \<open>A platform that hands out one socket\<close>

text \<open>Its state is the set of open descriptors. Connecting is in progress at once, and \<open>poll\<close> gives the
  outcome \<open>p\<close>.\<close>

definition one_socket :: "poll_outcome \<Rightarrow> int set os" where
  "one_socket p = \<lparr>os_now = (\<lambda>n. (0, n)), os_poll = (\<lambda>fd ev t n. (p, n)), os_recv = (\<lambda>fd k n. (RecvEof, n)),
     os_send = (\<lambda>fd data n. (Sent 0, n)), os_recvmsg = (\<lambda>fd k n. (RecvmsgFailed (Errno 95), n)),
     os_sendto = (\<lambda>fd d a n. (SendFailed (Errno 95), n)), os_shutdown = (\<lambda>fd n. n), os_close = (\<lambda>fd n. n - {fd}),
     os_set_sndtimeo = (\<lambda>fd a b n. (None, n)), os_set_reuseaddr = (\<lambda>fd n. n), os_so_error = (\<lambda>fd n. (Inr None, n)),
     os_getsockname = (\<lambda>fd n. (Inr (AF_INET, 7), n)),
     os_getaddrinfo = (\<lambda>a b c d n. (Inr [\<lparr>ai_family = AF_INET, ai_addr = []\<rparr>], n)),
     os_socket = (\<lambda>a b n. if 3 \<in> n then (Inl (Errno 24), n) else (Inr 3, insert 3 n)), os_bind = (\<lambda>fd a n. (None, n)),
     os_listen = (\<lambda>fd k n. (None, n)), os_accept = (\<lambda>fd n. (Inl EAGAIN, n)),
     os_connect = (\<lambda>fd a n. (Some EINPROGRESS, n)), os_getfd = (\<lambda>fd n. (Inr 0, n)), os_setfd = (\<lambda>fd k n. (None, n)),
     os_getfl = (\<lambda>fd n. (Inr 0, n)), os_setfl = (\<lambda>fd k n. (None, n)), os_strerror = (\<lambda>e. ''error'')\<rparr>"

lemma one_socket_descriptors: "descriptors (one_socket p) (\<lambda>n. n)"
  by (auto simp: descriptors_def one_socket_def split: if_splits)

definition client0 :: tcp_client where
  "client0 = \<lparr>tcl_host = ''robot'', tcl_port = 7, tcl_frame_limits = default_limits\<rparr>"

lemmas connect_eval = tcp_connect_def deadline_after_def try_address_def await_connect_def poll_timeout_ms_def
  int_max_def client0_def one_socket_def finish_connect_def tcp_connection_new_def poll_consts

theorem tcp_descriptors_balanced_witness:
  "\<exists>c. tcp_connect 1 (one_socket (PollReady POLLOUT)) 100 client0 {} = Some (Inr c, {3}) \<and> tc_socket_fd c = 3"
proof -
  obtain c n' where run: "tcp_connect 1 (one_socket (PollReady POLLOUT)) 100 client0 {} = Some (Inr c, n')"
    "tc_socket_fd c = 3"
    by (simp add: connect_eval)
  have "poll_sound (one_socket (PollReady POLLOUT))" by (simp add: poll_sound_def one_socket_def poll_consts)
  then have "balanced {} (connection_fd (Inr c)) n'"
    using tcp_descriptors_balanced [OF one_socket_descriptors [of "PollReady POLLOUT"], of "[]" 0 default_server_options "{}" 0 1 100
        "\<lparr>ts_socket_fd = -1, ts_options = default_server_options\<rparr>" client0] run(1)
    by blast
  then show ?thesis using run by simp
qed


end
