(* ===== verification/Rml_Session.thy ===== *)
theory Rml_Session
  imports Rml_Descriptors Rml_Network_Message
begin

text \<open>
  \<^verbatim>\<open>TcpSessionManager\<close> (\<^verbatim>\<open>transport/session_manager.hpp\<close>,
  \<^verbatim>\<open>src/transport/session_manager.cpp\<close>): accepting clients up to a limit, one receive loop with
  heartbeats and idle detection per client, sending to one or to all, and stopping. It is built on the
  TCP transport; the handler of frames acts on a world \<open>'w\<close>. Threads run in parallel: the system
  below interleaves rounds of the accept loop, rounds of the session loops and calls of the
  interface in any order. Atomics are taken as sequentially consistent.
\<close>

section \<open>Options and state\<close>

record session_options =
  sm_accept_poll_interval :: int
  sm_receive_poll_interval :: int
  sm_send_timeout :: int
  sm_heartbeat_interval :: int
  sm_idle_timeout :: int
  sm_max_clients :: size_t
  sm_server :: tcp_server_options

definition default_session_options :: session_options where
  "default_session_options = \<lparr>sm_accept_poll_interval = 50, sm_receive_poll_interval = 50, sm_send_timeout = 250,
     sm_heartbeat_interval = 500, sm_idle_timeout = 2000, sm_max_clients = 64, sm_server = default_server_options\<rparr>"

definition validate_session_options :: "session_options \<Rightarrow> unit result" where
  "validate_session_options options =
     (if sm_accept_poll_interval options \<le> 0 \<or> sm_receive_poll_interval options \<le> 0 \<or>
         sm_send_timeout options \<le> 0 \<or> sm_heartbeat_interval options \<le> 0 \<or>
         sm_idle_timeout options \<le> sm_heartbeat_interval options \<or>
         sm_accept_poll_interval options > 100 \<or> sm_receive_poll_interval options > 100 \<or>
         sm_max_clients options = 0
      then Inl (TransportError (''session intervals must be positive, poll intervals must not exceed '' @
        ''100 ms, idle_timeout must exceed heartbeat_interval, and '' @
        ''max_clients must be positive''))
      else Inr ())"

record session_stats =
  st_accepted :: u64
  st_rejected_clients :: u64
  st_active :: u64
  st_disconnected :: u64
  st_frames_received :: u64
  st_frames_sent :: u64
  st_heartbeats_received :: u64
  st_heartbeats_sent :: u64
  st_callback_errors :: u64
  st_transport_errors :: u64
  st_protocol_errors :: u64
  st_idle_timeouts :: u64

definition zero_session_stats :: session_stats where
  "zero_session_stats = \<lparr>st_accepted = 0, st_rejected_clients = 0, st_active = 0, st_disconnected = 0,
     st_frames_received = 0, st_frames_sent = 0, st_heartbeats_received = 0, st_heartbeats_sent = 0,
     st_callback_errors = 0, st_transport_errors = 0, st_protocol_errors = 0, st_idle_timeouts = 0\<rparr>"

text \<open>The locals of a session loop, in nanoseconds, and the state of its thread.\<close>

record worker_locals =
  wl_last_receive :: int
  wl_next_heartbeat :: int
  wl_heartbeat_sequence :: u64

datatype session_worker = InLoop worker_locals | Exited

record session =
  ss_id :: u64
  ss_connection :: tcp_connection
  ss_active :: bool
  ss_worker :: session_worker

record session_manager =
  sm_options :: session_options
  sm_tcp_server :: tcp_server
  sm_manager_id :: u64
  sm_running :: bool
  sm_accept_thread :: bool
  sm_sessions :: "session list"
  sm_next_session_id :: u64
  sm_stats :: session_stats

type_synonym 'w frame_handler = "u64 \<Rightarrow> frame \<Rightarrow> 'w \<Rightarrow> unit result \<times> 'w"

text \<open>Construction: the server is bound before the options are checked, and is closed again with the
  object when the check throws.\<close>

definition session_manager_new ::
  "'n os \<Rightarrow> string \<Rightarrow> u16 \<Rightarrow> bool \<Rightarrow> session_options \<Rightarrow> 'n \<Rightarrow> session_manager result \<times> 'n" where
  "session_manager_new os address port has_handler options n =
     (case tcp_server_new os address port (sm_server options) n of
        (Inl e, n1) \<Rightarrow> (Inl e, n1)
      | (Inr server, n1) \<Rightarrow> (case validate_session_options options of
            Inl e \<Rightarrow> (Inl e, snd (tcp_server_close os server n1))
          | Inr _ \<Rightarrow>
              if \<not> has_handler
              then (Inl (TransportError ''session manager frame handler must not be empty''),
                snd (tcp_server_close os server n1))
              else let (now, n2) = os_now os n1
              in (case tcp_server_local_port os server n2 of
                    (Inl e, n3) \<Rightarrow> (Inl e, snd (tcp_server_close os server n3))
                  | (Inr p, n3) \<Rightarrow>
                      (Inr \<lparr>sm_options = options, sm_tcp_server = server,
                         sm_manager_id = of_int now XOR ucast p, sm_running = False, sm_accept_thread = False,
                         sm_sessions = [], sm_next_session_id = 1, sm_stats = zero_session_stats\<rparr>, n3))))"

section \<open>Counting\<close>

definition tick :: "((u64 \<Rightarrow> u64) \<Rightarrow> session_stats \<Rightarrow> session_stats) \<Rightarrow> session_stats \<Rightarrow> session_stats" where
  "tick field st = field (\<lambda>k. k + 1) st"

definition mtick :: "((u64 \<Rightarrow> u64) \<Rightarrow> session_stats \<Rightarrow> session_stats) \<Rightarrow> session_manager \<Rightarrow> session_manager" where
  "mtick field m = m\<lparr>sm_stats := tick field (sm_stats m)\<rparr>"

section \<open>The session loop\<close>

primrec contains :: "string \<Rightarrow> string \<Rightarrow> bool" where
  "contains needle [] = (needle = [])"
| "contains needle (x # xs) = (take (length needle) (x # xs) = needle \<or> contains needle xs)"

definition is_orderly_peer_disconnect :: "string \<Rightarrow> bool" where
  "is_orderly_peer_disconnect what = contains ''peer disconnected'' what"

definition session_incoming ::
  "'w frame_handler \<Rightarrow> u64 \<Rightarrow> frame \<Rightarrow> session_stats \<Rightarrow> 'w \<Rightarrow> unit result \<times> session_stats \<times> 'w" where
  "session_incoming handler sid f st w =
     (if has_heartbeat_flag f
      then (if \<not> is_heartbeat_frame f
            then (Inl (TransportError ''malformed TCP heartbeat frame''), tick st_protocol_errors_update st, w)
            else (Inr (), tick st_heartbeats_received_update st, w))
      else if fr_flags f \<noteq> 0
      then (Inl (TransportError ''TCP frame uses unsupported flags''), tick st_protocol_errors_update st, w)
      else let st1 = tick st_frames_received_update st
      in (case handler sid f w of
            (Inr _, w1) \<Rightarrow> (Inr (), st1, w1)
          | (Inl e, w1) \<Rightarrow> (Inr (), tick st_callback_errors_update st1, w1)))"

text \<open>How a round ends when nothing is thrown.\<close>

datatype round_end = Continue | Break

definition session_keepalive ::
  "nat \<Rightarrow> 'n os \<Rightarrow> session_options \<Rightarrow> u64 \<Rightarrow> int \<Rightarrow> tcp_connection \<Rightarrow> worker_locals \<Rightarrow> session_stats \<Rightarrow> 'n \<Rightarrow>
   (round_end result \<times> worker_locals \<times> session_stats \<times> 'n) option" where
  "session_keepalive fuel os options mid now c wl st n =
     (let idle = (\<lambda>wl1 st1 n1. if now - wl_last_receive wl1 \<ge> sm_idle_timeout options * 1000000
            then Some (Inr Break, wl1, tick st_idle_timeouts_update st1, n1)
            else Some (Inr Continue, wl1, st1, n1))
      in if now < wl_next_heartbeat wl then idle wl st n
         else let (t, n1) = os_now os n;
                  wl1 = wl\<lparr>wl_heartbeat_sequence := wl_heartbeat_sequence wl + 1\<rparr>
         in (case tcp_send_frame fuel os (make_heartbeat_frame mid (wl_heartbeat_sequence wl) (of_int t)) c n1 of
               None \<Rightarrow> None
             | Some (Inl e, n2) \<Rightarrow> Some (Inl e, wl1, st, n2)
             | Some (Inr _, n2) \<Rightarrow>
                 idle (wl1\<lparr>wl_next_heartbeat := now + sm_heartbeat_interval options * 1000000\<rparr>)
                   (tick st_heartbeats_sent_update st) n2))"

definition session_round ::
  "nat \<Rightarrow> nat \<Rightarrow> 'n os \<Rightarrow> session_options \<Rightarrow> 'w frame_handler \<Rightarrow> u64 \<Rightarrow> u64 \<Rightarrow> tcp_connection \<Rightarrow> worker_locals \<Rightarrow>
   session_stats \<Rightarrow> 'n \<Rightarrow> 'w \<Rightarrow>
   (round_end result \<times> tcp_connection \<times> worker_locals \<times> session_stats \<times> 'n \<times> 'w) option" where
  "session_round fuel pf os options handler mid sid c wl st n w =
     (case tcp_receive_frame fuel pf os (sm_receive_poll_interval options) c n of
        None \<Rightarrow> None
      | Some (Inl e, c1, n1) \<Rightarrow> Some (Inl e, c1, wl, st, n1, w)
      | Some (Inr incoming, c1, n1) \<Rightarrow>
          let (now, n2) = os_now os n1
          in (case incoming of
                None \<Rightarrow> (case session_keepalive fuel os options mid now c1 wl st n2 of
                    None \<Rightarrow> None
                  | Some (r, wl1, st1, n3) \<Rightarrow> Some (r, c1, wl1, st1, n3, w))
              | Some f \<Rightarrow>
                  let wl0 = wl\<lparr>wl_last_receive := now\<rparr>
                  in (case session_incoming handler sid f st w of
                        (Inl e, st1, w1) \<Rightarrow> Some (Inl e, c1, wl0, st1, n2, w1)
                      | (Inr _, st1, w1) \<Rightarrow> (case session_keepalive fuel os options mid now c1 wl0 st1 n2 of
                            None \<Rightarrow> None
                          | Some (r, wl1, st2, n3) \<Rightarrow> Some (r, c1, wl1, st2, n3, w1)))))"

text \<open>The end of the loop: an exception is counted while the manager runs, unless the peer just
  disconnected; then the connection is given up.\<close>

definition session_failure :: "bool \<Rightarrow> exn option \<Rightarrow> session_stats \<Rightarrow> session_stats" where
  "session_failure running ex st =
     (case ex of
        None \<Rightarrow> st
      | Some (TransportError what) \<Rightarrow>
          if running \<and> \<not> is_orderly_peer_disconnect what then tick st_transport_errors_update st else st
      | Some e \<Rightarrow> if running then tick st_transport_errors_update st else st)"

definition session_exit :: "'n os \<Rightarrow> exn option \<Rightarrow> nat \<Rightarrow> session \<Rightarrow> session_manager \<Rightarrow> 'n \<Rightarrow> session_manager \<times> 'n" where
  "session_exit os ex i s m n =
     (let st1 = session_failure (sm_running m) ex (sm_stats m);
          n1 = interrupt os (ss_connection s) n;
          (c1, n2) = tcp_close os (ss_connection s) n1;
          st2 = (if ss_active s
            then tick st_disconnected_update (st_active_update (\<lambda>k. k - 1) st1) else st1)
      in (m\<lparr>sm_stats := st2, sm_sessions := (sm_sessions m)[i :=
            s\<lparr>ss_connection := c1, ss_active := False, ss_worker := Exited\<rparr>]\<rparr>, n2))"

text \<open>One round of the thread of session \<open>i\<close> with what follows from it, and one step of the thread: the loop test, and
  a round or the end.\<close>

definition session_body ::
  "nat \<Rightarrow> nat \<Rightarrow> 'n os \<Rightarrow> 'w frame_handler \<Rightarrow> nat \<Rightarrow> worker_locals \<Rightarrow> session_manager \<Rightarrow> 'n \<Rightarrow> 'w \<Rightarrow>
   (session_manager \<times> 'n \<times> 'w) option" where
  "session_body fuel pf os handler i wl m n w =
     (let s = sm_sessions m ! i
      in (case session_round fuel pf os (sm_options m) handler (sm_manager_id m) (ss_id s)
             (ss_connection s) wl (sm_stats m) n w of
            None \<Rightarrow> None
          | Some (r, c1, wl1, st1, n1, w1) \<Rightarrow>
              let s1 = s\<lparr>ss_connection := c1, ss_worker := InLoop wl1\<rparr>;
                  m1 = m\<lparr>sm_stats := st1, sm_sessions := (sm_sessions m)[i := s1]\<rparr>
              in (case r of
                    Inr Continue \<Rightarrow> Some (m1, n1, w1)
                  | Inr Break \<Rightarrow> (case session_exit os None i s1 m1 n1 of (m2, n2) \<Rightarrow> Some (m2, n2, w1))
                  | Inl e \<Rightarrow> (case session_exit os (Some e) i s1 m1 n1 of (m2, n2) \<Rightarrow> Some (m2, n2, w1)))))"

definition session_step ::
  "nat \<Rightarrow> nat \<Rightarrow> 'n os \<Rightarrow> 'w frame_handler \<Rightarrow> nat \<Rightarrow> session_manager \<Rightarrow> 'n \<Rightarrow> 'w \<Rightarrow>
   (session_manager \<times> 'n \<times> 'w) option" where
  "session_step fuel pf os handler i m n w =
     (let s = sm_sessions m ! i
      in (case ss_worker s of
            Exited \<Rightarrow> None
          | InLoop wl \<Rightarrow>
              if \<not> (sm_running m \<and> ss_active s)
              then (case session_exit os None i s m n of (m1, n1) \<Rightarrow> Some (m1, n1, w))
              else session_body fuel pf os handler i wl m n w))"

section \<open>The accept loop\<close>

definition reap_finished_sessions :: "session_manager \<Rightarrow> session_manager" where
  "reap_finished_sessions m = m\<lparr>sm_sessions := filter ss_active (sm_sessions m)\<rparr>"

definition accept_failure :: "session_manager \<Rightarrow> session_manager" where
  "accept_failure m = (if sm_running m then mtick st_transport_errors_update m else m)"

text \<open>\<open>spawn\<close>: whether the thread of the new session can be started. When it cannot, the session is removed
  again and the exception counted.\<close>

definition admit :: "'n os \<Rightarrow> bool \<Rightarrow> tcp_connection \<Rightarrow> session_manager \<Rightarrow> 'n \<Rightarrow> session_manager \<times> 'n" where
  "admit os spawn c m n =
     (let sid = sm_next_session_id m;
          m1 = m\<lparr>sm_next_session_id := sm_next_session_id m + 1\<rparr>
      in (case set_send_timeout os (sm_send_timeout (sm_options m)) c n of
            (Inl e, n1) \<Rightarrow> (accept_failure m1, snd (close_noexcept os c n1))
          | (Inr _, n1) \<Rightarrow>
              let m2 = mtick st_active_update (mtick st_accepted_update m1)
              in if spawn
                 then (let (now, n2) = os_now os n1;
                           s = \<lparr>ss_id = sid, ss_connection = c, ss_active = True,
                             ss_worker = InLoop \<lparr>wl_last_receive = now,
                               wl_next_heartbeat = now + sm_heartbeat_interval (sm_options m) * 1000000,
                               wl_heartbeat_sequence = 0\<rparr>\<rparr>
                       in (reap_finished_sessions (m2\<lparr>sm_sessions := sm_sessions m @ [s]\<rparr>), n2))
                 else (accept_failure (m2\<lparr>sm_stats := tick st_disconnected_update
                           (st_active_update (\<lambda>k. k - 1) (sm_stats m2))\<rparr>),
                       snd (tcp_close os c (interrupt os c n1)))))"

definition accept_round ::
  "nat \<Rightarrow> nat \<Rightarrow> 'n os \<Rightarrow> bool \<Rightarrow> session_manager \<Rightarrow> 'n \<Rightarrow> (session_manager \<times> 'n) option" where
  "accept_round fuel pf os spawn m n =
     (case accept fuel pf os (sm_accept_poll_interval (sm_options m)) (sm_tcp_server m) n of
        None \<Rightarrow> None
      | Some (Inl e, n1) \<Rightarrow> Some (accept_failure m, n1)
      | Some (Inr None, n1) \<Rightarrow> Some (reap_finished_sessions m, n1)
      | Some (Inr (Some c), n1) \<Rightarrow>
          if st_active (sm_stats m) \<ge> sm_max_clients (sm_options m)
          then Some (mtick st_rejected_clients_update m, snd (tcp_close os c (interrupt os c n1)))
          else Some (admit os spawn c m n1))"

section \<open>Sending\<close>

definition active_snapshot :: "session_manager \<Rightarrow> session list" where
  "active_snapshot m = filter ss_active (sm_sessions m)"

text \<open>Sending to one session of a snapshot: success, or the exception counted and the connection
  interrupted.\<close>

definition send_one :: "nat \<Rightarrow> 'n os \<Rightarrow> frame \<Rightarrow> session \<Rightarrow> session_manager \<Rightarrow> 'n \<Rightarrow> (bool \<times> session_manager \<times> 'n) option" where
  "send_one fuel os f s m n =
     (case tcp_send_frame fuel os f (ss_connection s) n of
        None \<Rightarrow> None
      | Some (Inr _, n1) \<Rightarrow> Some (True, mtick st_frames_sent_update m, n1)
      | Some (Inl e, n1) \<Rightarrow> Some (False, mtick st_transport_errors_update m, interrupt os (ss_connection s) n1))"

definition send_to ::
  "nat \<Rightarrow> 'n os \<Rightarrow> u64 \<Rightarrow> frame \<Rightarrow> session_manager \<Rightarrow> 'n \<Rightarrow> (bool \<times> session_manager \<times> 'n) option" where
  "send_to fuel os sid f m n =
     (case find (\<lambda>s. ss_id s = sid) (active_snapshot m) of
        None \<Rightarrow> Some (False, m, n)
      | Some s \<Rightarrow> send_one fuel os f s m n)"

primrec broadcast_loop ::
  "nat \<Rightarrow> 'n os \<Rightarrow> frame \<Rightarrow> session list \<Rightarrow> nat \<Rightarrow> session_manager \<Rightarrow> 'n \<Rightarrow> (nat \<times> session_manager \<times> 'n) option" where
  "broadcast_loop fuel os f [] sent m n = Some (sent, m, n)"
| "broadcast_loop fuel os f (s # ss) sent m n = (case send_one fuel os f s m n of
       None \<Rightarrow> None
     | Some (ok, m1, n1) \<Rightarrow> broadcast_loop fuel os f ss (if ok then sent + 1 else sent) m1 n1)"

definition broadcast :: "nat \<Rightarrow> 'n os \<Rightarrow> frame \<Rightarrow> session_manager \<Rightarrow> 'n \<Rightarrow> (nat \<times> session_manager \<times> 'n) option" where
  "broadcast fuel os f m n = broadcast_loop fuel os f (active_snapshot m) 0 m n"

section \<open>Starting and stopping\<close>

definition request_stop :: "'n os \<Rightarrow> session_manager \<Rightarrow> 'n \<Rightarrow> session_manager \<times> 'n" where
  "request_stop os m n =
     (m\<lparr>sm_running := False\<rparr>, fold (\<lambda>s. interrupt os (ss_connection s)) (sm_sessions m) n)"

text \<open>\<open>None\<close> while a thread that has to be joined has not ended.\<close>

definition finish_stop_locked :: "'n os \<Rightarrow> session_manager \<Rightarrow> 'n \<Rightarrow> (session_manager \<times> 'n) option" where
  "finish_stop_locked os m n =
     (if sm_accept_thread m \<or> \<not> list_all (\<lambda>s. ss_worker s = Exited) (sm_sessions m) then None
      else Some (m\<lparr>sm_sessions := []\<rparr>, fold (\<lambda>s. interrupt os (ss_connection s)) (sm_sessions m) n))"

text \<open>\<open>in_handler\<close>: the call comes from a handler of this manager. An external \<^verbatim>\<open>stop\<close> is its two halves,
  with the other threads running in between (the system below takes them as separate steps);
  \<open>session_stop\<close> is the call that finds them ended.\<close>

definition session_stop :: "'n os \<Rightarrow> bool \<Rightarrow> session_manager \<Rightarrow> 'n \<Rightarrow> (session_manager \<times> 'n) option" where
  "session_stop os in_handler m n =
     (if in_handler then Some (request_stop os m n)
      else (case request_stop os m n of (m1, n1) \<Rightarrow> finish_stop_locked os m1 n1))"

definition session_start ::
  "'n os \<Rightarrow> bool \<Rightarrow> bool \<Rightarrow> session_manager \<Rightarrow> 'n \<Rightarrow> (unit result \<times> session_manager \<times> 'n) option" where
  "session_start os in_handler spawn m n =
     (if in_handler
      then Some (Inl (TransportError ''session manager cannot be started from its frame handler''), m, n)
      else if sm_running m then Some (Inr (), m, n)
      else (case finish_stop_locked os m n of
          None \<Rightarrow> None
        | Some (m1, n1) \<Rightarrow>
            if spawn then Some (Inr (), m1\<lparr>sm_running := True, sm_accept_thread := True\<rparr>, n1)
            else Some (Inl SystemError, m1\<lparr>sm_running := False\<rparr>, n1)))"

definition session_is_running :: "session_manager \<Rightarrow> bool" where
  "session_is_running m = sm_running m"

definition session_local_port :: "'n os \<Rightarrow> session_manager \<Rightarrow> 'n \<Rightarrow> u16 result \<times> 'n" where
  "session_local_port os m n = tcp_server_local_port os (sm_tcp_server m) n"

definition session_stats_snapshot :: "session_manager \<Rightarrow> session_stats" where
  "session_stats_snapshot m = sm_stats m"

section \<open>The system\<close>

text \<open>
  Any interleaving of the accept thread, the session threads and calls from other threads or from
  handlers, with the platform and the world of the handlers changing on their own in between.
  Session numbers are 64 bits wide: a client is only admitted while they last.
\<close>

inductive mgr_step ::
  "'n os \<Rightarrow> 'w frame_handler \<Rightarrow> session_manager \<times> 'n \<times> 'w \<Rightarrow> session_manager \<times> 'n \<times> 'w \<Rightarrow> bool"
  for os :: "'n os" and handler :: "'w frame_handler" where
  AcceptRound: "sm_accept_thread m \<Longrightarrow> sm_running m \<Longrightarrow> unat (sm_next_session_id m) + 1 < 2 ^ 64 \<Longrightarrow>
    accept_round fuel pf os spawn m n = Some (m', n') \<Longrightarrow> mgr_step os handler (m, n, w) (m', n', w)"
| AcceptExit: "sm_accept_thread m \<Longrightarrow> \<not> sm_running m \<Longrightarrow>
    mgr_step os handler (m, n, w) ((reap_finished_sessions m)\<lparr>sm_accept_thread := False\<rparr>, n, w)"
| SessionStep: "i < length (sm_sessions m) \<Longrightarrow> session_step fuel pf os handler i m n w = Some (m', n', w') \<Longrightarrow>
    mgr_step os handler (m, n, w) (m', n', w')"
| SendTo: "send_to fuel os sid f m n = Some (ok, m', n') \<Longrightarrow> mgr_step os handler (m, n, w) (m', n', w)"
| Broadcast: "broadcast fuel os f m n = Some (k, m', n') \<Longrightarrow> mgr_step os handler (m, n, w) (m', n', w)"
| RequestStop: "request_stop os m n = (m', n') \<Longrightarrow> mgr_step os handler (m, n, w) (m', n', w)"
| FinishStop: "\<not> sm_running m \<Longrightarrow> finish_stop_locked os m n = Some (m', n') \<Longrightarrow>
    mgr_step os handler (m, n, w) (m', n', w)"
| Start: "session_start os in_handler spawn m n = Some (r, m', n') \<Longrightarrow> mgr_step os handler (m, n, w) (m', n', w)"
| Environment: "mgr_step os handler (m, n, w) (m, n', w')"

inductive mgr_reach :: "'n os \<Rightarrow> 'w frame_handler \<Rightarrow> session_manager \<times> 'n \<times> 'w \<Rightarrow> bool"
  for os :: "'n os" and handler :: "'w frame_handler" where
  Made: "session_manager_new os address port True options n = (Inr m, n') \<Longrightarrow> mgr_reach os handler (m, n', w)"
| Step: "mgr_reach os handler s \<Longrightarrow> mgr_step os handler s s' \<Longrightarrow> mgr_reach os handler s'"

section \<open>Stopping\<close>

text \<open>
  What happens from a call of \<^verbatim>\<open>request_stop\<close> in the state \<open>start\<close> on. The call may come at any moment: the
  sessions with a number in \<open>busy\<close> are in the middle of a round then, with the loop test behind them, and so may be the
  accept thread (\<open>accepting\<close>). Such a round still goes on to its end; afterwards the thread is at the loop test
  again. The relation counts the steps of these threads; sending, further stop requests and the environment come in
  between. A new start waits for the end of the stop.
\<close>

inductive stop_run ::
  "'n os \<Rightarrow> 'w frame_handler \<Rightarrow> session_manager \<times> 'n \<times> 'w \<Rightarrow> nat \<Rightarrow> u64 set \<Rightarrow> bool \<Rightarrow> session_manager \<times> 'n \<times> 'w \<Rightarrow> bool"
  for os :: "'n os" and handler :: "'w frame_handler" and start where
  Requested: "start = (m, n, w) \<Longrightarrow> request_stop os m n = (m1, n1) \<Longrightarrow> busy \<subseteq> ss_id ` set (sm_sessions m) \<Longrightarrow>
    (accepting \<longrightarrow> sm_accept_thread m) \<Longrightarrow> stop_run os handler start 0 busy accepting (m1, n1, w)"
| AcceptBusy: "stop_run os handler start k busy True (m, n, w) \<Longrightarrow> unat (sm_next_session_id m) + 1 < 2 ^ 64 \<Longrightarrow>
    accept_round fuel pf os spawn m n = Some (m', n') \<Longrightarrow> stop_run os handler start (Suc k) busy False (m', n', w)"
| AcceptRound: "stop_run os handler start k busy False (m, n, w) \<Longrightarrow> sm_accept_thread m \<Longrightarrow> sm_running m \<Longrightarrow>
    unat (sm_next_session_id m) + 1 < 2 ^ 64 \<Longrightarrow> accept_round fuel pf os spawn m n = Some (m', n') \<Longrightarrow>
    stop_run os handler start (Suc k) busy False (m', n', w)"
| AcceptExit: "stop_run os handler start k busy False (m, n, w) \<Longrightarrow> sm_accept_thread m \<Longrightarrow> \<not> sm_running m \<Longrightarrow>
    stop_run os handler start (Suc k) busy False ((reap_finished_sessions m)\<lparr>sm_accept_thread := False\<rparr>, n, w)"
| SessionBusy: "stop_run os handler start k busy accepting (m, n, w) \<Longrightarrow> i < length (sm_sessions m) \<Longrightarrow>
    ss_id (sm_sessions m ! i) \<in> busy \<Longrightarrow> ss_worker (sm_sessions m ! i) = InLoop wl \<Longrightarrow>
    session_body fuel pf os handler i wl m n w = Some (m', n', w') \<Longrightarrow>
    stop_run os handler start (Suc k) (busy - {ss_id (sm_sessions m ! i)}) accepting (m', n', w')"
| SessionStep: "stop_run os handler start k busy accepting (m, n, w) \<Longrightarrow> i < length (sm_sessions m) \<Longrightarrow>
    ss_id (sm_sessions m ! i) \<notin> busy \<Longrightarrow> session_step fuel pf os handler i m n w = Some (m', n', w') \<Longrightarrow>
    stop_run os handler start (Suc k) busy accepting (m', n', w')"
| SendTo: "stop_run os handler start k busy accepting (m, n, w) \<Longrightarrow> send_to fuel os sid f m n = Some (ok, m', n') \<Longrightarrow>
    stop_run os handler start k busy accepting (m', n', w)"
| Broadcast: "stop_run os handler start k busy accepting (m, n, w) \<Longrightarrow> broadcast fuel os f m n = Some (j, m', n') \<Longrightarrow>
    stop_run os handler start k busy accepting (m', n', w)"
| Again: "stop_run os handler start k busy accepting (m, n, w) \<Longrightarrow> request_stop os m n = (m', n') \<Longrightarrow>
    stop_run os handler start k busy accepting (m', n', w)"
| Environment: "stop_run os handler start k busy accepting (m, n, w) \<Longrightarrow>
    stop_run os handler start k busy accepting (m, n', w')"


definition live :: "session \<Rightarrow> bool" where
  "live s \<longleftrightarrow> ss_worker s \<noteq> Exited"

section \<open>The invariant\<close>

definition session_ok :: "session \<Rightarrow> bool" where
  "session_ok s \<longleftrightarrow> (ss_active s \<longleftrightarrow> ss_worker s \<noteq> Exited)"

definition mgr_ok :: "session_manager \<Rightarrow> bool" where
  "mgr_ok m \<longleftrightarrow>
     st_active (sm_stats m) = of_nat (num ss_active (sm_sessions m)) \<and>
     num ss_active (sm_sessions m) \<le> unat (sm_max_clients (sm_options m)) \<and>
     st_accepted (sm_stats m) = st_active (sm_stats m) + st_disconnected (sm_stats m) \<and>
     list_all session_ok (sm_sessions m) \<and>
     distinct (map ss_id (sm_sessions m)) \<and>
     list_all (\<lambda>s. ss_id s < sm_next_session_id m) (sm_sessions m)"

text \<open>The three counters of the invariant; nothing else of the statistics matters to it.\<close>

definition census :: "session_stats \<Rightarrow> u64 \<times> u64 \<times> u64" where
  "census st = (st_accepted st, st_active st, st_disconnected st)"

lemma census_tick [simp]:
  "census (tick st_rejected_clients_update st) = census st" "census (tick st_frames_received_update st) = census st"
  "census (tick st_frames_sent_update st) = census st" "census (tick st_heartbeats_received_update st) = census st"
  "census (tick st_heartbeats_sent_update st) = census st" "census (tick st_callback_errors_update st) = census st"
  "census (tick st_transport_errors_update st) = census st" "census (tick st_protocol_errors_update st) = census st"
  "census (tick st_idle_timeouts_update st) = census st"
  by (simp_all add: census_def tick_def)

lemma mgr_ok_flags [simp]:
  "mgr_ok (m\<lparr>sm_running := b\<rparr>) = mgr_ok m" "mgr_ok (m\<lparr>sm_accept_thread := b\<rparr>) = mgr_ok m"
  by (simp_all add: mgr_ok_def)

lemma mgr_ok_stats: "mgr_ok m \<Longrightarrow> census st = census (sm_stats m) \<Longrightarrow> mgr_ok (m\<lparr>sm_stats := st\<rparr>)"
  by (simp add: mgr_ok_def census_def)

lemma mtick_simps [simp]:
  "sm_sessions (mtick field m) = sm_sessions m" "sm_options (mtick field m) = sm_options m"
  "sm_next_session_id (mtick field m) = sm_next_session_id m" "sm_running (mtick field m) = sm_running m"
  "sm_stats (mtick field m) = tick field (sm_stats m)"
  by (simp_all add: mtick_def)

lemma session_failure_census [simp]: "census (session_failure running ex st) = census st"
  by (auto simp: session_failure_def split: option.splits exn.splits)

lemma session_incoming_census:
  "session_incoming handler sid f st w = (r, st', w') \<Longrightarrow> census st' = census st"
  by (auto simp: session_incoming_def Let_def split: if_splits prod.splits sum.splits)

lemma session_keepalive_census:
  "session_keepalive fuel os options mid now c wl st n = Some (r, wl', st', n') \<Longrightarrow> census st' = census st"
  by (auto simp: session_keepalive_def Let_def split: if_splits prod.splits sum.splits option.splits)

lemma session_round_census:
  assumes "session_round fuel pf os options handler mid sid c wl st n w = Some (r, c', wl', st', n', w')"
  shows "census st' = census st"
  using assms
  by (auto simp: session_round_def Let_def split: option.splits prod.splits sum.splits
      dest!: session_keepalive_census session_incoming_census)

lemma ids_update:
  "list_all (\<lambda>x. ss_id x < k) xs \<Longrightarrow> i < length xs \<Longrightarrow> ss_id s = ss_id (xs ! i) \<Longrightarrow>
    list_all (\<lambda>x. ss_id x < k) (xs[i := s])"
  by (rule list_all_update) (auto simp: list_all_length)

lemma mgr_ok_same_session:
  assumes "mgr_ok m" and "i < length (sm_sessions m)" and "ss_id s = ss_id (sm_sessions m ! i)"
    and "ss_active s = ss_active (sm_sessions m ! i)" and "session_ok s" and "census st = census (sm_stats m)"
  shows "mgr_ok (m\<lparr>sm_stats := st, sm_sessions := (sm_sessions m)[i := s]\<rparr>)"
proof -
  have ids: "map ss_id ((sm_sessions m)[i := s]) = map ss_id (sm_sessions m)"
    using assms(2,3) by (simp add: map_update list_update_same_conv)
  have act: "num ss_active ((sm_sessions m)[i := s]) = num ss_active (sm_sessions m)"
    using num_update [OF assms(2), of ss_active s] assms(4) by (auto split: if_splits)
  have "list_all (\<lambda>x. ss_id x < sm_next_session_id m) ((sm_sessions m)[i := s])"
    using assms(1-3) by (intro ids_update) (simp_all add: mgr_ok_def)
  then show ?thesis
    using assms ids act list_all_update [of session_ok "sm_sessions m" s i] by (simp add: mgr_ok_def census_def)
qed

lemma session_exit_ok:
  assumes "mgr_ok m" and "i < length (sm_sessions m)" and "ss_id s = ss_id (sm_sessions m ! i)"
    and "ss_active s = ss_active (sm_sessions m ! i)" and "session_exit os ex i s m n = (m', n')"
  shows "mgr_ok m'" and "sm_running m' = sm_running m" and "sm_accept_thread m' = sm_accept_thread m"
    and "sm_next_session_id m' = sm_next_session_id m"
    and "\<exists>s'. ss_worker s' = Exited \<and> ss_id s' = ss_id s \<and> sm_sessions m' = (sm_sessions m)[i := s']"
proof -
  let ?st1 = "session_failure (sm_running m) ex (sm_stats m)"
  let ?st2 = "if ss_active s then tick st_disconnected_update (st_active_update (\<lambda>k. k - 1) ?st1) else ?st1"
  obtain c where m': "m' = m\<lparr>sm_stats := ?st2,
      sm_sessions := (sm_sessions m)[i := s\<lparr>ss_connection := c, ss_active := False, ss_worker := Exited\<rparr>]\<rparr>"
    using assms(5) by (auto simp: session_exit_def Let_def split: prod.splits)
  let ?s' = "s\<lparr>ss_connection := c, ss_active := False, ss_worker := Exited\<rparr>"
  show "sm_running m' = sm_running m" "sm_accept_thread m' = sm_accept_thread m"
    "sm_next_session_id m' = sm_next_session_id m" by (simp_all add: m')
  show "\<exists>s'. ss_worker s' = Exited \<and> ss_id s' = ss_id s \<and> sm_sessions m' = (sm_sessions m)[i := s']"
    by (rule exI [of _ ?s']) (simp add: m')
  have census1: "census ?st1 = census (sm_stats m)" by simp
  show "mgr_ok m'"
  proof (cases "ss_active s")
    case False
    then show ?thesis
      using mgr_ok_same_session [OF assms(1,2), of ?s' ?st2] assms(3,4) census1 by (simp add: m' session_ok_def)
  next
    case True
    have ids: "map ss_id ((sm_sessions m)[i := ?s']) = map ss_id (sm_sessions m)"
      using assms(2,3) by (simp add: map_update list_update_same_conv)
    have act: "num ss_active ((sm_sessions m)[i := ?s']) + 1 = num ss_active (sm_sessions m)"
      using num_update [OF assms(2), of ss_active ?s'] assms(4) True by simp
    then have "(of_nat (num ss_active ((sm_sessions m)[i := ?s'])) :: u64) = of_nat (num ss_active (sm_sessions m)) - 1"
      by (metis add_diff_cancel_right' of_nat_1 of_nat_add)
    moreover have "list_all (\<lambda>x. ss_id x < sm_next_session_id m) ((sm_sessions m)[i := ?s'])"
      using assms(1-3) by (intro ids_update) (simp_all add: mgr_ok_def)
    moreover have "list_all session_ok ((sm_sessions m)[i := ?s'])"
      using assms(1) by (intro list_all_update) (simp_all add: mgr_ok_def session_ok_def)
    ultimately show ?thesis
      using assms(1) True ids act census1 by (simp add: mgr_ok_def m' tick_def census_def)
  qed
qed

text \<open>A round leaves the session in its loop, or is its last.\<close>

lemma session_body_ok:
  assumes "mgr_ok m" and i: "i < length (sm_sessions m)" and live: "ss_worker (sm_sessions m ! i) \<noteq> Exited"
    and "session_body fuel pf os handler i wl m n w = Some (m', n', w')"
  shows "mgr_ok m' \<and> sm_running m' = sm_running m \<and> sm_accept_thread m' = sm_accept_thread m \<and>
    sm_next_session_id m' = sm_next_session_id m \<and>
    (\<exists>s'. ss_id s' = ss_id (sm_sessions m ! i) \<and> sm_sessions m' = (sm_sessions m)[i := s'])"
proof -
  let ?s = "sm_sessions m ! i"
  have active: "ss_active ?s" using assms(1) i live by (auto simp: mgr_ok_def session_ok_def list_all_length)
  obtain r c1 wl1 st1 n1 w1 where round: "session_round fuel pf os (sm_options m) handler (sm_manager_id m)
      (ss_id ?s) (ss_connection ?s) wl (sm_stats m) n w = Some (r, c1, wl1, st1, n1, w1)"
    using assms(4) by (auto simp: session_body_def Let_def split: option.splits)
  let ?s1 = "?s\<lparr>ss_connection := c1, ss_worker := InLoop wl1\<rparr>"
  let ?m1 = "m\<lparr>sm_stats := st1, sm_sessions := (sm_sessions m)[i := ?s1]\<rparr>"
  have ok1: "mgr_ok ?m1"
    using session_round_census [OF round] active assms(1) i
    by (intro mgr_ok_same_session) (simp_all add: session_ok_def)
  have i1: "i < length (sm_sessions ?m1)" using i by simp
  have "m' = ?m1 \<or> (\<exists>ex. session_exit os ex i ?s1 ?m1 n1 = (m', n'))"
    using assms(4) round by (auto simp: session_body_def Let_def split: sum.splits round_end.splits prod.splits)
  then show ?thesis
  proof
    assume "m' = ?m1"
    then show ?thesis using ok1 by (auto intro!: exI [of _ ?s1])
  next
    assume "\<exists>ex. session_exit os ex i ?s1 ?m1 n1 = (m', n')"
    then obtain ex where exit: "session_exit os ex i ?s1 ?m1 n1 = (m', n')" by blast
    have same: "ss_id ?s1 = ss_id (sm_sessions ?m1 ! i)" "ss_active ?s1 = ss_active (sm_sessions ?m1 ! i)" using i by simp_all
    show ?thesis using session_exit_ok [OF ok1 i1 same exit] by auto
  qed
qed

lemma session_step_ok:
  assumes "mgr_ok m" and "i < length (sm_sessions m)" and "session_step fuel pf os handler i m n w = Some (m', n', w')"
  shows "mgr_ok m'"
proof -
  let ?s = "sm_sessions m ! i"
  obtain wl where wl: "ss_worker ?s = InLoop wl"
    using assms(3) by (auto simp: session_step_def Let_def split: session_worker.splits)
  show ?thesis
  proof (cases "sm_running m \<and> ss_active ?s")
    case False
    then show ?thesis
      using assms(3) wl session_exit_ok(1) [OF assms(1,2) refl refl]
      by (auto simp: session_step_def Let_def split: prod.splits)
  next
    case True
    then have "session_body fuel pf os handler i wl m n w = Some (m', n', w')"
      using assms(3) wl by (simp add: session_step_def Let_def)
    from session_body_ok [OF assms(1,2) _ this] show ?thesis using wl by simp
  qed
qed

lemma reap_ok: "mgr_ok m \<Longrightarrow> mgr_ok (reap_finished_sessions m)"
  by (auto simp: mgr_ok_def reap_finished_sessions_def num_def list_all_iff distinct_map_filter)

lemma accept_failure_ok: "mgr_ok m \<Longrightarrow> mgr_ok (accept_failure m)"
  by (simp add: accept_failure_def mtick_def mgr_ok_stats)

text \<open>One more session, with the next number.\<close>

lemma mgr_ok_admit:
  assumes "mgr_ok m" and "unat (sm_next_session_id m) + 1 < 2 ^ 64"
    and "\<not> st_active (sm_stats m) \<ge> sm_max_clients (sm_options m)"
    and "ss_id s = sm_next_session_id m" and "ss_active s" and "session_ok s"
    and "sm_stats m' = tick st_active_update (tick st_accepted_update (sm_stats m))"
    and "sm_sessions m' = sm_sessions m @ [s]" and "sm_options m' = sm_options m"
    and "sm_next_session_id m' = sm_next_session_id m + 1"
  shows "mgr_ok m'"
proof -
  let ?k = "num ss_active (sm_sessions m)"
  have room: "?k < unat (sm_max_clients (sm_options m))"
    using assms(1,3) unsigned_less [of "sm_max_clients (sm_options m)", where 'a = nat]
    by (auto simp: mgr_ok_def not_le word_less_nat_alt unat_of_nat)
  have next_id: "sm_next_session_id m < sm_next_session_id m + 1"
    using assms(2) by (simp add: word_less_nat_alt unat_word_ariths)
  have old: "list_all (\<lambda>x. ss_id x < sm_next_session_id m) (sm_sessions m)" using assms(1) by (simp add: mgr_ok_def)
  then have "list_all (\<lambda>x. ss_id x < sm_next_session_id m + 1) (sm_sessions m)"
    using next_id by (auto simp: list_all_iff)
  then show ?thesis
    using assms room next_id old
    by (auto simp: mgr_ok_def tick_def num_append num_Cons list_all_iff)
qed

lemma admit_ok:
  assumes "mgr_ok m" and "unat (sm_next_session_id m) + 1 < 2 ^ 64"
    and "\<not> st_active (sm_stats m) \<ge> sm_max_clients (sm_options m)" and "admit os spawn c m n = (m', n')"
  shows "mgr_ok m'"
proof -
  let ?m1 = "m\<lparr>sm_next_session_id := sm_next_session_id m + 1\<rparr>"
  have next_id: "sm_next_session_id m < sm_next_session_id m + 1"
    using assms(2) by (simp add: word_less_nat_alt unat_word_ariths)
  have m1: "mgr_ok (?m1\<lparr>sm_stats := st\<rparr>)" if "census st = census (sm_stats m)" for st
    using assms(1) that next_id by (auto simp: mgr_ok_def census_def list_all_iff)
  obtain r n1 where set: "set_send_timeout os (sm_send_timeout (sm_options m)) c n = (r, n1)" by force
  obtain now n2 where now: "os_now os n1 = (now, n2)" by force
  show ?thesis
  proof (cases r)
    case (Inl e)
    have "mgr_ok ?m1" using m1 [of "sm_stats m"] by simp
    then show ?thesis using assms(4) set Inl accept_failure_ok by (auto simp: admit_def)
  next
    case (Inr u)
    show ?thesis
    proof (cases spawn)
      case True
      let ?s = "\<lparr>ss_id = sm_next_session_id m, ss_connection = c, ss_active = True,
          ss_worker = InLoop \<lparr>wl_last_receive = now,
            wl_next_heartbeat = now + sm_heartbeat_interval (sm_options m) * 1000000, wl_heartbeat_sequence = 0\<rparr>\<rparr>"
      let ?m3 = "(mtick st_active_update (mtick st_accepted_update ?m1))\<lparr>sm_sessions := sm_sessions m @ [?s]\<rparr>"
      have "mgr_ok ?m3" by (rule mgr_ok_admit [OF assms(1-3), of ?s]) (simp_all add: session_ok_def)
      moreover have "m' = reap_finished_sessions ?m3" using assms(4) set Inr True now by (simp add: admit_def Let_def)
      ultimately show ?thesis using reap_ok by simp
    next
      case False
      let ?m2 = "mtick st_active_update (mtick st_accepted_update ?m1)"
      let ?st = "tick st_disconnected_update (st_active_update (\<lambda>k. k - 1) (sm_stats ?m2))"
      have "mgr_ok (?m2\<lparr>sm_stats := ?st\<rparr>)"
        using assms(1) next_id by (auto simp: mgr_ok_def tick_def list_all_iff)
      then show ?thesis using assms(4) set Inr False accept_failure_ok by (auto simp: admit_def Let_def)
    qed
  qed
qed

lemma accept_round_ok:
  assumes "mgr_ok m" and "unat (sm_next_session_id m) + 1 < 2 ^ 64" and "accept_round fuel pf os spawn m n = Some (m', n')"
  shows "mgr_ok m'"
proof -
  have "mgr_ok (mtick st_rejected_clients_update m)" using assms(1) by (simp add: mtick_def mgr_ok_stats)
  then show ?thesis
    using assms reap_ok [OF assms(1)] accept_failure_ok [OF assms(1)] admit_ok [OF assms(1,2)]
    by (auto simp: accept_round_def split: option.splits sum.splits prod.splits if_splits)
qed

lemma send_one_effect:
  assumes "send_one fuel os f s m n = Some (ok, m', n')"
  shows "m' = mtick (if ok then st_frames_sent_update else st_transport_errors_update) m"
  using assms by (auto simp: send_one_def split: option.splits sum.splits prod.splits)

lemma broadcast_loop_effect:
  "broadcast_loop fuel os f ss k m n = Some (k', m', n') \<Longrightarrow>
    \<exists>j \<le> length ss. k' = k + j \<and>
      st_frames_sent (sm_stats m') = st_frames_sent (sm_stats m) + of_nat j \<and>
      st_transport_errors (sm_stats m') = st_transport_errors (sm_stats m) + of_nat (length ss - j) \<and>
      census (sm_stats m') = census (sm_stats m) \<and> m' = m\<lparr>sm_stats := sm_stats m'\<rparr>"
proof (induction ss arbitrary: k m n)
  case Nil
  then show ?case by auto
next
  case (Cons s ss)
  obtain ok m1 n1 where one: "send_one fuel os f s m n = Some (ok, m1, n1)"
    using Cons.prems by (auto split: option.splits)
  note m1 = send_one_effect [OF one]
  obtain j where j: "j \<le> length ss" "k' = (if ok then k + 1 else k) + j"
    "st_frames_sent (sm_stats m') = st_frames_sent (sm_stats m1) + of_nat j"
    "st_transport_errors (sm_stats m') = st_transport_errors (sm_stats m1) + of_nat (length ss - j)"
    "census (sm_stats m') = census (sm_stats m1)" "m' = m1\<lparr>sm_stats := sm_stats m'\<rparr>"
  proof -
    have "broadcast_loop fuel os f ss (if ok then k + 1 else k) m1 n1 = Some (k', m', n')"
      using Cons.prems one by simp
    then show ?thesis using Cons.IH that by blast
  qed
  moreover have "m' = m\<lparr>sm_stats := sm_stats m'\<rparr>" using j(6) by (simp add: m1 mtick_def)
  ultimately show ?case
  proof (cases ok)
    case True
    then show ?thesis
      using j(1-5) m1 \<open>m' = m\<lparr>sm_stats := sm_stats m'\<rparr>\<close> by (intro exI [of _ "Suc j"]) (simp add: tick_def census_def)
  next
    case False
    then show ?thesis
      using j(1-5) m1 \<open>m' = m\<lparr>sm_stats := sm_stats m'\<rparr>\<close>
      by (intro exI [of _ j]) (simp add: tick_def census_def Suc_diff_le)
  qed
qed

lemma finish_stop_ok:
  assumes "finish_stop_locked os m n = Some (m', n')" and "mgr_ok m"
  shows "mgr_ok m'" and "sm_sessions m' = []" and "st_active (sm_stats m') = 0"
proof -
  have m': "m' = m\<lparr>sm_sessions := []\<rparr>" and zero: "num ss_active (sm_sessions m) = 0"
    using assms by (auto simp: finish_stop_locked_def mgr_ok_def session_ok_def num_eq_0 list_all_iff list_ex_iff split: if_splits)
  show "mgr_ok m'" "sm_sessions m' = []" "st_active (sm_stats m') = 0"
    using assms(2) zero by (simp_all add: mgr_ok_def m')
qed

lemma mgr_step_ok: "mgr_step os handler s s' \<Longrightarrow> mgr_ok (fst s) \<Longrightarrow> mgr_ok (fst s')"
proof (induction rule: mgr_step.induct)
  case (AcceptRound m fuel pf spawn n m' n' w)
  then show ?case using accept_round_ok by (metis fst_conv)
next
  case (AcceptExit m n w)
  then have "mgr_ok (reap_finished_sessions m)" using reap_ok by simp
  then show ?case by simp
next
  case (SessionStep i m fuel pf n w m' n' w')
  then show ?case using session_step_ok by (metis fst_conv)
next
  case (SendTo fuel sid f m n ok m' n' w)
  show ?case
  proof (cases "find (\<lambda>s. ss_id s = sid) (active_snapshot m)")
    case None
    then show ?thesis using SendTo by (simp add: send_to_def)
  next
    case (Some s)
    then have "send_one fuel os f s m n = Some (ok, m', n')" using SendTo.hyps by (simp add: send_to_def)
    then have "m' = mtick (if ok then st_frames_sent_update else st_transport_errors_update) m"
      by (rule send_one_effect)
    then show ?thesis using SendTo.prems by (cases ok) (simp_all add: mtick_def mgr_ok_stats)
  qed
next
  case (Broadcast fuel f m n k m' n' w)
  then have "census (sm_stats m') = census (sm_stats m)" "m' = m\<lparr>sm_stats := sm_stats m'\<rparr>"
    using broadcast_loop_effect [OF Broadcast.hyps [unfolded broadcast_def]] by blast+
  then show ?case using mgr_ok_stats [of m "sm_stats m'"] Broadcast.prems by simp
next
  case (RequestStop m n m' n' w)
  then show ?case by (auto simp: request_stop_def)
next
  case (FinishStop m n m' n' w)
  then show ?case using finish_stop_ok by (metis fst_conv)
next
  case (Start in_handler spawn m n r m' n' w)
  then show ?case
    using finish_stop_ok(1) [of os m n]
    by (auto simp: session_start_def split: if_splits option.splits)
qed simp

lemma mgr_reach_ok: "mgr_reach os handler s \<Longrightarrow> mgr_ok (fst s)"
proof (induction rule: mgr_reach.induct)
  case (Made address port options n m n' w)
  then show ?case
    by (auto simp: session_manager_new_def Let_def mgr_ok_def zero_session_stats_def num_def
        split: sum.splits prod.splits if_splits)
next
  case (Step s s')
  then show ?case using mgr_step_ok by blast
qed

section \<open>The stop, step by step\<close>









lemma accept_failure_fields [simp]:
  "sm_running (accept_failure m) = sm_running m" "sm_accept_thread (accept_failure m) = sm_accept_thread m"
  "sm_next_session_id (accept_failure m) = sm_next_session_id m" "sm_sessions (accept_failure m) = sm_sessions m"
  by (simp_all add: accept_failure_def mtick_def)


















section \<open>Properties of the session manager\<close>

text \<open>C35: Clients are accounted for: in every reachable state the number of active clients is exact and within
  the limit, every client ever accepted is active or counted as disconnected, session numbers are
  distinct, and a session is active exactly as long as its thread runs.\<close>

theorem session_accounting:
  assumes "mgr_reach os handler (m, n, w)"
  shows "unat (st_active (sm_stats m)) = num ss_active (sm_sessions m) \<and>
    st_active (sm_stats m) \<le> sm_max_clients (sm_options m) \<and>
    st_accepted (sm_stats m) = st_active (sm_stats m) + st_disconnected (sm_stats m) \<and>
    distinct (map ss_id (sm_sessions m)) \<and>
    (\<forall>s \<in> set (sm_sessions m). ss_active s \<longleftrightarrow> ss_worker s \<noteq> Exited)"
proof -
  have ok: "mgr_ok m" using mgr_reach_ok [OF assms] by simp
  let ?k = "num ss_active (sm_sessions m)"
  have "?k < 2 ^ 64"
    using ok unsigned_less [of "sm_max_clients (sm_options m)", where 'a = nat] by (simp add: mgr_ok_def)
  then have "unat (of_nat ?k :: u64) = ?k" by (simp add: unat_of_nat)
  then show ?thesis
    using ok by (auto simp: mgr_ok_def session_ok_def list_all_iff word_le_nat_alt)
qed


text \<open>A broadcast tries every active session once: its result is the number of clients the frame was sent
  to completely, the others are counted as transport errors, and no failure of one client keeps the
  frame from the rest.\<close>

theorem broadcast_accounts:
  assumes "broadcast fuel os f m n = Some (k, m', n')"
  shows "k \<le> length (active_snapshot m) \<and>
    st_frames_sent (sm_stats m') = st_frames_sent (sm_stats m) + of_nat k \<and>
    st_transport_errors (sm_stats m') = st_transport_errors (sm_stats m) + of_nat (length (active_snapshot m) - k) \<and>
    sm_sessions m' = sm_sessions m"
proof -
  obtain j where "j \<le> length (active_snapshot m)" "k = 0 + j"
    "st_frames_sent (sm_stats m') = st_frames_sent (sm_stats m) + of_nat j"
    "st_transport_errors (sm_stats m') = st_transport_errors (sm_stats m) + of_nat (length (active_snapshot m) - j)"
    "m' = m\<lparr>sm_stats := sm_stats m'\<rparr>"
    using broadcast_loop_effect [OF assms [unfolded broadcast_def]] by blast
  moreover from this(5) have "sm_sessions m' = sm_sessions m" by (metis session_manager.select_convs(6) session_manager.update_convs(8) session_manager.surjective)
  ultimately show ?thesis by simp
qed

section \<open>A concrete manager\<close>

definition os0 :: "int set os" where
  "os0 = (one_socket (PollReady POLLIN))\<lparr>os_accept := (\<lambda>fd n. if 9 \<in> n then (Inl EAGAIN, n) else (Inr 9, insert 9 n)),
     os_send := (\<lambda>fd data n. (if - 1 - fd \<in> n then SendFailed (Errno 32) else Sent (length data), n)),
     os_shutdown := (\<lambda>fd n. insert (- 1 - fd) n)\<rparr>"

definition manager0 :: session_manager where
  "manager0 = \<lparr>sm_options = default_session_options,
     sm_tcp_server = \<lparr>ts_socket_fd = 3, ts_options = default_server_options\<rparr>, sm_manager_id = 7, sm_running = False,
     sm_accept_thread = False, sm_sessions = [], sm_next_session_id = 1, sm_stats = zero_session_stats\<rparr>"

definition manager1 :: session_manager where
  "manager1 = fst (admit os0 True (tcp_connection_new 9 default_limits)
     (manager0\<lparr>sm_running := True, sm_accept_thread := True\<rparr>) {3, 9})"

lemmas manager_eval = manager0_def default_session_options_def default_server_options_def os0_def one_socket_def
  zero_session_stats_def

lemma manager0_reach: "mgr_reach os0 handler (manager0, {3}, w)"
proof (rule mgr_reach.Made [of os0 "[]" 0 default_session_options "{}"])
  show "session_manager_new os0 [] 0 True default_session_options {} = (Inr manager0, {3})"
    by (simp add: session_manager_new_def tcp_server_new_def validate_session_options_def tcp_server_local_port_def
        socket_local_port_def manager_eval)
qed

lemma manager1_reach: "mgr_reach os0 handler (manager1, {3, 9}, w)"
proof -
  let ?m = "manager0\<lparr>sm_running := True, sm_accept_thread := True\<rparr>"
  have "session_start os0 False True manager0 {3} = Some (Inr (), ?m, {3})"
    by (simp add: session_start_def finish_stop_locked_def manager_eval)
  then have started: "mgr_reach os0 handler (?m, {3}, w)"
    by (rule mgr_reach.Step [OF manager0_reach mgr_step.Start])
  have "accept_round 1 1 os0 True ?m {3} = Some (manager1, {3, 9})"
    by (simp add: accept_round_def accept_def deadline_after_def poll_timeout_ms_def set_close_on_exec_def
        manager1_def admit_def set_send_timeout_def tcp_connection_new_def poll_consts int_max_def FD_CLOEXEC_def
        manager_eval insert_commute)
  moreover have "unat (sm_next_session_id ?m) + 1 < 2 ^ 64" by (simp add: manager_eval)
  ultimately show ?thesis
    by (intro mgr_reach.Step [OF started] mgr_step.AcceptRound) (simp_all add: manager_eval)
qed

lemma manager1_sessions: "num ss_active (sm_sessions manager1) = 1" "sm_running manager1"
  by (simp_all add: manager1_def admit_def set_send_timeout_def tcp_connection_new_def reap_finished_sessions_def
      mtick_def num_def manager_eval)

theorem session_accounting_witness:
  "unat (st_active (sm_stats manager1)) = 1"
  using session_accounting [OF manager1_reach [of "\<lambda>sid f w. (Inr (), w)" "0 :: nat"]] manager1_sessions by simp




theorem broadcast_accounts_witness:
  "\<exists>k m' n'. broadcast 1000 os0 sample_frame manager0 {3} = Some (k, m', n') \<and> k \<le> length (active_snapshot manager0)"
proof -
  obtain k m' n' where run: "broadcast 1000 os0 sample_frame manager0 {3} = Some (k, m', n')"
    by (simp add: broadcast_def active_snapshot_def manager_eval)
  show ?thesis using broadcast_accounts [OF run] run by blast
qed

end
