(* ===== verification/Rml_Double.thy ===== *)
theory Rml_Double
  imports Complex_Main Rml_Prelude
begin

text \<open>
  Floating-point numbers as the sources use them. Where the program computes with them (statistics,
  process metrics) a \<^verbatim>\<open>double\<close> is the rational number it stands for, and every operation rounds
  to 53 significant bits, to nearest with ties to even; the numbers at hand are far from the limits
  of the exponent. Where it only stores them (messages) a double is its bit pattern.
\<close>

section \<open>Rounding\<close>

definition round_half_even :: "rat \<Rightarrow> int" where
  "round_half_even x =
     (let f = \<lfloor>x\<rfloor>; d = x - of_int f
      in if d < 1 / 2 then f else if d > 1 / 2 then f + 1 else if even f then f else f + 1)"

fun bit_count :: "nat \<Rightarrow> nat" where
  "bit_count n = (if n = 0 then 0 else bit_count (n div 2) + 1)"

declare bit_count.simps [simp del]

text \<open>The power of two that brings a positive number into the range of a \<open>p\<close>-bit significand.\<close>

definition scaling :: "nat \<Rightarrow> rat \<Rightarrow> int" where
  "scaling p x =
     (let (a, b) = quotient_of x;
          e = int (bit_count (nat a)) - int (bit_count (nat b))
      in int p - 1 - (if 2 powi e \<le> x then e else e - 1))"

definition fl :: "nat \<Rightarrow> rat \<Rightarrow> rat" where
  "fl p x = (if x \<le> 0 then 0 else of_int (round_half_even (x * 2 powi scaling p x)) / 2 powi scaling p x)"

abbreviation dbl :: "rat \<Rightarrow> rat" where
  "dbl \<equiv> fl 53"

text \<open>The same for a number of either sign.\<close>

definition dbl_signed :: "rat \<Rightarrow> rat" where
  "dbl_signed x = (if x < 0 then - dbl (- x) else dbl x)"

text \<open>The bit pattern of \<^verbatim>\<open>static_cast<double>\<close> of an unsigned integer: exponent and significand, the carry
  of a rounding going into the exponent.\<close>

definition f64_of_nat :: "nat \<Rightarrow> f64" where
  "f64_of_nat n =
     (if n = 0 then 0
      else let e = int (bit_count n) - 1;
               m = round_half_even (of_nat n * 2 powi (52 - e))
      in of_int ((1023 + e) * 2 ^ 52 + (m - 2 ^ 52)))"

section \<open>Facts on rounding\<close>

lemma round_half_even_bounds:
  "\<bar>of_int (round_half_even x) - x\<bar> \<le> 1 / 2"
  "x \<le> of_int k \<Longrightarrow> round_half_even x \<le> k" "of_int k \<le> x \<Longrightarrow> k \<le> round_half_even x"
proof -
  have f: "of_int \<lfloor>x\<rfloor> \<le> x" "x < of_int \<lfloor>x\<rfloor> + 1" by linarith+
  then show "\<bar>of_int (round_half_even x) - x\<bar> \<le> 1 / 2" by (auto simp: round_half_even_def Let_def)
  show "k \<le> round_half_even x" if "of_int k \<le> x"
  proof -
    have "k \<le> \<lfloor>x\<rfloor>" using that by (simp add: le_floor_iff)
    then show ?thesis by (auto simp: round_half_even_def Let_def)
  qed
  show "round_half_even x \<le> k" if "x \<le> of_int k"
  proof (cases "x = of_int k")
    case False
    then have "\<lfloor>x\<rfloor> < k" using that by (simp add: floor_less_iff)
    then show ?thesis by (auto simp: round_half_even_def Let_def)
  qed (simp add: round_half_even_def)
qed

lemma bit_count_bounds: "0 < n \<Longrightarrow> 2 ^ (bit_count n - 1) \<le> n \<and> n < 2 ^ bit_count n \<and> 0 < bit_count n"
proof (induction n rule: bit_count.induct)
  case (1 n)
  show ?case
  proof (cases "n = 1")
    case True
    have "bit_count 1 = 1" by (simp add: bit_count.simps [of "Suc 0"] bit_count.simps [of 0])
    then show ?thesis using True by simp
  next
    case False
    then have half: "0 < n div 2" using 1 by auto
    let ?k = "bit_count (n div 2)"
    have IH: "2 ^ (?k - 1) \<le> n div 2" "n div 2 < 2 ^ ?k" "0 < ?k" using 1 half by auto
    define q where "q = (2 :: nat) ^ (?k - 1)"
    have k: "2 ^ ?k = 2 * q" using IH(3) unfolding q_def by (metis Suc_diff_1 power_Suc)
    then have "q \<le> n div 2" "n div 2 < 2 * q" using IH by (simp_all add: q_def)
    then have "2 * q \<le> n" "n < 4 * q" by linarith+
    then show ?thesis using k 1(2) by (simp add: bit_count.simps [of n])
  qed
qed

lemma two_powi_add: "(2 :: rat) powi a * 2 powi b = 2 powi (a + b)"
  by (simp add: power_int_add)

lemma scaling_range:
  assumes "0 < x" and "0 < p"
  shows "2 ^ (p - 1) \<le> x * 2 powi scaling p x \<and> x * 2 powi scaling p x < 2 powi int p"
proof -
  obtain a b where q: "quotient_of x = (a, b)" by force
  have b: "0 < b" and x: "x = of_int a / of_int b" using quotient_of_denom_pos [OF q] quotient_of_div [OF q] by auto
  have a: "0 < a" using assms(1) b x by (simp add: zero_less_divide_iff)
  let ?A = "bit_count (nat a)" and ?B = "bit_count (nat b)"
  have bits: "2 ^ (k - 1) \<le> nat c" "nat c < 2 ^ k" "0 < k" if "0 < c" "k = bit_count (nat c)" for c k
    using bit_count_bounds [of "nat c"] that by auto
  have real: "2 powi (int k - 1) \<le> (of_int c :: rat)" "of_int c < (2 powi int k :: rat)"
    if "0 < c" "k = bit_count (nat c)" for c k
  proof -
    have "(2 :: int) ^ (k - 1) \<le> c" "c < 2 ^ k" using bits [OF that] that(1) by (simp_all add: le_nat_iff nat_less_iff)
    then have "(of_int (2 ^ (k - 1)) :: rat) \<le> of_int c" "(of_int c :: rat) < of_int (2 ^ k)"
      by (simp_all only: of_int_le_iff of_int_less_iff)
    moreover have "int k - 1 = int (k - 1)" using bits(3) [OF that] by simp
    ultimately show "2 powi (int k - 1) \<le> (of_int c :: rat)" "of_int c < (2 powi int k :: rat)"
      by (simp_all add: power_int_of_nat del: of_nat_diff)
  qed
  let ?e = "int ?A - int ?B"
  let ?E = "if 2 powi ?e \<le> x then ?e else ?e - 1"
  have pos: "(0 :: rat) < 2 powi k" for k :: int by simp
  have lower: "2 powi (?e - 1) \<le> x"
  proof -
    have "2 powi (?e - 1) * of_int b \<le> 2 powi (?e - 1) * (2 powi int ?B :: rat)"
      using real(2) [OF b refl] pos [of "?e - 1"] by (intro mult_left_mono) auto
    also have "\<dots> = 2 powi (int ?A - 1)" by (simp only: two_powi_add) simp
    also have "\<dots> \<le> of_int a" using real(1) [OF a refl] .
    finally show ?thesis using b by (simp add: x field_simps)
  qed
  have upper: "x < 2 powi (?e + 1)"
  proof -
    have "of_int a < (2 powi int ?A :: rat)" using real(2) [OF a refl] .
    also have "\<dots> = 2 powi (?e + 1) * 2 powi (int ?B - 1)" by (simp only: two_powi_add) simp
    also have "\<dots> \<le> 2 powi (?e + 1) * of_int b" using real(1) [OF b refl] pos by (intro mult_left_mono) auto
    finally show ?thesis using b by (simp add: x field_simps)
  qed
  have E: "2 powi ?E \<le> x" "x < 2 powi (?E + 1)" using lower upper by auto
  have "scaling p x = int p - 1 - ?E" by (simp add: scaling_def q)
  moreover have "2 powi ?E * 2 powi (int p - 1 - ?E) = (2 powi (int p - 1) :: rat)" by (simp only: two_powi_add) simp
  moreover have "2 powi (?E + 1) * 2 powi (int p - 1 - ?E) = (2 powi int p :: rat)" by (simp only: two_powi_add) simp
  moreover have "(2 powi (int p - 1) :: rat) = 2 ^ (p - 1)" using assms(2) by (metis One_nat_def Suc_leI of_nat_1 of_nat_diff power_int_of_nat)
  ultimately show ?thesis
    using mult_right_mono [OF E(1), of "2 powi scaling p x"] mult_strict_right_mono [OF E(2), of "2 powi scaling p x"] pos
    by (auto simp: less_imp_le)
qed

lemma dbl_error:
  assumes "0 < x"
  shows "\<bar>dbl x - x\<bar> \<le> x / 2 ^ 53"
proof -
  let ?t = "2 powi scaling 53 x :: rat"
  let ?y = "x * ?t"
  have t: "0 < ?t" by simp
  have y: "2 ^ 52 \<le> ?y" using scaling_range [OF assms, of 53] by simp
  have "\<bar>dbl x - x\<bar> = \<bar>of_int (round_half_even ?y) - ?y\<bar> / ?t"
  proof -
    have "dbl x - x = (of_int (round_half_even ?y) - ?y) / ?t" using assms t by (simp add: fl_def diff_divide_distrib)
    then show ?thesis using t by simp
  qed
  also have "\<dots> \<le> (1 / 2) / ?t" using round_half_even_bounds(1) t by (intro divide_right_mono) auto
  also have "\<dots> \<le> x / 2 ^ 53" using y t assms by (simp add: field_simps)
  finally show ?thesis .
qed

lemma scaling_integral:
  assumes "0 < x" and "x < 2 ^ 53"
  shows "\<exists>k. (2 powi scaling 53 x :: rat) = of_int k \<and> 0 < k"
proof -
  have "0 \<le> scaling 53 x"
  proof (rule ccontr)
    assume "\<not> 0 \<le> scaling 53 x"
    then have "(2 :: rat) powi scaling 53 x \<le> 2 powi (-1)" by (intro power_int_increasing) auto
    then have "x * 2 powi scaling 53 x \<le> x * (1 / 2)" using assms(1) by (intro mult_left_mono) auto
    then show False using scaling_range [OF assms(1), of 53] assms(2) by simp
  qed
  then have "(2 powi scaling 53 x :: rat) = of_int (2 ^ nat (scaling 53 x))"
    by (metis int_nat_eq of_int_numeral of_int_power power_int_of_nat)
  then show ?thesis by (intro exI [of _ "2 ^ nat (scaling 53 x)"]) simp
qed

lemma dbl_mono_nat:
  assumes "0 < x" and "x < 2 ^ 53"
  shows "x \<le> of_nat k \<Longrightarrow> dbl x \<le> of_nat k" and "of_nat k \<le> x \<Longrightarrow> of_nat k \<le> dbl x"
proof -
  obtain t where t: "(2 powi scaling 53 x :: rat) = of_int t" "0 < t" using scaling_integral [OF assms] by blast
  have dbl: "dbl x = of_int (round_half_even (x * of_int t)) / of_int t" using assms(1) t(1) by (simp add: fl_def)
  show "dbl x \<le> of_nat k" if "x \<le> of_nat k"
  proof -
    have "x * of_int t \<le> of_int (int k * t)" using that t(2) by (simp add: mult_right_mono)
    then have "round_half_even (x * of_int t) \<le> int k * t" by (rule round_half_even_bounds(2))
    then have "(of_int (round_half_even (x * of_int t)) :: rat) \<le> of_int (int k * t)" by (simp only: of_int_le_iff)
    then show ?thesis using t(2) by (simp add: dbl divide_le_eq)
  qed
  show "of_nat k \<le> dbl x" if "of_nat k \<le> x"
  proof -
    have "of_int (int k * t) \<le> x * of_int t" using that t(2) by (simp add: mult_right_mono)
    then have "int k * t \<le> round_half_even (x * of_int t)" by (rule round_half_even_bounds(3))
    then have "(of_int (int k * t) :: rat) \<le> of_int (round_half_even (x * of_int t))" by (simp only: of_int_le_iff)
    then show ?thesis using t(2) by (simp add: dbl le_divide_eq)
  qed
qed

lemma dbl_of_nat: "k < 2 ^ 53 \<Longrightarrow> dbl (of_nat k) = of_nat k"
proof (cases "k = 0")
  case False
  assume "k < 2 ^ 53"
  then have "(of_nat k :: rat) < 2 ^ 53" by (metis of_nat_less_iff of_nat_numeral of_nat_power)
  then show ?thesis using dbl_mono_nat [of "of_nat k" k] False by auto
qed (simp add: fl_def)

text \<open>The three percentiles as \<^verbatim>\<open>double\<close> literals: at most the exact value, and close to it.\<close>

lemma scaling_fraction:
  assumes "1 / 2 \<le> q" and "q < 1"
  shows "scaling 53 q = 53"
proof (rule ccontr)
  assume ne: "scaling 53 q \<noteq> 53"
  have range: "2 ^ 52 \<le> q * 2 powi scaling 53 q" "q * 2 powi scaling 53 q < 2 powi 53"
    using scaling_range [of q 53] assms by auto
  show False
  proof (cases "scaling 53 q \<le> 52")
    case True
    then have "(2 :: rat) powi scaling 53 q \<le> 2 powi 52" by (intro power_int_increasing) auto
    then have "(2 :: rat) powi scaling 53 q \<le> 2 ^ 52" by simp
    moreover have "q * 2 powi scaling 53 q < 1 * 2 powi scaling 53 q" using assms(2) by (intro mult_strict_right_mono) auto
    ultimately show False using range(1) by linarith
  next
    case False
    then have "(2 :: rat) powi 54 \<le> 2 powi scaling 53 q" using ne by (intro power_int_increasing) auto
    then have "(2 :: rat) ^ 54 \<le> 2 powi scaling 53 q" by simp
    moreover have "q * 2 powi scaling 53 q < 2 ^ 53" using range(2) by simp
    moreover have "1 / 2 * 2 powi scaling 53 q \<le> q * 2 powi scaling 53 q" using assms(1) by (intro mult_right_mono) auto
    moreover have "(2 :: rat) ^ 54 = 2 * 2 ^ 53" by simp
    ultimately show False by linarith
  qed
qed

lemma dbl_fraction:
  assumes "1 / 2 \<le> q" and "q < 1" and "of_int m \<le> q * 2 ^ 53" and "q * 2 ^ 53 < of_int m + 1 / 2"
  shows "dbl q = of_int m / 2 ^ 53"
proof -
  have "\<lfloor>q * 2 ^ 53\<rfloor> = m" using assms(3,4) by (intro floor_unique) auto
  then have "round_half_even (q * 2 ^ 53) = m" using assms(4) by (simp add: round_half_even_def)
  then show ?thesis using assms(1) scaling_fraction [OF assms(1,2)] by (simp add: fl_def)
qed

lemma dbl_pos:
  assumes "0 < x"
  shows "0 < dbl x"
proof -
  have "x / 2 ^ 53 < x" using assms by simp
  then show ?thesis using dbl_error [OF assms] by linarith
qed

lemma dbl_ratio_zero: "dbl (dbl (of_nat m) / dbl (of_nat n)) = 0 \<longleftrightarrow> m = 0" if "0 < n" for m n :: nat
proof (cases "m = 0")
  case False
  then have "0 < dbl (of_nat m) / dbl (of_nat n)" using that dbl_pos by simp
  then show ?thesis using dbl_pos False by (metis less_irrefl)
qed (simp add: fl_def)

lemma dbl_nonneg [simp]: "0 \<le> dbl x"
proof (cases "0 < x")
  case True
  then show ?thesis using dbl_pos [of x] by simp
qed (simp add: fl_def)

lemma dbl_signed_nonneg: "0 \<le> x \<Longrightarrow> dbl_signed x = dbl x"
  by (simp add: dbl_signed_def)

lemma dbl_signed_nonpos: "x \<le> 0 \<Longrightarrow> dbl_signed x \<le> 0"
  by (cases "x < 0") (simp_all add: dbl_signed_def, simp add: fl_def)

lemma dbl_bounds:
  assumes "0 \<le> x"
  shows "x * (1 - 1 / 2 ^ 53) \<le> dbl x" and "dbl x \<le> x * (1 + 1 / 2 ^ 53)"
proof -
  have "\<bar>dbl x - x\<bar> \<le> x / 2 ^ 53"
    using dbl_error [of x] assms by (cases "x = 0") (simp_all add: fl_def)
  then have error: "x - x / 2 ^ 53 \<le> dbl x" "dbl x \<le> x + x / 2 ^ 53" by linarith+
  have "x * (1 - 1 / 2 ^ 53) = x - x / 2 ^ 53" "x * (1 + 1 / 2 ^ 53) = x + x / 2 ^ 53"
    unfolding right_diff_distrib distrib_left by simp_all
  then show "x * (1 - 1 / 2 ^ 53) \<le> dbl x" "dbl x \<le> x * (1 + 1 / 2 ^ 53)" using error by (simp_all only:)
qed

lemma dbl_rounding:
  assumes "0 \<le> x"
  shows "\<bar>dbl x - x\<bar> \<le> x * (1 / 2 ^ 53)"
  using dbl_error [of x] assms by (cases "x = 0") (simp_all add: fl_def)

text \<open>A rounded number divided by an exact one.\<close>

lemma quotient_bounds:
  assumes "0 \<le> x" and "0 < c"
  shows "x / c * (1 - 1 / 2 ^ 53) ^ 2 \<le> dbl (dbl x / c)" and "dbl (dbl x / c) \<le> x / c * (1 + 1 / 2 ^ 53) ^ 2"
proof -
  let ?lo = "1 - 1 / 2 ^ 53 :: rat" and ?hi = "1 + 1 / 2 ^ 53 :: rat"
  have q: "0 \<le> dbl x / c" using assms(2) by simp
  have "x / c * ?lo ^ 2 = x * ?lo / c * ?lo" by (simp add: power2_eq_square)
  also have "\<dots> \<le> dbl x / c * ?lo" using dbl_bounds(1) [OF assms(1)] assms(2) by (intro mult_right_mono divide_right_mono) auto
  also have "\<dots> \<le> dbl (dbl x / c)" by (rule dbl_bounds(1) [OF q])
  finally show "x / c * ?lo ^ 2 \<le> dbl (dbl x / c)" .
  have "dbl (dbl x / c) \<le> dbl x / c * ?hi" by (rule dbl_bounds(2) [OF q])
  also have "\<dots> \<le> x * ?hi / c * ?hi" using dbl_bounds(2) [OF assms(1)] assms(2) by (intro mult_right_mono divide_right_mono) auto
  also have "\<dots> = x / c * ?hi ^ 2" by (simp add: power2_eq_square)
  finally show "dbl (dbl x / c) \<le> x / c * ?hi ^ 2" .
qed

text \<open>A rounded number divided by the rounded quotient of another.\<close>

lemma ratio_bounds:
  assumes "0 \<le> x" and "0 < y" and "0 < c"
  shows "x / (y / c) * (1 - 1 / 2 ^ 53) ^ 2 / (1 + 1 / 2 ^ 53) ^ 2 \<le> dbl (dbl x / dbl (dbl y / c))"
    and "dbl (dbl x / dbl (dbl y / c)) \<le> x / (y / c) * (1 + 1 / 2 ^ 53) ^ 2 / (1 - 1 / 2 ^ 53) ^ 2"
proof -
  let ?lo = "1 - 1 / 2 ^ 53 :: rat" and ?hi = "1 + 1 / 2 ^ 53 :: rat" and ?d = "dbl (dbl y / c)"
  have d: "y / c * ?lo ^ 2 \<le> ?d" "?d \<le> y / c * ?hi ^ 2" using quotient_bounds assms by simp_all
  have lower: "0 < y / c * ?lo ^ 2" using assms by simp
  then have pos: "0 < ?d" using d(1) by linarith
  have x: "x * ?lo \<le> dbl x" "dbl x \<le> x * ?hi" using dbl_bounds [OF assms(1)] by simp_all
  have q: "0 \<le> dbl x / ?d" using pos by simp
  have "x / (y / c) * ?lo ^ 2 / ?hi ^ 2 = x * ?lo / (y / c * ?hi ^ 2) * ?lo" by (simp add: power2_eq_square)
  also have "\<dots> \<le> dbl x / ?d * ?lo"
    using x(1) d(2) pos assms by (intro mult_right_mono frac_le) auto
  also have "\<dots> \<le> dbl (dbl x / ?d)" by (rule dbl_bounds(1) [OF q])
  finally show "x / (y / c) * ?lo ^ 2 / ?hi ^ 2 \<le> dbl (dbl x / ?d)" .
  have "dbl (dbl x / ?d) \<le> dbl x / ?d * ?hi" by (rule dbl_bounds(2) [OF q])
  also have "\<dots> \<le> x * ?hi / (y / c * ?lo ^ 2) * ?hi"
    using x(2) d(1) lower assms by (intro mult_right_mono frac_le) auto
  also have "\<dots> = x / (y / c) * ?hi ^ 2 / ?lo ^ 2" by (simp add: power2_eq_square)
  finally show "dbl (dbl x / ?d) \<le> x / (y / c) * ?hi ^ 2 / ?lo ^ 2" .
qed

end
