(* ===== verification/Rml_Statistics.thy ===== *)
theory Rml_Statistics
  imports Rml_Double
begin

text \<open>
  The statistics of the benchmarks (\<^verbatim>\<open>benchmark/statistics.hpp\<close>,
  \<^verbatim>\<open>src/benchmark/statistics.cpp\<close>): latency percentiles by nearest rank, and the tracker of
  lost, duplicated and late sequence numbers. \<^verbatim>\<open>long double\<close>
  differs between platforms: its rounding is a parameter \<open>ld\<close>.
\<close>

section \<open>Latencies\<close>

definition nearest_rank :: "u64 list \<Rightarrow> rat \<Rightarrow> u64" where
  "nearest_rank ordered percentile =
     (if ordered = [] then 0
      else let rank = nat \<lceil>dbl (percentile * dbl (of_nat (length ordered)))\<rceil>;
               index = (if rank = 0 then 0 else rank - 1)
      in ordered ! min index (length ordered - 1))"

definition to_microseconds :: "u64 \<Rightarrow> rat" where
  "to_microseconds nanoseconds = dbl (dbl (of_nat (unat nanoseconds)) / 1000)"

record latency_summary =
  ls_count :: size_t
  ls_mean_us :: rat
  ls_min_us :: rat
  ls_p50_us :: rat
  ls_p95_us :: rat
  ls_p99_us :: rat
  ls_max_us :: rat

text \<open>The recorder is its vector of samples. Latencies are signed 64-bit counts of nanoseconds.\<close>

definition record_latency :: "int \<Rightarrow> u64 list \<Rightarrow> u64 list" where
  "record_latency latency samples = (if latency < 0 then samples else samples @ [of_int latency])"

definition clear_latencies :: "u64 list \<Rightarrow> u64 list" where
  "clear_latencies samples = []"

definition latency_summary_of :: "(rat \<Rightarrow> rat) \<Rightarrow> u64 list \<Rightarrow> latency_summary" where
  "latency_summary_of ld samples_ns =
     (if samples_ns = []
      then \<lparr>ls_count = size_of samples_ns, ls_mean_us = 0, ls_min_us = 0, ls_p50_us = 0, ls_p95_us = 0, ls_p99_us = 0,
        ls_max_us = 0\<rparr>
      else let samples = sort samples_ns;
               total = foldl (\<lambda>acc x. ld (acc + ld (of_nat (unat x)))) 0 samples
      in \<lparr>ls_count = size_of samples_ns,
          ls_mean_us = dbl (ld (ld (total / ld (of_nat (length samples))) / 1000)),
          ls_min_us = to_microseconds (hd samples),
          ls_p50_us = to_microseconds (nearest_rank samples (dbl (50 / 100))),
          ls_p95_us = to_microseconds (nearest_rank samples (dbl (95 / 100))),
          ls_p99_us = to_microseconds (nearest_rank samples (dbl (99 / 100))),
          ls_max_us = to_microseconds (last samples)\<rparr>)"

section \<open>Sequence numbers\<close>

record sequence_tracker =
  tk_seen :: "u64 set"
  tk_has_highest :: bool
  tk_highest :: u64
  tk_duplicates :: u64
  tk_out_of_order :: u64

definition sequence_tracker_new :: sequence_tracker where
  "sequence_tracker_new = \<lparr>tk_seen = {}, tk_has_highest = False, tk_highest = 0, tk_duplicates = 0, tk_out_of_order = 0\<rparr>"

definition observe :: "u64 \<Rightarrow> sequence_tracker \<Rightarrow> sequence_tracker" where
  "observe sequence t =
     (if sequence \<in> tk_seen t then t\<lparr>tk_duplicates := tk_duplicates t + 1\<rparr>
      else let t1 = t\<lparr>tk_seen := insert sequence (tk_seen t)\<rparr>;
               t2 = (if tk_has_highest t1 \<and> sequence < tk_highest t1
                     then t1\<lparr>tk_out_of_order := tk_out_of_order t1 + 1\<rparr> else t1)
      in if \<not> tk_has_highest t2 \<or> sequence > tk_highest t2
         then t2\<lparr>tk_highest := sequence, tk_has_highest := True\<rparr> else t2)"

record sequence_summary =
  sq_expected :: u64
  sq_unique_received :: u64
  sq_lost :: u64
  sq_duplicates :: u64
  sq_out_of_order :: u64
  sq_loss_rate :: rat

definition sequence_summary_of :: "u64 \<Rightarrow> sequence_tracker \<Rightarrow> sequence_summary" where
  "sequence_summary_of expected_messages t =
     (let unique_received = of_nat (card (tk_seen t));
          lost = (if expected_messages > unique_received then expected_messages - unique_received else 0)
      in \<lparr>sq_expected = expected_messages, sq_unique_received = unique_received, sq_lost = lost,
          sq_duplicates = tk_duplicates t, sq_out_of_order = tk_out_of_order t,
          sq_loss_rate = (if expected_messages = 0 then 0
            else dbl (dbl (of_nat (unat lost)) / dbl (of_nat (unat expected_messages))))\<rparr>)"

definition clear_tracker :: "sequence_tracker \<Rightarrow> sequence_tracker" where
  "clear_tracker t = \<lparr>tk_seen = {}, tk_has_highest = False, tk_highest = 0, tk_duplicates = 0, tk_out_of_order = 0\<rparr>"

definition percent :: "nat \<Rightarrow> bool" where
  "percent a \<longleftrightarrow> a = 50 \<or> a = 95 \<or> a = 99"

lemma dbl_percent:
  assumes "percent a"
  shows "dbl (of_nat a / 100) \<le> of_nat a / 100" and "of_nat a / 100 - dbl (of_nat a / 100) \<le> 1 / 2 ^ 53"
    and "1 / 2 \<le> dbl (of_nat a / 100)"
proof -
  have "dbl (50 / 100) = of_int (2 ^ 52) / 2 ^ 53" by (rule dbl_fraction) simp_all
  moreover have "dbl (95 / 100) = of_int 8556839292003942 / 2 ^ 53" by (rule dbl_fraction) simp_all
  moreover have "dbl (99 / 100) = of_int 8917127262193582 / 2 ^ 53" by (rule dbl_fraction) simp_all
  ultimately show "dbl (of_nat a / 100) \<le> of_nat a / 100" "of_nat a / 100 - dbl (of_nat a / 100) \<le> 1 / 2 ^ 53"
    "1 / 2 \<le> dbl (of_nat a / 100)"
    using assms by (auto simp: percent_def)
qed

section \<open>Nearest rank\<close>

text \<open>In spite of two roundings the computed rank is the exact one.\<close>

lemma rank_exact:
  assumes "percent a" and "0 < n" and "n < 2 ^ 40"
  shows "\<lceil>dbl (dbl (of_nat a / 100) * dbl (of_nat n))\<rceil> = \<lceil>of_nat a / 100 * (of_nat n :: rat)\<rceil>"
proof -
  let ?q = "of_nat a / 100 :: rat"
  let ?d = "dbl ?q"
  let ?k = "\<lceil>?q * of_nat n\<rceil>"
  have n: "(of_nat n :: rat) < 2 ^ 40" using assms(3) by (metis of_nat_less_iff of_nat_numeral of_nat_power)
  have dn: "dbl (of_nat n) = of_nat n" using assms(3) by (intro dbl_of_nat) simp
  let ?x = "?d * of_nat n"
  have d: "?d \<le> ?q" "?q - ?d \<le> 1 / 2 ^ 53" "1 / 2 \<le> ?d" "?q < 1"
    using dbl_percent [OF assms(1)] assms(1) by (auto simp: percent_def)
  have x: "0 < ?x" "?x \<le> ?q * of_nat n" "?q * of_nat n < of_nat n"
    using d assms(2) by (auto intro!: mult_pos_pos mult_right_mono)
  have "(2 :: rat) ^ 40 < 2 ^ 53" by simp
  then have x53: "?x < 2 ^ 53" using x n by linarith
  have kpos: "0 \<le> ?k" using x by linarith
  have "?x \<le> of_int ?k" using x(2) by linarith
  then have "?x \<le> of_nat (nat ?k)" using kpos by (metis of_int_of_nat_eq int_nat_eq)
  then have up: "dbl ?x \<le> of_int ?k" using dbl_mono_nat(1) [OF x(1) x53] kpos by (metis of_int_of_nat_eq int_nat_eq)
  have "of_int (?k - 1) + 1 / 100 \<le> ?q * of_nat n"
  proof -
    have "of_int (?k - 1) < ?q * of_nat n" by linarith
    then have "(of_int ((?k - 1) * 100) :: rat) < of_int (int (a * n))" by (simp add: field_simps)
    then have "(?k - 1) * 100 + 1 \<le> int (a * n)" by (simp only: of_int_less_iff)
    then have "(of_int ((?k - 1) * 100 + 1) :: rat) \<le> of_int (int (a * n))" by (simp only: of_int_le_iff)
    then show ?thesis by (simp add: field_simps)
  qed
  moreover have "?q * of_nat n - ?x \<le> of_nat n / 2 ^ 53"
    using mult_right_mono [OF d(2), of "of_nat n"] by (simp add: left_diff_distrib)
  moreover have "?x - dbl ?x \<le> ?x / 2 ^ 53" using dbl_error [OF x(1)] by linarith
  moreover have "?x / 2 ^ 53 \<le> of_nat n / 2 ^ 53" using order_trans [OF x(2) less_imp_le [OF x(3)]] by (rule divide_right_mono) simp
  moreover have "of_nat n / 2 ^ 53 < (1 / 8192 :: rat)" using n by simp
  ultimately have low: "of_int (?k - 1) < dbl ?x" by linarith
  show ?thesis unfolding dn using up low by (intro ceiling_unique) simp_all
qed

text \<open>The reference: the least sample that at least the fraction \<open>q\<close> of all samples do not exceed.\<close>

definition percentile_ref :: "rat \<Rightarrow> u64 list \<Rightarrow> u64" where
  "percentile_ref q xs = Min {v \<in> set xs. q * of_nat (length xs) \<le> of_nat (num (\<lambda>x. x \<le> v) xs)}"

lemma num_sorted:
  fixes ys :: "u64 list"
  assumes "sorted ys" and "i < length ys"
  shows "i + 1 \<le> num (\<lambda>x. x \<le> ys ! i) ys" and "u < ys ! i \<Longrightarrow> num (\<lambda>x. x \<le> u) ys \<le> i"
proof -
  have "num P ys = card {j. j < length ys \<and> P (ys ! j)}" for P by (simp add: num_def length_filter_conv_card)
  moreover have "{..i} \<subseteq> {j. j < length ys \<and> ys ! j \<le> ys ! i}" using assms by (auto intro: sorted_nth_mono)
  ultimately show "i + 1 \<le> num (\<lambda>x. x \<le> ys ! i) ys"
    using card_mono [of "{j. j < length ys \<and> ys ! j \<le> ys ! i}" "{..i}"] by simp
  assume u: "u < ys ! i"
  have "{j. j < length ys \<and> ys ! j \<le> u} \<subseteq> {..<i}"
  proof
    fix j
    assume j: "j \<in> {j. j < length ys \<and> ys ! j \<le> u}"
    then show "j \<in> {..<i}" using sorted_nth_mono [OF assms(1), of i j] u by (cases "i \<le> j") auto
  qed
  then show "num (\<lambda>x. x \<le> u) ys \<le> i"
    using card_mono [of "{..<i}"] by (simp add: num_def length_filter_conv_card)
qed

lemma nearest_rank_ref:
  assumes "percent a" and "xs \<noteq> []" and "length xs < 2 ^ 40"
  shows "nearest_rank (sort xs) (dbl (of_nat a / 100)) = percentile_ref (of_nat a / 100) xs"
proof -
  let ?q = "of_nat a / 100 :: rat" and ?n = "length xs" and ?ys = "sort xs"
  let ?k = "\<lceil>?q * of_nat ?n\<rceil>"
  have n: "0 < ?n" using assms(2) by simp
  have q: "0 < ?q" "?q < 1" using assms(1) by (auto simp: percent_def)
  have k: "1 \<le> ?k" "?k \<le> int ?n"
  proof -
    have "0 < ?q * of_nat ?n" using q(1) n by (intro mult_pos_pos) auto
    then show "1 \<le> ?k" by linarith
    have "?q * of_nat ?n \<le> 1 * of_nat ?n" using q by (intro mult_right_mono) auto
    then have "?q * of_nat ?n \<le> of_int (int ?n)" by simp
    then show "?k \<le> int ?n" by (rule ceiling_le)
  qed
  define i where "i = nat ?k - 1"
  have i: "i < ?n" "int i + 1 = ?k" using k unfolding i_def by linarith+
  have ne: "?ys \<noteq> []" using assms(2) by (metis length_0_conv length_sort)
  have v: "nearest_rank ?ys (dbl ?q) = ?ys ! i"
    using rank_exact [OF assms(1) n assms(3)] ne k i by (simp add: nearest_rank_def Let_def i_def min_def)
  have cnt: "num P ?ys = num P xs" for P by (simp add: num_def filter_sort)
  have ik: "of_int ?k = (of_nat (i + 1) :: rat)" using i(2) by (metis of_int_of_nat_eq of_nat_Suc Suc_eq_plus1 add.commute)
  have enough: "?q * of_nat ?n \<le> of_nat (num (\<lambda>x. x \<le> ?ys ! i) xs)"
  proof -
    have "?q * of_nat ?n \<le> of_int ?k" by linarith
    also have "\<dots> \<le> of_nat (num (\<lambda>x. x \<le> ?ys ! i) xs)"
      unfolding ik of_nat_le_iff using num_sorted(1) [of ?ys i] i(1) cnt by simp
    finally show ?thesis .
  qed
  have least: "?ys ! i \<le> u" if "?q * of_nat ?n \<le> of_nat (num (\<lambda>x. x \<le> u) xs)" for u
  proof (rule ccontr)
    assume "\<not> ?ys ! i \<le> u"
    then have "num (\<lambda>x. x \<le> u) xs \<le> i" using num_sorted(2) [of ?ys i u] i(1) cnt by simp
    then have "?q * of_nat ?n \<le> of_nat i" using that by (meson of_nat_mono order_trans)
    then have "?k \<le> int i" by (simp add: ceiling_le)
    then show False using i(2) by simp
  qed
  show ?thesis
    unfolding v percentile_ref_def
    using enough least i(1) by (intro Min_eqI [symmetric]) (auto, metis length_sort nth_mem set_sort)
qed

lemma sort_ends:
  fixes xs :: "u64 list"
  assumes "xs \<noteq> []"
  shows "hd (sort xs) = Min (set xs)" and "last (sort xs) = Max (set xs)"
proof -
  have ne: "sort xs \<noteq> []" using assms by (metis length_0_conv length_sort)
  show "hd (sort xs) = Min (set xs)"
  proof (rule Min_eqI [symmetric])
    fix y
    assume "y \<in> set xs"
    then obtain i where "i < length (sort xs)" "sort xs ! i = y" by (metis in_set_conv_nth set_sort)
    then show "hd (sort xs) \<le> y" using ne sorted_nth_mono [OF sorted_sort, of 0 i xs] by (auto simp: hd_conv_nth)
  next
    show "hd (sort xs) \<in> set xs" using hd_in_set [OF ne] by simp
  qed simp
  show "last (sort xs) = Max (set xs)"
  proof (rule Max_eqI [symmetric])
    fix y
    assume "y \<in> set xs"
    then obtain i where "i < length (sort xs)" "sort xs ! i = y" by (metis in_set_conv_nth set_sort)
    then show "y \<le> last (sort xs)"
      using ne sorted_nth_mono [OF sorted_sort, of i "length xs - 1" xs] by (auto simp: last_conv_nth)
  next
    show "last (sort xs) \<in> set xs" using last_in_set [OF ne] by simp
  qed simp
qed

lemma fold_record_latency:
  "fold record_latency ls samples = samples @ map of_int (filter (\<lambda>l. 0 \<le> l) ls)"
  by (induction ls arbitrary: samples) (simp_all add: record_latency_def)

text \<open>The summary of any samples, against the reference definitions.\<close>

lemma latency_summary_ref:
  assumes "samples \<noteq> []" and "length samples < 2 ^ 40"
  shows "let s = latency_summary_of ld samples
         in ls_count s = size_of samples
          \<and> ls_min_us s = to_microseconds (Min (set samples))
          \<and> ls_p50_us s = to_microseconds (percentile_ref (50 / 100) samples)
          \<and> ls_p95_us s = to_microseconds (percentile_ref (95 / 100) samples)
          \<and> ls_p99_us s = to_microseconds (percentile_ref (99 / 100) samples)
          \<and> ls_max_us s = to_microseconds (Max (set samples))"
proof -
  have r: "nearest_rank (sort samples) (dbl (of_nat a / 100)) = percentile_ref (of_nat a / 100) samples"
    if "percent a" for a using nearest_rank_ref [OF that assms] .
  show ?thesis
    using r [of 50] r [of 95] r [of 99] sort_ends [OF assms(1)] assms(1)
    unfolding Let_def latency_summary_of_def by (simp add: percent_def del: divide_eq_eq_numeral1)
qed

text \<open>C37: 
  The latency summary is the one its reference definitions give: of all latencies recorded, the
  negative ones are ignored, the extremes are the least and the greatest sample, and each
  percentile is the least sample that the given share of all samples does not exceed, in spite of
  the rounding of \<^verbatim>\<open>0.95 * n\<close> and the like to doubles (for fewer than \<open>2 ^ 40\<close> samples).
\<close>

theorem latency_summary_correct:
  assumes "samples = map of_int (filter (\<lambda>l. 0 \<le> l) ls)" and "samples \<noteq> []" and "length samples < 2 ^ 40"
  shows "let s = latency_summary_of ld (fold record_latency ls [])
         in ls_count s = size_of samples
          \<and> ls_min_us s = to_microseconds (Min (set samples))
          \<and> ls_p50_us s = to_microseconds (percentile_ref (50 / 100) samples)
          \<and> ls_p95_us s = to_microseconds (percentile_ref (95 / 100) samples)
          \<and> ls_p99_us s = to_microseconds (percentile_ref (99 / 100) samples)
          \<and> ls_max_us s = to_microseconds (Max (set samples))"
proof -
  have "fold record_latency ls [] = samples" using assms(1) by (simp add: fold_record_latency)
  then show ?thesis using latency_summary_ref [OF assms(2,3), of ld] by simp
qed

theorem latency_summary_correct_witness:
  "ls_p50_us (latency_summary_of id (fold record_latency [30, - 5, 10, 20] [])) = to_microseconds 20"
proof -
  have "percentile_ref (50 / 100) [30, 10, 20] = Min {v \<in> {30, 10, 20}. 3 / 2 \<le> rat_of_nat (num (\<lambda>x. x \<le> v) [30, 10, 20])}"
    by (simp add: percentile_ref_def)
  also have "{v \<in> {30, 10, 20}. 3 / 2 \<le> rat_of_nat (num (\<lambda>x. x \<le> v) [30, 10, 20])} = {30, 20 :: u64}"
    by (auto simp: num_def)
  finally have "percentile_ref (50 / 100) [30, 10, 20] = 20" by simp
  then show ?thesis using latency_summary_correct [of "[30, 10, 20]" "[30, - 5, 10, 20]" id] by (simp add: Let_def)
qed

section \<open>Sequence numbers: the counts\<close>

text \<open>The positions at which a number arrives for the first time, below one that came before it.\<close>

definition late_positions :: "'a::linorder list \<Rightarrow> nat set" where
  "late_positions xs = {i. i < length xs \<and> xs ! i \<notin> set (take i xs) \<and> (\<exists>y \<in> set (take i xs). xs ! i < y)}"

lemma late_positions_snoc:
  "late_positions (xs @ [x]) = late_positions xs \<union> (if x \<notin> set xs \<and> (\<exists>y \<in> set xs. x < y) then {length xs} else {})"
proof -
  have "i \<in> late_positions (xs @ [x]) \<longleftrightarrow>
    i \<in> late_positions xs \<or> i = length xs \<and> x \<notin> set xs \<and> (\<exists>y \<in> set xs. x < y)" for i
    by (cases i "length xs" rule: linorder_cases) (auto simp: late_positions_def nth_append)
  then show ?thesis by auto
qed

lemma finite_late_positions: "finite (late_positions xs)" "length xs \<notin> late_positions xs"
  by (simp_all add: late_positions_def)

lemma late_positions_map:
  assumes "\<And>x y. x \<in> set xs \<Longrightarrow> y \<in> set xs \<Longrightarrow> f x < f y \<longleftrightarrow> x < y"
    and "\<And>x y. x \<in> set xs \<Longrightarrow> y \<in> set xs \<Longrightarrow> f x = f y \<Longrightarrow> x = y"
  shows "late_positions (map f xs) = late_positions xs"
proof -
  have "(map f xs ! i \<notin> set (take i (map f xs)) \<longleftrightarrow> xs ! i \<notin> set (take i xs)) \<and>
      ((\<exists>y \<in> set (take i (map f xs)). map f xs ! i < y) \<longleftrightarrow> (\<exists>y \<in> set (take i xs). xs ! i < y))" if "i < length xs" for i
  proof -
    have sub: "y \<in> set xs" if "y \<in> set (take i xs)" for y using that by (rule in_set_takeD)
    have x: "xs ! i \<in> set xs" using that by simp
    have "f (xs ! i) \<in> f ` set (take i xs) \<longleftrightarrow> xs ! i \<in> set (take i xs)" using assms(2) [OF x] sub by blast
    moreover have "(\<exists>y \<in> set (take i xs). f (xs ! i) < f y) \<longleftrightarrow> (\<exists>y \<in> set (take i xs). xs ! i < y)"
      using assms(1) [OF x] sub by blast
    ultimately show ?thesis using that by (simp add: take_map)
  qed
  then show ?thesis unfolding late_positions_def by (metis (no_types, lifting) length_map)
qed

lemma tracker_state:
  "fold observe xs sequence_tracker_new =
     \<lparr>tk_seen = set xs, tk_has_highest = (xs \<noteq> []), tk_highest = (if xs = [] then 0 else Max (set xs)),
      tk_duplicates = of_nat (length xs - card (set xs)), tk_out_of_order = of_nat (card (late_positions xs))\<rparr>"
proof (induction xs rule: rev_induct)
  case Nil
  then show ?case by (simp add: sequence_tracker_new_def late_positions_def)
next
  case (snoc x xs)
  have late: "(\<exists>y \<in> set xs. x < y) \<longleftrightarrow> xs \<noteq> [] \<and> x < Max (set xs)"
    by (cases "xs = []") (auto simp: Max_gr_iff)
  have dup: "Suc (length xs) - card (set xs) = Suc (length xs - card (set xs))"
    by (simp add: Suc_diff_le card_length)
  show ?case
    using snoc dup finite_late_positions [of xs]
    by (cases "x \<in> set xs") (auto simp: observe_def Let_def late_positions_snoc late insert_absorb max_def simp del: Max_less_iff)
qed

lemma sequence_summary_counts:
  assumes "length xs < 2 ^ 64"
  shows "let s = sequence_summary_of expected (fold observe xs sequence_tracker_new)
         in unat (sq_unique_received s) = card (set xs)
          \<and> unat (sq_duplicates s) = length xs - card (set xs)
          \<and> unat (sq_out_of_order s) = card (late_positions xs)
          \<and> unat (sq_lost s) = unat expected - card (set xs)
          \<and> (sq_loss_rate s = 0 \<longleftrightarrow> sq_lost s = 0)"
proof -
  let ?s = "sequence_summary_of expected (fold observe xs sequence_tracker_new)"
  have fits: "unat (of_nat n :: u64) = n" if "n \<le> length xs" for n
    using that assms by (simp add: unat_of_nat take_bit_nat_eq_self)
  have "late_positions xs \<subseteq> {..<length xs}" by (auto simp: late_positions_def)
  then have late: "card (late_positions xs) \<le> length xs" using card_mono [of "{..<length xs}"] by fastforce
  have c: "unat (of_nat (card (set xs)) :: u64) = card (set xs)" by (simp add: fits card_length)
  have lost: "unat (sq_lost ?s) = unat expected - card (set xs)"
    using c by (auto simp: sequence_summary_of_def Let_def tracker_state word_less_nat_alt unat_sub_if' )
  have "sq_loss_rate ?s = 0 \<longleftrightarrow> sq_lost ?s = 0"
  proof (cases "expected = 0")
    case True
    then show ?thesis by (simp add: sequence_summary_of_def Let_def)
  next
    case False
    then have "0 < unat expected" by (simp add: unat_gt_0)
    moreover have "sq_loss_rate ?s = dbl (dbl (of_nat (unat (sq_lost ?s))) / dbl (of_nat (unat expected)))"
      using False by (simp add: sequence_summary_of_def Let_def)
    ultimately show ?thesis using dbl_ratio_zero [of "unat expected" "unat (sq_lost ?s)"] by (simp add: unat_eq_0)
  qed
  with lost show ?thesis
    using c late fits [of "length xs - card (set xs)"] fits [of "card (late_positions xs)"]
    unfolding Let_def by (simp add: sequence_summary_of_def Let_def tracker_state)
qed

text \<open>C11: 
  The sequence summary is the one its reference definitions give: of the numbers observed, the
  distinct ones are received, every further occurrence is a duplicate, a first occurrence below an
  earlier number is out of order, and what is missing from the expected count (never less than
  nothing) is lost; the loss rate is zero exactly when nothing is lost.
\<close>

theorem sequence_summary_correct:
  assumes "length xs < 2 ^ 64"
  shows "let s = sequence_summary_of expected (fold observe xs sequence_tracker_new)
         in unat (sq_unique_received s) = card (set xs)
          \<and> unat (sq_duplicates s) = length xs - card (set xs)
          \<and> unat (sq_out_of_order s) = card (late_positions xs)
          \<and> unat (sq_lost s) = unat expected - card (set xs)
          \<and> (sq_loss_rate s = 0 \<longleftrightarrow> sq_lost s = 0)"
  using sequence_summary_counts [OF assms] .

theorem sequence_summary_correct_witness:
  "unat (sq_lost (sequence_summary_of 5 (fold observe [0, 2, 1, 2] sequence_tracker_new))) = 2"
  using sequence_summary_correct [of "[0, 2, 1, 2]" 5] by (simp add: Let_def card_insert_if)

end
