(* ===== verification/Rml_Arguments.thy ===== *)
theory Rml_Arguments
  imports Rml_Prelude
begin

text \<open>
  The command-line arguments of the demonstration programs and of the benchmark: every one of them has
  the same \<^verbatim>\<open>parse_positive\<close>, on top of \<^verbatim>\<open>std::stoull\<close>.
\<close>

section \<open>Reading numbers\<close>

definition is_space :: "char \<Rightarrow> bool" where
  "is_space c \<longleftrightarrow> (of_char c :: nat) = 32 \<or> 9 \<le> (of_char c :: nat) \<and> (of_char c :: nat) \<le> 13"

definition is_digit :: "char \<Rightarrow> bool" where
  "is_digit c \<longleftrightarrow> 48 \<le> (of_char c :: nat) \<and> (of_char c :: nat) \<le> 57"

text \<open>How the standard library reads an unsigned decimal number: leading white space and a sign are
  accepted. The result has the sign, the digits and the number of characters read.\<close>

definition scan_number :: "string \<Rightarrow> bool \<times> string \<times> nat" where
  "scan_number s =
     (let r = dropWhile is_space s;
          minus = (r \<noteq> [] \<and> hd r = CHR ''-'');
          sign = (r \<noteq> [] \<and> (hd r = CHR ''+'' \<or> hd r = CHR ''-''));
          digits = takeWhile is_digit (if sign then tl r else r)
      in (minus, digits, length (takeWhile is_space s) + (if sign then 1 else 0) + length digits))"

text \<open>\<^verbatim>\<open>std::stoull\<close> in base ten: the value and the number of characters read. A negative number wraps
  around.\<close>

definition stoull :: "string \<Rightarrow> (u64 \<times> nat) result" where
  "stoull s =
     (let (minus, digits, consumed) = scan_number s; v = of_string digits
      in if digits = [] then Inl (InvalidArgument ''stoull'')
         else if v \<ge> 2 ^ 64 then Inl (OutOfRange ''stoull'')
         else Inr (if minus then - of_nat v else of_nat v, consumed))"

definition parse_positive :: "string \<Rightarrow> string \<Rightarrow> u64 result" where
  "parse_positive txt nm =
     rbind (stoull txt) (\<lambda>(v, consumed).
       if consumed \<noteq> length txt \<or> v = 0 then Inl (InvalidArgument (nm @ '' must be a positive integer''))
       else Inr v)"

text \<open>\<open>args\<close> are \<^verbatim>\<open>argv[1]\<close> onwards.\<close>

definition positive_arg :: "string list \<Rightarrow> nat \<Rightarrow> string \<Rightarrow> u64 \<Rightarrow> u64 result" where
  "positive_arg args k nm fallback = (if length args > k then parse_positive (args ! k) nm else Inr fallback)"

definition text_arg :: "string list \<Rightarrow> nat \<Rightarrow> string \<Rightarrow> string" where
  "text_arg args k fallback = (if length args > k then args ! k else fallback)"

section \<open>Facts on arguments\<close>

lemma to_string_digits: "list_all is_digit (to_string n)" "to_string n \<noteq> []"
proof (induction n rule: to_string.induct)
  case (1 n)
  have d: "is_digit (digit_char d)" if "d < 10" for d using that by (simp add: is_digit_def digit_char_code)
  { case 1
    show ?case using "1.IH"(1) d by (subst to_string.simps) (simp add: list_all_append)
  next
    case 2
    show ?case by (subst to_string.simps) simp
  }
qed

lemma digit_no_prefix: "is_digit c \<Longrightarrow> \<not> is_space c \<and> c \<noteq> CHR ''+'' \<and> c \<noteq> CHR ''-''"
  by (auto simp: is_digit_def is_space_def)

text \<open>What \<^verbatim>\<open>std::to_string\<close> prints is read back. A negative number is not refused: it wraps around to
  a positive one.\<close>

lemma parse_positive_to_string:
  assumes "0 < v" and "v < 2 ^ 64"
  shows "parse_positive (to_string v) nm = Inr (of_nat v)"
proof -
  let ?s = "to_string v"
  obtain c cs where s: "?s = c # cs" using to_string_digits(2) [of v] by (cases ?s) auto
  have digits: "takeWhile is_digit ?s = ?s" using to_string_digits(1) [of v] by (simp add: list_all_iff)
  have c: "\<not> is_space c" "c \<noteq> CHR ''+''" "c \<noteq> CHR ''-''"
    using to_string_digits(1) [of v] digit_no_prefix [of c] by (auto simp: s)
  have "stoull ?s = Inr (of_nat v, length ?s)"
    using digits c s assms(2) of_string_to_string [of v] by (auto simp: stoull_def scan_number_def Let_def)
  moreover have "unat (of_nat v :: u64) = v" using assms(2) by (simp add: unat_of_nat take_bit_nat_eq_self)
  then have "(of_nat v :: u64) \<noteq> 0" using assms(1) by auto
  ultimately show ?thesis by (simp add: parse_positive_def)
qed

lemma parse_positive_accepts_negative: "parse_positive ''-1'' nm = Inr 0xFFFFFFFFFFFFFFFF"
  by (simp add: parse_positive_def stoull_def scan_number_def is_space_def is_digit_def of_string_def Let_def)

end
