(* ===== verification/Rml_Control_Demo.thy ===== *)
theory Rml_Control_Demo
  imports Rml_Tcp Rml_Network_Message Rml_Statistics Rml_Arguments
begin

text \<open>
  The two programs of the TCP control demonstration (\<^verbatim>\<open>demo/tcp_control_client.cpp\<close>,
  \<^verbatim>\<open>demo/tcp_control_server.cpp\<close>). They use the message codecs, the frames, the TCP transport
  and the statistics together, and so show what these promise end to end: a client that sends
  \<open>count\<close> commands, and a server that receives them, checks them and reports on them. What is
  printed is not modelled; an exception that reaches \<^verbatim>\<open>main\<close> is exit code 1.
\<close>

section \<open>Arguments\<close>

definition client_config :: "string list \<Rightarrow> (string \<times> u16 \<times> u64 \<times> u64) result" where
  "client_config args =
     rbind (positive_arg args 1 ''port'' 7500) (\<lambda>port_value.
     rbind (positive_arg args 2 ''count'' 100) (\<lambda>count.
     rbind (positive_arg args 3 ''rate_hz'' 50) (\<lambda>rate_hz.
     if port_value > 65535 then Inl (InvalidArgument ''port must be in the range 1..65535'')
     else Inr (text_arg args 0 ''127.0.0.1'', ucast port_value, count, rate_hz))))"

definition server_config :: "string list \<Rightarrow> (u16 \<times> u64 \<times> string) result" where
  "server_config args =
     rbind (positive_arg args 0 ''port'' 7500) (\<lambda>port_value.
     rbind (positive_arg args 1 ''expected'' 100) (\<lambda>expected.
     if port_value > 65535 then Inl (InvalidArgument ''port must be in the range 1..65535'')
     else Inr (ucast port_value, expected, text_arg args 2 ''127.0.0.1'')))"

section \<open>The client\<close>

definition command_topic :: string where "command_topic = ''/cmd_vel''"

text \<open>The doubles 0.2, 0.0 and 0.1 by their bits.\<close>

definition drive_command :: "u64 \<Rightarrow> u64 \<Rightarrow> control_msg" where
  "drive_command sequence now_ns = \<lparr>ctl_timestamp_ns = now_ns, ctl_linear_x = 0x3FC999999999999A, ctl_linear_y = 0,
     ctl_angular_z = (if sequence mod 20 = 0 then 0x3FB999999999999A else 0)\<rparr>"

text \<open>The loop, by the number of rounds left. \<open>sleep\<close> is \<^verbatim>\<open>sleep_until\<close>: what the machine does until
  the time given.\<close>

primrec command_rounds ::
  "nat \<Rightarrow> nat \<Rightarrow> 'n os \<Rightarrow> (int \<Rightarrow> 'n \<Rightarrow> 'n) \<Rightarrow> u64 \<Rightarrow> int \<Rightarrow> tcp_connection \<Rightarrow> u64 \<Rightarrow> int \<Rightarrow> 'n \<Rightarrow>
   (unit result \<times> 'n) option" where
  "command_rounds 0 fuel os sleep publisher_id period c sequence next_send n = Some (Inr (), n)"
| "command_rounds (Suc k) fuel os sleep publisher_id period c sequence next_send n =
     (let t = next_send + period;
          (now, n1) = os_now os n;
          now_ns = of_int now
      in (case make_frame control_traits command_topic (drive_command sequence now_ns) sequence publisher_id now_ns of
            Inl e \<Rightarrow> Some (Inl e, n1)
          | Inr f \<Rightarrow> (case tcp_send_frame fuel os f c n1 of
                None \<Rightarrow> None
              | Some (Inl e, n2) \<Rightarrow> Some (Inl e, n2)
              | Some (Inr _, n2) \<Rightarrow>
                  command_rounds k fuel os sleep publisher_id period c (sequence + 1) t (sleep t n2))))"

text \<open>The program: its exit code. The connection is closed when it goes out of scope.\<close>

definition client_main ::
  "nat \<Rightarrow> nat \<Rightarrow> 'n os \<Rightarrow> (int \<Rightarrow> 'n \<Rightarrow> 'n) \<Rightarrow> u64 \<Rightarrow> string list \<Rightarrow> 'n \<Rightarrow> (int \<times> 'n) option" where
  "client_main fuel pf os sleep pid args n =
     (case client_config args of
        Inl e \<Rightarrow> Some (1, n)
      | Inr (host, port, count, rate_hz) \<Rightarrow> (case tcp_client_new host port default_limits of
            Inl e \<Rightarrow> Some (1, n)
          | Inr client \<Rightarrow> (case tcp_connect pf os 5000 client n of
                None \<Rightarrow> None
              | Some (Inl e, n1) \<Rightarrow> Some (1, n1)
              | Some (Inr c, n1) \<Rightarrow>
                  let (now, n2) = os_now os n1;
                      publisher_id = of_int now XOR pid;
                      period = int (1000000000 div unat rate_hz);
                      (next_send, n3) = os_now os n2
                  in (case command_rounds (unat count) fuel os sleep publisher_id period c 0 next_send n3 of
                        None \<Rightarrow> None
                      | Some (r, n4) \<Rightarrow> Some (if is_ok r then 0 else 1, snd (close_noexcept os c n4))))))"

section \<open>The server\<close>

record server_state =
  sv_latencies :: "u64 list"
  sv_sequences :: sequence_tracker
  sv_received :: u64

definition server_state_new :: server_state where
  "server_state_new = \<lparr>sv_latencies = [], sv_sequences = sequence_tracker_new, sv_received = 0\<rparr>"

definition server_take :: "frame \<Rightarrow> u64 \<Rightarrow> server_state \<Rightarrow> server_state" where
  "server_take f now_ns st =
     \<lparr>sv_latencies = (if now_ns \<ge> fr_send_time_ns f
         then record_latency (sint (now_ns - fr_send_time_ns f)) (sv_latencies st) else sv_latencies st),
      sv_sequences = observe (fr_sequence f) (sv_sequences st),
      sv_received = sv_received st + 1\<rparr>"

text \<open>The loop, by the number of messages still expected.\<close>

primrec server_rounds ::
  "nat \<Rightarrow> nat \<Rightarrow> nat \<Rightarrow> 'n os \<Rightarrow> tcp_connection \<Rightarrow> server_state \<Rightarrow> 'n \<Rightarrow>
   (server_state result \<times> tcp_connection \<times> 'n) option" where
  "server_rounds 0 fuel pf os c st n = Some (Inr st, c, n)"
| "server_rounds (Suc k) fuel pf os c st n =
     (case tcp_receive_frame fuel pf os 5000 c n of
        None \<Rightarrow> None
      | Some (Inl e, c1, n1) \<Rightarrow> Some (Inl e, c1, n1)
      | Some (Inr None, c1, n1) \<Rightarrow> Some (Inr st, c1, n1)
      | Some (Inr (Some f), c1, n1) \<Rightarrow> (case deserialize_frame control_traits f command_topic of
            Inl e \<Rightarrow> Some (Inl e, c1, n1)
          | Inr command \<Rightarrow>
              let (now, n2) = os_now os n1
              in server_rounds k fuel pf os c1 (server_take f (of_int now) st) n2))"

definition server_exit :: "u64 \<Rightarrow> server_state \<Rightarrow> int" where
  "server_exit expected st = (if sv_received st = expected then 0 else 2)"

text \<open>What the server reports and its exit code; server and connection are closed on the way out.\<close>

definition server_main ::
  "nat \<Rightarrow> nat \<Rightarrow> 'n os \<Rightarrow> (rat \<Rightarrow> rat) \<Rightarrow> string list \<Rightarrow> 'n \<Rightarrow>
   (int \<times> (sequence_summary \<times> latency_summary) option \<times> 'n) option" where
  "server_main fuel pf os ld args n =
     (case server_config args of
        Inl e \<Rightarrow> Some (1, None, n)
      | Inr (port, expected, bind_address) \<Rightarrow>
          (case tcp_server_new os bind_address port default_server_options n of
             (Inl e, n1) \<Rightarrow> Some (1, None, n1)
           | (Inr server, n1) \<Rightarrow>
               let leave = (\<lambda>code report n'. Some (code, report, snd (tcp_server_close os server n')))
               in (case tcp_server_local_port os server n1 of
                     (Inl e, n2) \<Rightarrow> leave 1 None n2
                   | (Inr p, n2) \<Rightarrow> (case accept fuel pf os 30000 server n2 of
                         None \<Rightarrow> None
                       | Some (Inl e, n3) \<Rightarrow> leave 1 None n3
                       | Some (Inr None, n3) \<Rightarrow> leave 1 None n3
                       | Some (Inr (Some c), n3) \<Rightarrow>
                           (case server_rounds (unat expected) fuel pf os c server_state_new n3 of
                              None \<Rightarrow> None
                            | Some (Inl e, c1, n4) \<Rightarrow> leave 1 None (snd (close_noexcept os c1 n4))
                            | Some (Inr st, c1, n4) \<Rightarrow>
                                leave (server_exit expected st)
                                  (Some (sequence_summary_of expected (sv_sequences st),
                                    latency_summary_of ld (sv_latencies st)))
                                  (snd (close_noexcept os c1 n4)))))))"

section \<open>Facts on commands\<close>

definition command_frame :: "u64 \<Rightarrow> u64 \<Rightarrow> u64 \<Rightarrow> frame" where
  "command_frame publisher_id sequence now_ns =
     \<lparr>fr_flags = 0, fr_type_id = mt_type_id control_traits, fr_schema_hash = mt_schema_hash control_traits,
      fr_sequence = sequence, fr_publisher_id = publisher_id, fr_send_time_ns = now_ns, fr_topic = command_topic,
      fr_payload = serialize control_traits (drive_command sequence now_ns)\<rparr>"

lemma make_command:
  "make_frame control_traits command_topic (drive_command s t) s p t = Inr (command_frame p s t)"
  by (simp add: make_frame_def command_topic_def size_of_def command_frame_def empty_frame_def)

lemma command_frame_facts:
  "sendable default_limits (command_frame p s t)"
  "deserialize_frame control_traits (command_frame p s t) command_topic = Inr (drive_command s t)"
  "length (frame_image (command_frame p s t)) = 96" "fr_sequence (command_frame p s t) = s"
proof -
  have "fits command_topic" by (simp add: fits_def command_topic_def)
  note facts = control.made_frame_fits_default_limits [OF make_command this, of p s t]
  show "sendable default_limits (command_frame p s t)" using facts by (simp add: sendable_def)
  show "deserialize_frame control_traits (command_frame p s t) command_topic = Inr (drive_command s t)"
    using control.made_frame_deserializes [OF make_command] by blast
  show "length (frame_image (command_frame p s t)) = 96"
    by (simp add: frame_image_def frame_body_def command_frame_def command_topic_def control.serialize_length)
  show "fr_sequence (command_frame p s t) = s" by (simp add: command_frame_def)
qed

primrec commands :: "u64 \<Rightarrow> u64 \<Rightarrow> u64 list \<Rightarrow> frame list" where
  "commands p s [] = []"
| "commands p s (t # ts) = command_frame p s t # commands p (s + 1) ts"

lemma commands_sequences: "map fr_sequence (commands p s ts) = map (\<lambda>i. s + of_nat i) [0..<length ts]"
proof (induction ts arbitrary: s)
  case (Cons t ts)
  have "map (\<lambda>i. s + of_nat i) [0..<Suc (length ts)] = s # map (\<lambda>i. s + 1 + of_nat i) [0..<length ts]"
    by (simp add: upt_conv_Cons map_Suc_upt [symmetric] comp_def add.assoc del: upt_Suc)
  then show ?case using Cons by (simp add: command_frame_facts)
qed simp

section \<open>The loops\<close>

text \<open>What a client that came to its end has put on the wire.\<close>

lemma command_rounds_wire:
  assumes sink: "tcp_sink os (tc_socket_fd c) outgoing" and "0 \<le> tc_socket_fd c" and "tc_limits c = default_limits"
    and quiet: "\<And>n. outgoing (snd (os_now os n)) = outgoing n" "\<And>t n. outgoing (sleep t n) = outgoing n"
  shows "command_rounds k fuel os sleep p period c s next_send n = Some (Inr (), n') \<Longrightarrow>
    \<exists>ts. length ts = k \<and> outgoing n' = outgoing n @ wire_image (commands p s ts)"
proof (induction k arbitrary: s next_send n)
  case (Suc k)
  obtain now n1 where now: "os_now os n = (now, n1)" by force
  let ?f = "command_frame p s (of_int now)"
  obtain n2 where send: "tcp_send_frame fuel os ?f c n1 = Some (Inr (), n2)"
    and more: "command_rounds k fuel os sleep p period c (s + 1) (next_send + period) (sleep (next_send + period) n2) = Some (Inr (), n')"
    using Suc.prems now by (auto simp: make_command Let_def split: option.splits sum.splits)
  have "send_loop fuel os (tc_socket_fd c) (frame_image ?f) 0 n1 = Some (Inr (), n2)"
    using send sendable_encodes [OF command_frame_facts(1)] assms(2,3) by (simp add: tcp_send_frame_def send_all_def)
  then have "outgoing n2 = outgoing n1 @ frame_image ?f"
    using send_loop_sink [OF sink, of fuel "frame_image ?f" 0 n1 "Inr ()" n2] by auto
  moreover obtain ts where "length ts = k" "outgoing n' = outgoing n2 @ wire_image (commands p (s + 1) ts)"
    using Suc.IH [OF more] quiet(2) by auto
  moreover have "outgoing n1 = outgoing n" using quiet(1) [of n] now by simp
  ultimately show ?case by (intro exI [of _ "of_int now # ts"]) simp
qed simp

text \<open>A client whose socket takes data comes to its end.\<close>

lemma command_rounds_returns:
  assumes "\<And>data n. data \<noteq> [] \<Longrightarrow> \<exists>k n'. os_send os (tc_socket_fd c) data n = (Sent k, n') \<and> 0 < k"
    and "0 \<le> tc_socket_fd c" and "tc_limits c = default_limits" and "96 \<le> fuel"
  shows "\<exists>n'. command_rounds k fuel os sleep p period c s next_send n = Some (Inr (), n')"
proof (induction k arbitrary: s next_send n)
  case (Suc k)
  obtain now n1 where now: "os_now os n = (now, n1)" by force
  let ?f = "command_frame p s (of_int now)"
  have "\<exists>n2. tcp_send_frame fuel os ?f c n1 = Some (Inr (), n2)"
    using send_loop_succeeds [OF assms(1), of "frame_image ?f" 0 fuel n1] assms(2-4) command_frame_facts(3) [of p s]
      sendable_encodes [OF command_frame_facts(1)]
    by (simp add: tcp_send_frame_def send_all_def)
  then show ?case using Suc.IH now by (auto simp: make_command Let_def)
qed simp

text \<open>What a server makes of the commands on its stream.\<close>

lemma server_rounds_stream:
  assumes ready: "tcp_ready os (tc_socket_fd c) incoming" and "0 \<le> tc_socket_fd c" and "tc_limits c = default_limits"
    and empty: "tc_receive_buffer c = []" and fuel: "96 \<le> fuel" "0 < pf"
  shows "incoming n = wire_image (commands p s ts) \<Longrightarrow>
    \<exists>st' n'. server_rounds (length ts) fuel pf os c st n = Some (Inr st', c, n') \<and>
      sv_received st' = sv_received st + of_nat (length ts) \<and>
      sv_sequences st' = fold observe (map fr_sequence (commands p s ts)) (sv_sequences st)"
proof (induction ts arbitrary: s st n)
  case (Cons t ts)
  let ?f = "command_frame p s t"
  have same: "c\<lparr>tc_receive_buffer := []\<rparr> = c" using empty by simp
  have "stream_unit (tc_limits c) (frame_image ?f)"
    using sendable_stream_unit [OF command_frame_facts(1)] assms(3) by simp
  then obtain n1 where got: "tcp_receive_frame fuel pf os 5000 c n = Some (Inr (Some ?f), c, n1)"
    and rest: "incoming n1 = wire_image (commands p (s + 1) ts)"
    using tcp_receive_ready [OF ready assms(2), of "frame_image ?f" n "wire_image (commands p (s + 1) ts)" fuel pf 5000]
      Cons.prems empty fuel same command_frame_facts(3) [of p s t] sendable_decodes [OF command_frame_facts(1)] assms(3)
    by (auto simp: unit_result_def)
  obtain now n2 where now: "os_now os n1 = (now, n2)" by force
  then have "incoming n2 = wire_image (commands p (s + 1) ts)"
    using rest ready tcp_streamD(1) by (metis tcp_ready_def)
  note more = Cons.IH [OF this, of "server_take ?f (of_int now) st"]
  show ?case
    using got more now by (auto simp: command_frame_facts server_take_def add.assoc)
qed simp

text \<open>Sequence numbers that arrive one after the other.\<close>

lemma in_order_summary:
  assumes "k < 2 ^ 64"
  shows "sequence_summary_of (of_nat k) (fold observe (map of_nat [0..<k]) sequence_tracker_new) =
    \<lparr>sq_expected = of_nat k, sq_unique_received = of_nat k, sq_lost = 0, sq_duplicates = 0, sq_out_of_order = 0,
     sq_loss_rate = 0\<rparr>"
proof -
  let ?xs = "map of_nat [0..<k] :: u64 list"
  have inj: "inj_on (of_nat :: nat \<Rightarrow> u64) {0..<k}"
  proof (rule inj_onI)
    fix i j
    assume "i \<in> {0..<k}" "j \<in> {0..<k}" "(of_nat i :: u64) = of_nat j"
    then show "i = j" using assms by (simp add: of_nat_inverse word_unat_eq_iff unat_of_nat take_bit_nat_eq_self)
  qed
  then have card: "card (set ?xs) = k" by (simp add: card_image)
  have "\<not> (of_nat i :: u64) < of_nat j" if "j < i" "i < k" for i j
    using that assms by (simp add: word_less_nat_alt unat_of_nat take_bit_nat_eq_self)
  then have "late_positions ?xs = {}" by (auto simp: late_positions_def take_map)
  then show ?thesis using card by (simp add: tracker_state sequence_summary_of_def Let_def fl_def)
qed

end
