(* ===== verification/Rml_Udp_Demo.thy ===== *)
theory Rml_Udp_Demo
  imports Rml_Udp Rml_Network_Message Rml_Statistics Rml_Arguments
begin

text \<open>
  The two programs of the UDP demonstration (\<^verbatim>\<open>demo/udp_sensor.cpp\<close>,
  \<^verbatim>\<open>demo/udp_control.cpp\<close>): a sensor that sends IMU messages at a fixed rate, and a receiver that
  reports what the network did to them. What is printed is not modelled; the report has the numbers. An
  exception that reaches \<^verbatim>\<open>main\<close> is exit code 1.
\<close>

section \<open>Arguments\<close>

definition sensor_config :: "string list \<Rightarrow> (string \<times> u16 \<times> u64 \<times> u64) result" where
  "sensor_config args =
     rbind (positive_arg args 1 ''port'' 7400) (\<lambda>port_value.
     rbind (positive_arg args 2 ''count'' 1000) (\<lambda>count.
     rbind (positive_arg args 3 ''rate_hz'' 100) (\<lambda>rate_hz.
     if port_value > 65535 then Inl (InvalidArgument ''port must be in the range 1..65535'')
     else Inr (text_arg args 0 ''127.0.0.1'', ucast port_value, count, rate_hz))))"

definition control_config :: "string list \<Rightarrow> (string \<times> u16 \<times> u64 \<times> u64) result" where
  "control_config args =
     rbind (positive_arg args 1 ''port'' 7400) (\<lambda>port_value.
     rbind (positive_arg args 2 ''expected'' 1000) (\<lambda>expected.
     rbind (positive_arg args 3 ''timeout_ms'' 3000) (\<lambda>timeout_ms.
     if port_value > 65535 then Inl (InvalidArgument ''port must be in the range 1..65535'')
     else Inr (text_arg args 0 ''127.0.0.1'', ucast port_value, expected, timeout_ms))))"

section \<open>The sensor\<close>

definition imu_topic :: string where "imu_topic = ''/imu''"

text \<open>The double 0.05 by its bits.\<close>

definition sensor_message :: "u64 \<Rightarrow> u64 \<Rightarrow> imu_msg" where
  "sensor_message sequence now_ns =
     \<lparr>imu_timestamp_ns = now_ns, imu_yaw = f64_of_nat (unat (sequence mod 360)), imu_gyro_z = 0x3FA999999999999A\<rparr>"

text \<open>The loop, by the number of rounds left; \<open>sleep\<close> is \<^verbatim>\<open>sleep_until\<close>.\<close>

primrec sensor_rounds ::
  "nat \<Rightarrow> nat \<Rightarrow> 'n os \<Rightarrow> (int \<Rightarrow> 'n \<Rightarrow> 'n) \<Rightarrow> u64 \<Rightarrow> int \<Rightarrow> udp_sender \<Rightarrow> u64 \<Rightarrow> int \<Rightarrow> 'n \<Rightarrow>
   (unit result \<times> 'n) option" where
  "sensor_rounds 0 fuel os sleep publisher_id period sender sequence next_send n = Some (Inr (), n)"
| "sensor_rounds (Suc k) fuel os sleep publisher_id period sender sequence next_send n =
     (let t = next_send + period;
          (now, n1) = os_now os n;
          now_ns = of_int now
      in (case make_frame imu_traits imu_topic (sensor_message sequence now_ns) sequence publisher_id now_ns of
            Inl e \<Rightarrow> Some (Inl e, n1)
          | Inr f \<Rightarrow> (case udp_send_frame fuel os f sender n1 of
                None \<Rightarrow> None
              | Some (Inl e, n2) \<Rightarrow> Some (Inl e, n2)
              | Some (Inr _, n2) \<Rightarrow>
                  sensor_rounds k fuel os sleep publisher_id period sender (sequence + 1) t (sleep t n2))))"

definition sensor_main ::
  "nat \<Rightarrow> 'n os \<Rightarrow> (int \<Rightarrow> 'n \<Rightarrow> 'n) \<Rightarrow> u64 \<Rightarrow> string list \<Rightarrow> 'n \<Rightarrow> (int \<times> 'n) option" where
  "sensor_main fuel os sleep pid args n =
     (case sensor_config args of
        Inl e \<Rightarrow> Some (1, n)
      | Inr (host, port, count, rate_hz) \<Rightarrow> (case udp_sender_new os host port default_udp_options n of
            (Inl e, n1) \<Rightarrow> Some (1, n1)
          | (Inr sender, n1) \<Rightarrow>
              let (now, n2) = os_now os n1;
                  publisher_id = of_int now XOR pid;
                  period = int (1000000000 div unat rate_hz);
                  (next_send, n3) = os_now os n2
              in (case sensor_rounds (unat count) fuel os sleep publisher_id period sender 0 next_send n3 of
                    None \<Rightarrow> None
                  | Some (r, n4) \<Rightarrow> Some (if is_ok r then 0 else 1, snd (udp_sender_close os sender n4)))))"

section \<open>The receiver\<close>

text \<open>\<open>uc_taken\<close> is history: the frames taken with the two clock readings that belong to them.\<close>

record control_state =
  uc_latencies :: "u64 list"
  uc_sequences :: sequence_tracker
  uc_malformed :: u64
  uc_received :: u64
  uc_first_receive :: "int option"
  uc_last_receive :: "int option"
  uc_taken :: "(frame \<times> u64 \<times> int) list"

definition control_state_new :: control_state where
  "control_state_new = \<lparr>uc_latencies = [], uc_sequences = sequence_tracker_new, uc_malformed = 0, uc_received = 0,
     uc_first_receive = None, uc_last_receive = None, uc_taken = []\<rparr>"

definition control_take :: "frame \<Rightarrow> u64 \<Rightarrow> int \<Rightarrow> control_state \<Rightarrow> control_state" where
  "control_take f now_ns receive_time st =
     st\<lparr>uc_latencies := (if now_ns \<ge> fr_send_time_ns f
          then record_latency (sint (now_ns - fr_send_time_ns f)) (uc_latencies st) else uc_latencies st),
        uc_sequences := observe (fr_sequence f) (uc_sequences st),
        uc_received := uc_received st + 1,
        uc_first_receive := (if uc_first_receive st = None then Some receive_time else uc_first_receive st),
        uc_last_receive := Some receive_time,
        uc_taken := uc_taken st @ [(f, now_ns, receive_time)]\<rparr>"

definition control_discard :: "control_state \<Rightarrow> control_state" where
  "control_discard st = st\<lparr>uc_malformed := uc_malformed st + 1\<rparr>"

text \<open>The loop, for at most \<open>rounds\<close> rounds: any exception of a round counts as a malformed datagram.\<close>

primrec control_rounds ::
  "nat \<Rightarrow> nat \<Rightarrow> nat \<Rightarrow> 'n os \<Rightarrow> int \<Rightarrow> u64 \<Rightarrow> udp_receiver \<Rightarrow> control_state \<Rightarrow> 'n \<Rightarrow> (control_state \<times> 'n) option" where
  "control_rounds 0 fuel pf os timeout expected r st n = (if uc_received st < expected then None else Some (st, n))"
| "control_rounds (Suc rounds) fuel pf os timeout expected r st n =
     (if \<not> uc_received st < expected then Some (st, n)
      else (case udp_receive_frame fuel pf os timeout r n of
          None \<Rightarrow> None
        | Some (Inl e, n1) \<Rightarrow> control_rounds rounds fuel pf os timeout expected r (control_discard st) n1
        | Some (Inr None, n1) \<Rightarrow> Some (st, n1)
        | Some (Inr (Some f), n1) \<Rightarrow> (case deserialize_frame imu_traits f imu_topic of
              Inl e \<Rightarrow> control_rounds rounds fuel pf os timeout expected r (control_discard st) n1
            | Inr imu \<Rightarrow>
                let (now, n2) = os_now os n1; (receive_time, n3) = os_now os n2
                in control_rounds rounds fuel pf os timeout expected r
                     (control_take f (of_int now) receive_time st) n3)))"

text \<open>The report: packets, latencies, malformed datagrams and messages per second, and the exit code.\<close>

definition receive_duration :: "control_state \<Rightarrow> rat" where
  "receive_duration st =
     (case (uc_first_receive st, uc_last_receive st) of
        (Some first, Some final) \<Rightarrow> dbl_signed (dbl_signed (of_int (final - first)) / 1000000000)
      | _ \<Rightarrow> 0)"

definition control_throughput :: "u64 \<Rightarrow> control_state \<Rightarrow> rat" where
  "control_throughput expected st =
     (if receive_duration st > 0
      then dbl (dbl (of_nat (unat (sq_unique_received (sequence_summary_of expected (uc_sequences st))))) / receive_duration st)
      else 0)"

definition control_exit :: "control_state \<Rightarrow> int" where
  "control_exit st = (if uc_received st = 0 then 2 else 0)"

record control_report =
  cr_packets :: sequence_summary
  cr_latency :: latency_summary
  cr_malformed :: u64
  cr_throughput :: rat

definition control_report_of :: "(rat \<Rightarrow> rat) \<Rightarrow> u64 \<Rightarrow> control_state \<Rightarrow> control_report" where
  "control_report_of ld expected st =
     \<lparr>cr_packets = sequence_summary_of expected (uc_sequences st), cr_latency = latency_summary_of ld (uc_latencies st),
      cr_malformed = uc_malformed st, cr_throughput = control_throughput expected st\<rparr>"

definition control_main ::
  "nat \<Rightarrow> nat \<Rightarrow> nat \<Rightarrow> 'n os \<Rightarrow> (rat \<Rightarrow> rat) \<Rightarrow> string list \<Rightarrow> 'n \<Rightarrow> (int \<times> control_report option \<times> 'n) option" where
  "control_main rounds fuel pf os ld args n =
     (case control_config args of
        Inl e \<Rightarrow> Some (1, None, n)
      | Inr (bind_address, port, expected, timeout_ms) \<Rightarrow>
          (case udp_receiver_new os bind_address port default_udp_options n of
             (Inl e, n1) \<Rightarrow> Some (1, None, n1)
           | (Inr r, n1) \<Rightarrow> (case udp_local_port os r n1 of
                 (Inl e, n2) \<Rightarrow> Some (1, None, snd (udp_receiver_close os r n2))
               | (Inr p, n2) \<Rightarrow>
                   (case control_rounds rounds fuel pf os (sint timeout_ms) expected r control_state_new n2 of
                      None \<Rightarrow> None
                    | Some (st, n3) \<Rightarrow> Some (control_exit st, Some (control_report_of ld expected st),
                        snd (udp_receiver_close os r n3))))))"

section \<open>Facts on sensor messages\<close>

definition sensor_frame :: "u64 \<Rightarrow> u64 \<Rightarrow> u64 \<Rightarrow> frame" where
  "sensor_frame publisher_id sequence now_ns =
     \<lparr>fr_flags = 0, fr_type_id = mt_type_id imu_traits, fr_schema_hash = mt_schema_hash imu_traits,
      fr_sequence = sequence, fr_publisher_id = publisher_id, fr_send_time_ns = now_ns, fr_topic = imu_topic,
      fr_payload = serialize imu_traits (sensor_message sequence now_ns)\<rparr>"

lemma make_sensor_frame:
  "make_frame imu_traits imu_topic (sensor_message s t) s p t = Inr (sensor_frame p s t)"
  by (simp add: make_frame_def imu_topic_def size_of_def sensor_frame_def empty_frame_def)

lemma sensor_frame_facts:
  "sendable default_limits (sensor_frame p s t)"
  "deserialize_frame imu_traits (sensor_frame p s t) imu_topic = Inr (sensor_message s t)"
  "length (frame_image (sensor_frame p s t)) = 84" "fr_sequence (sensor_frame p s t) = s"
proof -
  have "fits imu_topic" by (simp add: fits_def imu_topic_def)
  note facts = imu.made_frame_fits_default_limits [OF make_sensor_frame this, of p s t]
  show "sendable default_limits (sensor_frame p s t)" using facts by (simp add: sendable_def)
  show "deserialize_frame imu_traits (sensor_frame p s t) imu_topic = Inr (sensor_message s t)"
    using imu.made_frame_deserializes [OF make_sensor_frame] by blast
  show "length (frame_image (sensor_frame p s t)) = 84"
    by (simp add: frame_image_def frame_body_def sensor_frame_def imu_topic_def imu.serialize_length)
  show "fr_sequence (sensor_frame p s t) = s" by (simp add: sensor_frame_def)
qed

lemma sensor_datagram:
  "datagram_result default_udp_options (frame_image (sensor_frame p s t)) = Inr (Some (sensor_frame p s t))"
  by (rule datagram_result_image) (simp_all add: sensor_frame_facts default_udp_options_def)

primrec sensor_frames :: "u64 \<Rightarrow> u64 \<Rightarrow> u64 list \<Rightarrow> frame list" where
  "sensor_frames p s [] = []"
| "sensor_frames p s (t # ts) = sensor_frame p s t # sensor_frames p (s + 1) ts"


lemma length_sensor_frames [simp]: "length (sensor_frames p s ts) = length ts"
  by (induction ts arbitrary: s) simp_all


section \<open>What the receiver makes of any datagrams\<close>

text \<open>The frame a datagram counts for; every other datagram is malformed.\<close>

definition valid_sample :: "byte_buffer \<Rightarrow> frame option" where
  "valid_sample d = (case datagram_result default_udp_options d of
       Inr (Some f) \<Rightarrow> if is_ok (deserialize_frame imu_traits f imu_topic) then Some f else None
     | _ \<Rightarrow> None)"

lemma valid_sample_sensor [simp]: "valid_sample (frame_image (sensor_frame p s t)) = Some (sensor_frame p s t)"
  by (simp add: valid_sample_def sensor_datagram sensor_frame_facts)

definition samples :: "byte_buffer list \<Rightarrow> frame list" where
  "samples ds = List.map_filter valid_sample ds"

lemma samples_simps [simp]:
  "samples [] = []" "samples (d # ds) = (case valid_sample d of None \<Rightarrow> samples ds | Some f \<Rightarrow> f # samples ds)"
  by (simp_all add: samples_def split: option.splits)


definition accounts_for :: "byte_buffer list \<Rightarrow> control_state \<Rightarrow> control_state \<Rightarrow> bool" where
  "accounts_for ds st st' \<longleftrightarrow>
     uc_sequences st' = fold observe (map fr_sequence (samples ds)) (uc_sequences st) \<and>
     uc_received st' = uc_received st + of_nat (length (samples ds)) \<and>
     uc_malformed st' = uc_malformed st + of_nat (length ds - length (samples ds)) \<and>
     map fst (uc_taken st') = map fst (uc_taken st) @ samples ds"

lemma accounts_for_Nil [simp]: "accounts_for [] st st"
  by (simp add: accounts_for_def)











text \<open>When the socket itself fails, the loop takes the failure for a malformed datagram and goes on for ever.\<close>

lemma control_spins_on_socket_error:
  assumes "\<And>t n. \<exists>n'. os_poll os (ur_socket_fd r) POLLIN t n = (PollReady POLLNVAL, n')" and "0 \<le> ur_socket_fd r"
    and "uc_received st < expected"
  shows "control_rounds rounds fuel pf os timeout expected r st n = None"
  using assms(3)
proof (induction rounds arbitrary: st n)
  case (Suc rounds)
  have "\<exists>e n'. udp_receive_frame (Suc fuel) (Suc pf) os timeout r n = Some (Inl e, n')" for fuel pf
  proof -
    obtain d n1 where d: "deadline_after os timeout n = (d, n1)" by force
    obtain v n2 where v: "poll_timeout_ms os d n1 = (v, n2)" by force
    obtain n3 where "os_poll os (ur_socket_fd r) POLLIN v n2 = (PollReady POLLNVAL, n3)" using assms(1) by blast
    then show ?thesis using d v assms(2) by (simp add: udp_receive_frame_def poll_consts)
  qed
  then have "udp_receive_frame fuel pf os timeout r n = None \<or> (\<exists>e n'. udp_receive_frame fuel pf os timeout r n = Some (Inl e, n'))"
    using assms(2) by (cases fuel; cases pf) (auto simp: udp_receive_frame_def split: prod.splits)
  moreover have "uc_received (control_discard st) < expected" using Suc.prems by (simp add: control_discard_def)
  ultimately show ?case using Suc by auto
qed simp

section \<open>Through the network\<close>













end
