(* ===== verification/Rml_Process_Metrics.thy ===== *)
theory Rml_Process_Metrics
  imports Rml_Double Rml_Arguments
begin

text \<open>
  Process metrics (\<^verbatim>\<open>benchmark/process_metrics.hpp\<close>): wall time, processor time and memory between
  two samples. What the operating system reports in one sample is a record of readings, an argument of
  the functions that sample; parsing, conversion, error handling and arithmetic are the program's.
\<close>

section \<open>Readings and results\<close>

text \<open>The contents of \<^verbatim>\<open>/proc/self/statm\<close> (if it can be opened), the page size, what \<^verbatim>\<open>getrusage\<close> gives
  (if it succeeds: user and system time as seconds and microseconds, and the peak in KiB), and the
  monotonic clock in nanoseconds.\<close>

record readings =
  rd_statm :: "string option"
  rd_page_size :: int
  rd_usage :: "((int \<times> int) \<times> (int \<times> int) \<times> int) option"
  rd_now :: int

record metrics_snapshot =
  ps_wall_time :: int
  ps_user_cpu_seconds :: rat
  ps_system_cpu_seconds :: rat
  ps_current_rss_bytes :: u64
  ps_peak_rss_bytes :: u64

record process_metrics =
  pm_wall_time_seconds :: rat
  pm_user_cpu_seconds :: rat
  pm_system_cpu_seconds :: rat
  pm_cpu_percent :: rat
  pm_current_rss_bytes :: u64
  pm_peak_rss_bytes :: u64

section \<open>Sampling\<close>

definition timeval_to_seconds :: "int \<times> int \<Rightarrow> rat" where
  "timeval_to_seconds v = (case v of (tv_sec, tv_usec) \<Rightarrow>
     dbl_signed (dbl_signed (of_int tv_sec) + dbl_signed (dbl_signed (of_int tv_usec) / 1000000)))"

text \<open>\<^verbatim>\<open>stream >> value\<close> for an unsigned 64-bit value: \<open>None\<close> when the stream fails.\<close>

definition extract_u64 :: "string \<Rightarrow> (u64 \<times> string) option" where
  "extract_u64 s =
     (let (minus, digits, consumed) = scan_number s; v = of_string digits
      in if digits = [] \<or> v \<ge> 2 ^ 64 then None
         else Some (if minus then - of_nat v else of_nat v, drop consumed s))"

definition read_current_rss_bytes :: "readings \<Rightarrow> u64 result" where
  "read_current_rss_bytes rd =
     (case Option.bind (rd_statm rd) (\<lambda>s. Option.bind (extract_u64 s) (\<lambda>(virtual_pages, s1). extract_u64 s1)) of
        None \<Rightarrow> Inl (RuntimeError ''failed to read /proc/self/statm'')
      | Some (resident_pages, s2) \<Rightarrow>
          if rd_page_size rd \<le> 0 then Inl (RuntimeError ''failed to query Linux page size'')
          else Inr (resident_pages * of_int (rd_page_size rd)))"

definition sample_process_metrics :: "readings \<Rightarrow> metrics_snapshot result" where
  "sample_process_metrics rd =
     rbind (read_current_rss_bytes rd) (\<lambda>current_rss_bytes.
     case rd_usage rd of
       None \<Rightarrow> Inl (RuntimeError ''getrusage(RUSAGE_SELF) failed'')
     | Some (utime, stime, maxrss) \<Rightarrow>
         let kernel_peak_rss_bytes = of_int maxrss * 1024
         in Inr \<lparr>ps_wall_time = rd_now rd, ps_user_cpu_seconds = timeval_to_seconds utime,
              ps_system_cpu_seconds = timeval_to_seconds stime, ps_current_rss_bytes = current_rss_bytes,
              ps_peak_rss_bytes = (if kernel_peak_rss_bytes \<ge> current_rss_bytes then kernel_peak_rss_bytes
                else current_rss_bytes)\<rparr>)"

section \<open>The difference of two samples\<close>

definition calculate_process_metrics :: "metrics_snapshot \<Rightarrow> metrics_snapshot \<Rightarrow> process_metrics" where
  "calculate_process_metrics started finished =
     (let wall = dbl_signed (dbl_signed (of_int (ps_wall_time finished - ps_wall_time started)) / 1000000000);
          user = (if ps_user_cpu_seconds finished \<ge> ps_user_cpu_seconds started
            then dbl_signed (ps_user_cpu_seconds finished - ps_user_cpu_seconds started) else 0);
          system = (if ps_system_cpu_seconds finished \<ge> ps_system_cpu_seconds started
            then dbl_signed (ps_system_cpu_seconds finished - ps_system_cpu_seconds started) else 0);
          total_cpu_seconds = dbl_signed (user + system)
      in \<lparr>pm_wall_time_seconds = wall, pm_user_cpu_seconds = user, pm_system_cpu_seconds = system,
          pm_cpu_percent = (if wall > 0 then dbl_signed (dbl_signed (total_cpu_seconds / wall) * 100) else 0),
          pm_current_rss_bytes = ps_current_rss_bytes finished, pm_peak_rss_bytes = ps_peak_rss_bytes finished\<rparr>)"

text \<open>\<^verbatim>\<open>ProcessMetricsSampler\<close>: the constructor takes the first sample, \<^verbatim>\<open>finish\<close> the second.\<close>

definition sampler_new :: "readings \<Rightarrow> metrics_snapshot result" where
  "sampler_new rd = sample_process_metrics rd"

definition sampler_finish :: "metrics_snapshot \<Rightarrow> readings \<Rightarrow> process_metrics result" where
  "sampler_finish started rd = rbind (sample_process_metrics rd) (\<lambda>finished. Inr (calculate_process_metrics started finished))"

section \<open>Properties\<close>

text \<open>A chain of two roundings with a division and a multiplication in between stays close to the exact value.\<close>

lemma percent_bounds:
  assumes "0 \<le> t" and "0 < w"
  shows "t / w * 100 * (1 - 1 / 2 ^ 53) ^ 2 \<le> dbl (dbl (t / w) * 100)"
    and "dbl (dbl (t / w) * 100) \<le> t / w * 100 * (1 + 1 / 2 ^ 53) ^ 2"
proof -
  let ?q = "t / w" and ?lo = "1 - 1 / 2 ^ 53 :: rat" and ?hi = "1 + 1 / 2 ^ 53 :: rat"
  have q: "0 \<le> ?q" using assms by simp
  have "?q * ?lo * 100 * ?lo \<le> dbl ?q * 100 * ?lo"
    using dbl_bounds(1) [OF q] by (intro mult_right_mono) auto
  also have "\<dots> \<le> dbl (dbl ?q * 100)" using dbl_bounds(1) [of "dbl ?q * 100"] by simp
  finally show "?q * 100 * ?lo ^ 2 \<le> dbl (dbl ?q * 100)" by (simp add: power2_eq_square mult.commute mult.left_commute)
  have "dbl (dbl ?q * 100) \<le> dbl ?q * 100 * ?hi" using dbl_bounds(2) [of "dbl ?q * 100"] by simp
  also have "\<dots> \<le> ?q * ?hi * 100 * ?hi" using dbl_bounds(2) [OF q] by (intro mult_right_mono) auto
  finally show "dbl (dbl ?q * 100) \<le> ?q * 100 * ?hi ^ 2" by (simp add: power2_eq_square mult.commute mult.left_commute)
qed

text \<open>The load as it is computed, against the exact quotient of what it is computed from.\<close>

lemma load_bounds:
  assumes "0 \<le> u" and "0 \<le> s" and w: "0 < w"
  shows "(u + s) / w * 100 * (1 - 1 / 2 ^ 53) ^ 3 \<le> dbl (dbl (dbl (u + s) / w) * 100) \<and>
    dbl (dbl (dbl (u + s) / w) * 100) \<le> (u + s) / w * 100 * (1 + 1 / 2 ^ 53) ^ 3"
proof
  let ?c = "u + s" and ?lo = "1 - 1 / 2 ^ 53 :: rat" and ?hi = "1 + 1 / 2 ^ 53 :: rat"
  have t: "?c * ?lo \<le> dbl ?c" "dbl ?c \<le> ?c * ?hi" using dbl_bounds [of ?c] assms(1,2) by auto
  have "?c / w * 100 * ?lo ^ 3 = ?c * ?lo / w * 100 * ?lo ^ 2" by (simp add: power2_eq_square power3_eq_cube)
  also have "\<dots> \<le> dbl ?c / w * 100 * ?lo ^ 2" using t(1) w by (intro mult_right_mono divide_right_mono) auto
  also have "\<dots> \<le> dbl (dbl (dbl ?c / w) * 100)" using percent_bounds(1) [of "dbl ?c" w] w by simp
  finally show "?c / w * 100 * ?lo ^ 3 \<le> dbl (dbl (dbl ?c / w) * 100)" .
  have "dbl (dbl (dbl ?c / w) * 100) \<le> dbl ?c / w * 100 * ?hi ^ 2" using percent_bounds(2) [of "dbl ?c" w] w by simp
  also have "\<dots> \<le> ?c * ?hi / w * 100 * ?hi ^ 2" using t(2) w by (intro mult_right_mono divide_right_mono) auto
  also have "\<dots> = ?c / w * 100 * ?hi ^ 3" by (simp add: power2_eq_square power3_eq_cube)
  finally show "dbl (dbl (dbl ?c / w) * 100) \<le> ?c / w * 100 * ?hi ^ 3" .
qed

text \<open>The processor time of a reading, as the exact number of seconds.\<close>

definition cpu_time :: "int \<times> int \<Rightarrow> rat" where
  "cpu_time v = of_int (fst v) + of_int (snd v) / 1000000"

lemma timeval_bounds:
  assumes "0 \<le> fst v" and "0 \<le> snd v"
  shows "cpu_time v * (1 - 1 / 2 ^ 53) ^ 3 \<le> timeval_to_seconds v"
    and "timeval_to_seconds v \<le> cpu_time v * (1 + 1 / 2 ^ 53) ^ 3"
proof -
  let ?lo = "1 - 1 / 2 ^ 53 :: rat" and ?hi = "1 + 1 / 2 ^ 53 :: rat"
  let ?s = "of_int (fst v) :: rat" and ?u = "of_int (snd v) :: rat"
  have pos: "0 \<le> ?s" "0 \<le> ?u" using assms by simp_all
  let ?d = "dbl (dbl ?u / 1000000)" and ?lo2 = "?lo ^ 2" and ?hi2 = "?hi ^ 2"
  have u: "dbl ?u * ?lo / 1000000 \<le> ?d" "?d \<le> dbl ?u * ?hi / 1000000"
    using dbl_bounds [of "dbl ?u / 1000000"] by simp_all
  have s: "?s * ?lo \<le> dbl ?s" "dbl ?s \<le> ?s * ?hi" "?u * ?lo \<le> dbl ?u" "dbl ?u \<le> ?u * ?hi"
    using dbl_bounds pos by blast+
  have "?u / 1000000 * ?lo2 = ?u * ?lo * ?lo / 1000000" by (simp add: power2_eq_square)
  also have "\<dots> \<le> dbl ?u * ?lo / 1000000" using s(3) by (intro divide_right_mono mult_right_mono) auto
  finally have lower: "?u / 1000000 * ?lo2 \<le> ?d" using u(1) by linarith
  have "dbl ?u * ?hi / 1000000 \<le> ?u * ?hi * ?hi / 1000000" using s(4) by (intro divide_right_mono mult_right_mono) auto
  also have "\<dots> = ?u / 1000000 * ?hi2" by (simp add: power2_eq_square)
  finally have upper: "?d \<le> ?u / 1000000 * ?hi2" using u(2) by linarith
  have "?s * ?lo2 \<le> ?s * ?lo" by (rule mult_left_mono [OF _ pos(1)]) (simp add: power2_eq_square)
  moreover have "?s * ?hi \<le> ?s * ?hi2" by (rule mult_left_mono [OF _ pos(1)]) (simp add: power2_eq_square)
  ultimately have "?s * ?lo2 \<le> dbl ?s" "dbl ?s \<le> ?s * ?hi2" using s(1,2) by linarith+
  then have sum: "cpu_time v * ?lo2 \<le> dbl ?s + ?d" "dbl ?s + ?d \<le> cpu_time v * ?hi2"
    using lower upper by (simp_all only: cpu_time_def distrib_right add_mono)
  have t: "timeval_to_seconds v = dbl (dbl ?s + ?d)"
    using pos by (cases v) (simp add: timeval_to_seconds_def dbl_signed_nonneg)
  have "cpu_time v * ?lo ^ 3 = cpu_time v * ?lo2 * ?lo" by (simp only: power2_eq_square power3_eq_cube mult.assoc)
  also have "\<dots> \<le> (dbl ?s + ?d) * ?lo" using sum(1) by (intro mult_right_mono) auto
  also have "\<dots> \<le> dbl (dbl ?s + ?d)" by (rule dbl_bounds(1)) simp
  finally show "cpu_time v * ?lo ^ 3 \<le> timeval_to_seconds v" by (simp only: t)
  have "dbl (dbl ?s + ?d) \<le> (dbl ?s + ?d) * ?hi" by (rule dbl_bounds(2)) simp
  also have "\<dots> \<le> cpu_time v * ?hi2 * ?hi" using sum(2) by (intro mult_right_mono) auto
  also have "\<dots> = cpu_time v * ?hi ^ 3" by (simp only: power2_eq_square power3_eq_cube mult.assoc)
  finally show "timeval_to_seconds v \<le> cpu_time v * ?hi ^ 3" by (simp only: t)
qed

lemma fourth_rounding: "z * ((1 + e) ^ 3 - 1) + z * ((1 + e) ^ 3 * e) = z * ((1 + e) ^ 4 - 1)" for z e :: rat
  by (simp add: power4_eq_xxxx power3_eq_cube algebra_simps)

text \<open>The difference the metrics report, from two readings: never negative, and off by at most four roundings of the two.\<close>

lemma cpu_difference:
  assumes "0 \<le> fst u" "0 \<le> snd u" "0 \<le> fst v" "0 \<le> snd v"
    and "d = (if timeval_to_seconds v \<ge> timeval_to_seconds u
      then dbl_signed (timeval_to_seconds v - timeval_to_seconds u) else 0)"
  shows "\<bar>d - max 0 (cpu_time v - cpu_time u)\<bar> \<le> (cpu_time u + cpu_time v) * ((1 + 1 / 2 ^ 53) ^ 4 - 1)"
proof -
  let ?e = "1 / 2 ^ 53 :: rat" and ?x = "cpu_time u" and ?y = "cpu_time v"
  let ?h3 = "(1 + ?e) ^ 3" and ?l3 = "(1 - ?e) ^ 3"
  define t0 t1 where "t0 = timeval_to_seconds u" and "t1 = timeval_to_seconds v"
  note b = timeval_bounds [OF assms(1,2), folded t0_def] timeval_bounds [OF assms(3,4), folded t1_def]
  have nonneg: "0 \<le> ?x" "0 \<le> ?y" using assms(1-4) by (simp_all add: cpu_time_def)
  have low: "2 - ?h3 \<le> ?l3" by (simp add: power3_eq_cube)
  have "?x * (2 - ?h3) \<le> ?x * ?l3" "?y * (2 - ?h3) \<le> ?y * ?l3" using nonneg low by (auto intro: mult_left_mono)
  then have t: "?x - ?x * (?h3 - 1) \<le> t0" "t0 \<le> ?x + ?x * (?h3 - 1)" "?y - ?y * (?h3 - 1) \<le> t1" "t1 \<le> ?y + ?y * (?h3 - 1)"
    using b by (simp_all only: right_diff_distrib mult_1_right)
  then have m: "\<bar>max 0 (t1 - t0) - max 0 (?y - ?x)\<bar> \<le> (?x + ?y) * (?h3 - 1)"
    unfolding distrib_right by linarith
  have d: "d = dbl (max 0 (t1 - t0))"
    using assms(5) by (simp add: t0_def t1_def dbl_signed_nonneg max_def fl_def)
  have "0 \<le> ?x * ?l3" using nonneg(1) by simp
  then have "0 \<le> t0" using b(1) by linarith
  then have "max 0 (t1 - t0) \<le> ?y * ?h3" using b(4) nonneg(2) by (simp add: max_def)
  then have "max 0 (t1 - t0) * ?e \<le> ?y * ?h3 * ?e" by (intro mult_right_mono) auto
  then have "\<bar>d - max 0 (t1 - t0)\<bar> \<le> ?y * ?h3 * ?e"
    using dbl_rounding [of "max 0 (t1 - t0)"] unfolding d by linarith
  moreover have "?y * ?h3 * ?e \<le> (?x + ?y) * (?h3 * ?e)" using nonneg by (simp add: distrib_right)
  moreover have "(?x + ?y) * (?h3 - 1) + (?x + ?y) * (?h3 * ?e) = (?x + ?y) * ((1 + ?e) ^ 4 - 1)"
    by (rule fourth_rounding)
  ultimately show ?thesis using m by linarith
qed

text \<open>C40: The metrics are those of the two readings. The wall time is the difference of the two clock readings
  up to two roundings of relative error \<open>1 / 2 ^ 53\<close>; the user and system times are the increase of the
  processor times of \<^verbatim>\<open>getrusage\<close>, or zero if they went back, up to four such errors of the
  times themselves; the processor load is, up to three roundings, the sum of the two divided by the wall time
  in percent, and zero when no time has passed; the current memory is the number of resident pages of the
  second reading in bytes, and the peak the greater of that and the maximum the kernel reports.\<close>

theorem process_metrics_accurate:
  assumes "sampler_new rd0 = Inr started" and "sampler_finish started rd1 = Inr m"
    and "rd_usage rd0 = Some (user0, system0, maxrss0)" and "rd_usage rd1 = Some (user1, system1, maxrss1)"
    and "\<forall>(s, us) \<in> {user0, system0, user1, system1}. 0 \<le> s \<and> 0 \<le> us"
    and "rd_now rd0 \<le> rd_now rd1"
  shows "(let wall = of_int (rd_now rd1 - rd_now rd0) / 1000000000
       in wall * (1 - 1 / 2 ^ 53) ^ 2 \<le> pm_wall_time_seconds m \<and> pm_wall_time_seconds m \<le> wall * (1 + 1 / 2 ^ 53) ^ 2) \<and>
    (\<bar>pm_user_cpu_seconds m - max 0 (cpu_time user1 - cpu_time user0)\<bar>
       \<le> (cpu_time user0 + cpu_time user1) * ((1 + 1 / 2 ^ 53) ^ 4 - 1)) \<and>
    (\<bar>pm_system_cpu_seconds m - max 0 (cpu_time system1 - cpu_time system0)\<bar>
       \<le> (cpu_time system0 + cpu_time system1) * ((1 + 1 / 2 ^ 53) ^ 4 - 1)) \<and>
    0 \<le> pm_user_cpu_seconds m \<and> 0 \<le> pm_system_cpu_seconds m \<and>
    (if rd_now rd0 < rd_now rd1
     then let load = (pm_user_cpu_seconds m + pm_system_cpu_seconds m) / pm_wall_time_seconds m * 100
       in load * (1 - 1 / 2 ^ 53) ^ 3 \<le> pm_cpu_percent m \<and> pm_cpu_percent m \<le> load * (1 + 1 / 2 ^ 53) ^ 3
     else pm_cpu_percent m = 0) \<and>
    (\<exists>statm v s1 resident s2. rd_statm rd1 = Some statm \<and> extract_u64 statm = Some (v, s1) \<and>
       extract_u64 s1 = Some (resident, s2) \<and> pm_current_rss_bytes m = resident * of_int (rd_page_size rd1)) \<and>
    pm_peak_rss_bytes m = max (of_int maxrss1 * 1024) (pm_current_rss_bytes m)"
proof -
  obtain finished where finished: "sample_process_metrics rd1 = Inr finished" "m = calculate_process_metrics started finished"
    using assms(2) by (auto simp: sampler_finish_def rbind_eq_Inr_iff)
  have times: "ps_wall_time started = rd_now rd0" "ps_wall_time finished = rd_now rd1"
    "ps_user_cpu_seconds started = timeval_to_seconds user0" "ps_user_cpu_seconds finished = timeval_to_seconds user1"
    "ps_system_cpu_seconds started = timeval_to_seconds system0" "ps_system_cpu_seconds finished = timeval_to_seconds system1"
    using assms(1,3,4) finished(1) by (auto simp: sampler_new_def sample_process_metrics_def rbind_eq_Inr_iff Let_def)
  have memory: "(\<exists>statm v s1 resident s2. rd_statm rd1 = Some statm \<and> extract_u64 statm = Some (v, s1) \<and>
       extract_u64 s1 = Some (resident, s2) \<and> pm_current_rss_bytes m = resident * of_int (rd_page_size rd1)) \<and>
    pm_peak_rss_bytes m = max (of_int maxrss1 * 1024) (pm_current_rss_bytes m)"
    using finished assms(4)
    by (auto simp: sample_process_metrics_def rbind_eq_Inr_iff calculate_process_metrics_def read_current_rss_bytes_def
        max_def Let_def split: option.splits bind_splits if_splits)
  have cpu: "0 \<le> pm_user_cpu_seconds m" "0 \<le> pm_system_cpu_seconds m"
    unfolding finished(2) calculate_process_metrics_def Let_def by (simp_all add: dbl_signed_nonneg)
  have user: "pm_user_cpu_seconds m = (if timeval_to_seconds user1 \<ge> timeval_to_seconds user0
      then dbl_signed (timeval_to_seconds user1 - timeval_to_seconds user0) else 0)"
    and system: "pm_system_cpu_seconds m = (if timeval_to_seconds system1 \<ge> timeval_to_seconds system0
      then dbl_signed (timeval_to_seconds system1 - timeval_to_seconds system0) else 0)"
    by (simp_all add: finished(2) calculate_process_metrics_def times Let_def)
  have exact: "\<bar>pm_user_cpu_seconds m - max 0 (cpu_time user1 - cpu_time user0)\<bar>
       \<le> (cpu_time user0 + cpu_time user1) * ((1 + 1 / 2 ^ 53) ^ 4 - 1)"
    "\<bar>pm_system_cpu_seconds m - max 0 (cpu_time system1 - cpu_time system0)\<bar>
       \<le> (cpu_time system0 + cpu_time system1) * ((1 + 1 / 2 ^ 53) ^ 4 - 1)"
    using cpu_difference [of user0 user1, OF _ _ _ _ user] cpu_difference [of system0 system1, OF _ _ _ _ system] assms(5) by auto
  let ?wall = "rat_of_int (rd_now rd1 - rd_now rd0) / 1000000000"
  have w: "pm_wall_time_seconds m = dbl (dbl (of_int (rd_now rd1 - rd_now rd0)) / 1000000000)"
    using assms(6) by (simp add: finished(2) calculate_process_metrics_def times Let_def dbl_signed_nonneg)
  have wall: "?wall * (1 - 1 / 2 ^ 53) ^ 2 \<le> pm_wall_time_seconds m \<and> pm_wall_time_seconds m \<le> ?wall * (1 + 1 / 2 ^ 53) ^ 2"
    unfolding w using assms(6) by (intro conjI quotient_bounds) simp_all
  have "0 < pm_wall_time_seconds m" if "rd_now rd0 < rd_now rd1"
    using wall that by (intro less_le_trans [OF _ conjunct1 [OF wall]]) simp
  moreover have "pm_wall_time_seconds m = 0" if "\<not> rd_now rd0 < rd_now rd1" using w that assms(6) by (simp add: fl_def)
  ultimately have positive: "pm_wall_time_seconds m > 0 \<longleftrightarrow> rd_now rd0 < rd_now rd1" by fastforce
  have "if pm_wall_time_seconds m > 0
     then let load = (pm_user_cpu_seconds m + pm_system_cpu_seconds m) / pm_wall_time_seconds m * 100
       in load * (1 - 1 / 2 ^ 53) ^ 3 \<le> pm_cpu_percent m \<and> pm_cpu_percent m \<le> load * (1 + 1 / 2 ^ 53) ^ 3
     else pm_cpu_percent m = 0"
    using load_bounds [OF cpu] unfolding finished(2) calculate_process_metrics_def Let_def by (simp add: dbl_signed_nonneg)
  from this [unfolded positive] show ?thesis using wall exact cpu memory unfolding Let_def by blast
qed

definition readings0 :: "int \<Rightarrow> int \<Rightarrow> readings" where
  "readings0 seconds now = \<lparr>rd_statm = Some ''90 70 3'', rd_page_size = 4096, rd_usage = Some ((seconds, 0), (0, 0), 10), rd_now = now\<rparr>"

lemma readings0_sample: "\<exists>s. sample_process_metrics (readings0 a b) = Inr s"
  by (simp add: sample_process_metrics_def read_current_rss_bytes_def readings0_def extract_u64_def scan_number_def
      is_space_def is_digit_def of_string_def Let_def)

lemma readings0_pages: "extract_u64 ''90 70 3'' = Some (90, '' 70 3'')" "extract_u64 '' 70 3'' = Some (70, '' 3'')"
  by (simp_all add: extract_u64_def scan_number_def is_space_def is_digit_def of_string_def Let_def)

theorem process_metrics_accurate_witness:
  "\<exists>started m. sampler_new (readings0 0 0) = Inr started \<and> sampler_finish started (readings0 1 2000000000) = Inr m \<and>
     \<bar>pm_user_cpu_seconds m - 1\<bar> \<le> 1 / 2 ^ 50 \<and> pm_current_rss_bytes m = 70 * 4096 \<and> pm_peak_rss_bytes m = 70 * 4096"
proof -
  obtain started finished where "sample_process_metrics (readings0 0 0) = Inr started"
    "sample_process_metrics (readings0 1 2000000000) = Inr finished" using readings0_sample by blast
  then have run: "sampler_new (readings0 0 0) = Inr started"
    "sampler_finish started (readings0 1 2000000000) = Inr (calculate_process_metrics started finished)"
    by (simp_all add: sampler_new_def sampler_finish_def)
  have usage: "rd_usage (readings0 0 0) = Some ((0, 0), (0, 0), 10)" "rd_usage (readings0 1 2000000000) = Some ((1, 0), (0, 0), 10)"
    and statm: "rd_statm (readings0 1 2000000000) = Some ''90 70 3''" "rd_page_size (readings0 1 2000000000) = 4096"
    by (simp_all add: readings0_def)
  let ?m = "calculate_process_metrics started finished"
  have user: "\<bar>pm_user_cpu_seconds ?m - max 0 (cpu_time (1, 0) - cpu_time (0, 0))\<bar>
      \<le> (cpu_time (0, 0) + cpu_time (1, 0)) * ((1 + 1 / 2 ^ 53) ^ 4 - 1)"
    and memory: "pm_current_rss_bytes ?m = 70 * 4096" "pm_peak_rss_bytes ?m = max (of_int 10 * 1024) (pm_current_rss_bytes ?m)"
    using process_metrics_accurate [OF run usage] statm readings0_pages by (simp_all add: readings0_def)
  have "\<bar>pm_user_cpu_seconds ?m - 1\<bar> \<le> (1 + 1 / 2 ^ 53) ^ 4 - 1" using user by (simp add: cpu_time_def max_def)
  moreover have "(1 + 1 / 2 ^ 53) ^ 4 - 1 \<le> (1 / 2 ^ 50 :: rat)" by (simp add: power_divide)
  ultimately show ?thesis using run memory by (intro exI [of _ started] exI [of _ ?m]) (simp add: max_def)
qed

text \<open>Which sample fails, and how: the first reading that is missing decides.\<close>

lemma sample_fails_iff:
  "is_ok (sample_process_metrics rd) \<longleftrightarrow>
     (\<exists>s v s1 p s2. rd_statm rd = Some s \<and> extract_u64 s = Some (v, s1) \<and> extract_u64 s1 = Some (p, s2)) \<and>
     rd_page_size rd > 0 \<and> rd_usage rd \<noteq> None"
  by (auto simp: sample_process_metrics_def read_current_rss_bytes_def Let_def is_ok_iff rbind_eq_Inr_iff
      split: option.splits bind_splits)

end
