(* ===== verification/Rml_Flow.thy ===== *)
theory Rml_Flow
  imports Rml_Subscription
begin

text \<open>
  A subscription in the setting the demonstrations and the benchmark use it in: the executor runs, nobody
  cancels, the callback does not throw, and one thread publishes, one message after the other. The steps
  are those of the subscription; the lemmas say what such a client gets.
\<close>

section \<open>Steps\<close>

text \<open>What the callback's owner sees of a step: nothing, or that the callback has returned from a message.\<close>

datatype 'm flow_event = Silent | Handled 'm

fun drain_event :: "'m drain_pc \<Rightarrow> 'm flow_event" where
  "drain_event (DrainCall t m) = Handled m"
| "drain_event pc = Silent"

fun handled_by :: "'m flow_event \<Rightarrow> 'm list" where
  "handled_by Silent = []"
| "handled_by (Handled m) = [m]"

inductive flow_step :: "'m sub_system \<Rightarrow> 'm flow_event \<Rightarrow> 'm sub_system \<Rightarrow> bool" where
  Enqueue: "i < length (ss_enqueues s) \<Longrightarrow> enqueue_step (Inr True) i s = Some s' \<Longrightarrow> flow_step s Silent s'"
| Drain: "i < length (ss_drains s) \<Longrightarrow> drain_step tid False i s = Some s' \<Longrightarrow>
    flow_step s (drain_event (ss_drains s ! i)) s'"

definition flow_publish :: "'m \<Rightarrow> 'm sub_system \<Rightarrow> 'm sub_system" where
  "flow_publish m s = s\<lparr>ss_enqueues := ss_enqueues s @ [EnqLock m False]\<rparr>"

fun enqueue_returned :: "'m enqueue_pc \<Rightarrow> bool" where
  "enqueue_returned (EnqDone r) = True"
| "enqueue_returned pc = False"

definition publisher_idle :: "'m sub_system \<Rightarrow> bool" where
  "publisher_idle s = list_all enqueue_returned (ss_enqueues s)"

section \<open>Invariant and potential\<close>

fun unlocked :: "'m enqueue_pc \<Rightarrow> 'm list" where
  "unlocked (EnqLock m r) = [m]"
| "unlocked pc = []"

fun in_hand :: "'m drain_pc \<Rightarrow> 'm list" where
  "in_hand (DrainCall t m) = [m]"
| "in_hand pc = []"

fun plain_enqueue :: "'m enqueue_pc \<Rightarrow> bool" where
  "plain_enqueue (EnqLock m r) = (\<not> r)"
| "plain_enqueue (EnqRollback r) = False"
| "plain_enqueue pc = True"

text \<open>\<open>published\<close> and \<open>handled\<close> are the messages given to publish and returned from by the callback, in order.\<close>

definition flow_ok :: "'m list \<Rightarrow> 'm list \<Rightarrow> 'm sub_system \<Rightarrow> bool" where
  "flow_ok published handled s \<longleftrightarrow>
     sub_inv s \<and> cb_active (ss_block s) \<and> overflow_policy (cb_options (ss_block s)) = DropOldest \<and>
     ss_refused s = [] \<and> ss_cleared s = [] \<and> ss_waits s = [] \<and> list_all plain_enqueue (ss_enqueues s) \<and>
     num (\<lambda>pc. \<not> enqueue_returned pc) (ss_enqueues s) \<le> 1 \<and>
     published = ss_accepted s @ concat (map unlocked (ss_enqueues s)) \<and>
     ss_started s = handled @ concat (map in_hand (ss_drains s)) \<and>
     (length (ss_accepted s) \<le> unat (queue_depth (cb_options (ss_block s))) \<longrightarrow> ss_dropped s = [])"

fun enqueue_weight :: "'m enqueue_pc \<Rightarrow> nat" where
  "enqueue_weight (EnqLock m r) = 7"
| "enqueue_weight (EnqPost outcome) = 3"
| "enqueue_weight pc = 0"

fun drain_weight :: "'m drain_pc \<Rightarrow> nat" where
  "drain_weight DrainQueued = 2"
| "drain_weight (DrainLock t) = 1"
| "drain_weight (DrainCall t m) = 3"
| "drain_weight (DrainUnlock t f) = 2"
| "drain_weight DrainDone = 0"

definition flow_weight :: "'m sub_system \<Rightarrow> nat" where
  "flow_weight s = sum_list (map enqueue_weight (ss_enqueues s)) + sum_list (map drain_weight (ss_drains s)) +
     3 * length (cb_pending (ss_block s))"

section \<open>Single positions\<close>

lemma others_zero:
  assumes "num P xs \<le> 1" and "i < length xs" and "P (xs ! i)" and "\<And>x. \<not> P x \<Longrightarrow> f x = []"
  shows "concat (map f (xs[i := x])) = f x"
proof -
  have "f (xs ! j) = []" if "j < length xs" "j \<noteq> i" for j
    using num_le_1_unique [OF assms(1) that(1) assms(2) _ assms(3)] that(2) assms(4) by blast
  then have "\<forall>y \<in> set (take i xs). f y = []" "\<forall>y \<in> set (drop (Suc i) xs). f y = []"
    by (auto simp: in_set_conv_nth)
  then have "concat (map f (take i xs)) = []" "concat (map f (drop (Suc i) xs)) = []" by simp_all
  then show ?thesis using assms(2) by (simp only: upd_conv_take_nth_drop map_append concat_append list.map concat.simps append_Nil append_Nil2)
qed

lemma others_zero_same:
  assumes "num P xs \<le> 1" and "i < length xs" and "P (xs ! i)" and "\<And>x. \<not> P x \<Longrightarrow> f x = []"
  shows "concat (map f xs) = f (xs ! i)"
  using others_zero [OF assms, where x = "xs ! i"] by simp

lemma not_returned_unlocked: "\<not> \<not> enqueue_returned pc \<Longrightarrow> unlocked pc = []"
  by (cases pc) auto

lemma not_live_in_hand: "\<not> live_drain pc \<Longrightarrow> in_hand pc = []"
  by (cases pc) auto

lemma only_in_hand:
  assumes "num live_drain ds \<le> 1" and "i < length ds" and "live_drain (ds ! i)"
  shows "concat (map in_hand (ds[i := pc])) = in_hand pc" and "concat (map in_hand ds) = in_hand (ds ! i)"
  using others_zero [OF assms, of in_hand] others_zero_same [OF assms, of in_hand] not_live_in_hand by blast+

lemma only_unlocked:
  assumes "num (\<lambda>pc. \<not> enqueue_returned pc) es \<le> 1" and "i < length es" and "\<not> enqueue_returned (es ! i)"
  shows "concat (map unlocked (es[i := pc])) = unlocked pc" and "concat (map unlocked es) = unlocked (es ! i)"
  using others_zero [OF assms, of unlocked] others_zero_same [OF assms, of unlocked] not_returned_unlocked by blast+

section \<open>What the steps keep\<close>

lemma flow_step_sub: "flow_step s ev s' \<Longrightarrow> sub_step s s'"
  by (auto elim!: flow_step.cases intro: sub_step.Enqueue sub_step.Drain)

lemma sub_inv_step: "sub_step s s' \<Longrightarrow> sub_inv s \<Longrightarrow> sub_inv s'"
  by (simp add: sub_inv_def sub_step_block_ok sub_step_single_drain sub_step_messages sub_step_counters
      sub_step_waits sub_step_thread)

lemma flow_ok_start:
  assumes "control_block_new options has_callback = Inr b" and "overflow_policy options = DropOldest"
  shows "flow_ok [] [] (sub_start b)"
  using sub_reach_inv [OF sub_reach.Start [OF assms(1)]] assms
  by (auto simp: flow_ok_def sub_start_def control_block_new_def split: if_splits)

lemma flow_ok_publish:
  assumes "flow_ok published handled s" and "publisher_idle s"
  shows "flow_ok (published @ [m]) handled (flow_publish m s)" and "flow_weight (flow_publish m s) = flow_weight s + 7"
proof -
  have none: "num (\<lambda>pc. \<not> enqueue_returned pc) (ss_enqueues s) = 0"
    using assms(2) by (simp add: num_eq_0 publisher_idle_def list_all_iff list_ex_iff)
  have "sub_inv (flow_publish m s)"
    using sub_inv_step [OF sub_step.EnqueueCall [of s m False]] assms(1) by (simp add: flow_ok_def flow_publish_def)
  then show "flow_ok (published @ [m]) handled (flow_publish m s)"
    using assms(1) none by (auto simp: flow_ok_def flow_publish_def)
  show "flow_weight (flow_publish m s) = flow_weight s + 7" by (simp add: flow_weight_def flow_publish_def)
qed

text \<open>The facts of a flow that a step needs, read off once.\<close>

lemma flow_okD:
  assumes "flow_ok published handled s"
  shows "block_ok (ss_block s)" "single_drain s" "num live_drain (ss_drains s) \<le> 1" "cb_active (ss_block s)"
    "overflow_policy (cb_options (ss_block s)) = DropOldest" "list_all plain_enqueue (ss_enqueues s)"
    "num (\<lambda>pc. \<not> enqueue_returned pc) (ss_enqueues s) \<le> 1"
    "length (ss_accepted s) = length (ss_started s) + length (cb_pending (ss_block s)) + length (ss_dropped s)"
proof -
  have inv: "sub_inv s" and none: "ss_refused s = []" "ss_cleared s = []" using assms by (simp_all add: flow_ok_def)
  then show "num live_drain (ss_drains s) \<le> 1" using single_drain_le [of s] by (simp add: sub_inv_def)
  have "mset (ss_accepted s) = mset (ss_started s @ cb_pending (ss_block s) @ ss_dropped s)"
    using inv none by (simp add: sub_inv_def messages_ok_def)
  then show "length (ss_accepted s) = length (ss_started s) + length (cb_pending (ss_block s)) + length (ss_dropped s)"
    by (metis length_append mset_eq_length add.assoc)
qed (use assms in \<open>simp_all add: flow_ok_def sub_inv_def\<close>)

lemma plain_enqueue_locked:
  assumes "enqueue_locked m False b = (outcome, must, b')" and "cb_active b"
    and "overflow_policy (cb_options b) = DropOldest" and "queue_depth (cb_options b) \<noteq> 0"
  shows "do_enqueued outcome" "cb_active b'" "cb_options b' = cb_options b"
    "do_dropped_oldest outcome \<Longrightarrow> unat (queue_depth (cb_options b)) \<le> length (cb_pending b)"
    "length (cb_pending b') \<le> length (cb_pending b) + 1"
  using assms by (auto simp: block_ops split: if_splits)

lemma flow_ok_enqueue:
  assumes ok: "flow_ok published handled s" and i: "i < length (ss_enqueues s)" and step: "enqueue_step (Inr True) i s = Some s'"
  shows "flow_ok published handled s' \<and> flow_weight s' < flow_weight s"
proof -
  note facts = flow_okD [OF ok] and parts = ok [unfolded flow_ok_def]
  have inv: "sub_inv s'" using sub_inv_step [OF sub_step.Enqueue [OF i step]] parts by simp
  have plain: "plain_enqueue (ss_enqueues s ! i)" using facts(6) i by (simp add: list_all_length)
  have returned: "num (\<lambda>pc. \<not> enqueue_returned pc) ((ss_enqueues s)[i := pc]) \<le> 1"
    if "\<not> enqueue_returned (ss_enqueues s ! i)" for pc
    using num_update [OF i, of "\<lambda>pc. \<not> enqueue_returned pc" pc] facts(7) that
    by (cases "enqueue_returned pc") simp_all
  note waiting = only_unlocked [OF facts(7) i]
  have weight: "sum_list (map enqueue_weight ((ss_enqueues s)[i := pc])) + enqueue_weight (ss_enqueues s ! i) =
      sum_list (map enqueue_weight (ss_enqueues s)) + enqueue_weight pc" for pc
    using sum_list_update_nat [OF i, of enqueue_weight pc] by simp
  from step show ?thesis
  proof (cases rule: enqueue_step_cases)
    case (Lock m r outcome must b)
    then have r: "r = False" using plain by simp
    have locked: "enqueue_locked m False (ss_block s) = (outcome, must, b)" using Lock(2) r by simp
    note en = plain_enqueue_locked [OF locked facts(4,5)]
    have depth: "queue_depth (cb_options (ss_block s)) \<noteq> 0" using facts(1) by (simp add: block_ok_def)
    have lengths: "length (ss_dropped s) + length (cb_pending (ss_block s)) \<le> length (ss_accepted s)" using facts(8) by simp
    let ?pc = "if must then EnqPost outcome else EnqDone (Inr outcome)"
    have dropped: "length (ss_accepted s') \<le> unat (queue_depth (cb_options b)) \<Longrightarrow> ss_dropped s' = []"
      using Lock(3) en(1,3,4) [OF depth] parts lengths by (auto split: if_splits)
    have "flow_ok published handled s'"
      using inv Lock(1,3) en [OF depth] parts waiting(1) [where pc = ?pc] waiting(2) returned [of ?pc] dropped facts
      by (simp add: flow_ok_def list_all_update)
    moreover have "flow_weight s' < flow_weight s"
      using Lock(1,3) en(5) [OF depth] weight [of ?pc] by (simp add: flow_weight_def split: if_splits)
    ultimately show ?thesis by simp
  next
    case (Posted outcome)
    let ?pc = "EnqDone (Inr outcome)"
    have "flow_ok published handled s'"
      using inv Posted parts waiting(1) [where pc = ?pc] waiting(2) returned [of ?pc] by (simp add: flow_ok_def list_all_update)
    then show ?thesis using Posted weight [of ?pc] by (simp add: flow_weight_def)
  next
    case (Refused outcome r)
    have "ss_enqueues s' = (ss_enqueues s)[i := EnqDone (Inr outcome)]" using step Refused(1) by (auto simp: enqueue_step_def)
    then have "(ss_enqueues s)[i := EnqDone (Inr outcome)] ! i = (ss_enqueues s)[i := EnqRollback r] ! i" using Refused(2) by simp
    then show ?thesis using i by simp
  next
    case (Rollback r)
    then show ?thesis using plain by simp
  qed
qed

lemma flow_ok_drain:
  assumes ok: "flow_ok published handled s" and i: "i < length (ss_drains s)" and step: "drain_step tid False i s = Some s'"
  shows "flow_ok published (handled @ handled_by (drain_event (ss_drains s ! i))) s' \<and> flow_weight s' < flow_weight s"
proof -
  note facts = flow_okD [OF ok] and parts = ok [unfolded flow_ok_def]
  have inv: "sub_inv s'" using sub_inv_step [OF sub_step.Drain [OF i step]] parts by simp
  note hand = only_in_hand [OF facts(3) i]
  have weight: "sum_list (map drain_weight ((ss_drains s)[i := pc])) + drain_weight (ss_drains s ! i) =
      sum_list (map drain_weight (ss_drains s)) + drain_weight pc" for pc
    using sum_list_update_nat [OF i, of drain_weight pc] by simp
  from step show ?thesis
  proof (cases rule: drain_step_cases)
    case Pick
    then show ?thesis using inv parts hand(1) [where pc = "DrainLock tid"] hand(2) weight [of "DrainLock tid"]
      by (simp add: flow_ok_def flow_weight_def)
  next
    case (Begin t m b)
    have b: "cb_active b" "cb_options b = cb_options (ss_block s)" "length (cb_pending (ss_block s)) = length (cb_pending b) + 1"
      using Begin(2) facts(4) by (auto simp: drain_begin_def split: list.splits if_splits)
    then show ?thesis using Begin inv parts hand(1) [where pc = "DrainCall t m"] hand(2) weight [of "DrainCall t m"]
      by (simp add: flow_ok_def flow_weight_def)
  next
    case (Return t b)
    have b: "cb_active b" "cb_options b = cb_options (ss_block s)" "cb_pending (ss_block s) = []" "cb_pending b = []"
      using Return(2) facts(4) by (auto simp: drain_begin_def split: list.splits if_splits)
    then show ?thesis using Return inv parts hand(1) [where pc = "DrainDone"] hand(2) weight [of "DrainDone"]
      by (simp add: flow_ok_def flow_weight_def)
  next
    case (Call t m)
    then show ?thesis using inv parts hand(1) [where pc = "DrainUnlock t False"] hand(2) weight [of "DrainUnlock t False"]
      by (simp add: flow_ok_def flow_weight_def)
  next
    case (End t f)
    then show ?thesis using inv parts hand(1) [where pc = "DrainLock t"] hand(2) weight [of "DrainLock t"]
      by (simp add: flow_ok_def flow_weight_def drain_end_def)
  qed
qed

lemma flow_ok_step:
  "flow_ok published handled s \<Longrightarrow> flow_step s ev s' \<Longrightarrow>
     flow_ok published (handled @ handled_by ev) s' \<and> flow_weight s' < flow_weight s"
  by (auto elim!: flow_step.cases dest: flow_ok_enqueue flow_ok_drain)

section \<open>What a client may rely on\<close>

lemma publisher_idle_unlocked: "publisher_idle s \<Longrightarrow> concat (map unlocked (ss_enqueues s)) = []"
  by (auto simp: publisher_idle_def list_all_iff intro: not_returned_unlocked)

text \<open>Every message published is handled, being handled, waiting, being accepted, or was dropped.\<close>

lemma flow_account:
  assumes "flow_ok published handled s"
  shows "length published = length handled + num (\<lambda>pc. in_hand pc \<noteq> []) (ss_drains s) +
      length (cb_pending (ss_block s)) + length (ss_dropped s) + num (\<lambda>pc. unlocked pc \<noteq> []) (ss_enqueues s)"
proof -
  have "length (concat (map in_hand ds)) = num (\<lambda>pc. in_hand pc \<noteq> []) ds" for ds :: "'a drain_pc list"
  proof (induction ds)
    case (Cons pc ds)
    then show ?case by (cases pc) auto
  qed simp
  moreover have "length (concat (map unlocked es)) = num (\<lambda>pc. unlocked pc \<noteq> []) es" for es :: "'a enqueue_pc list"
  proof (induction es)
    case (Cons pc es)
    then show ?case by (cases pc) auto
  qed simp
  ultimately show ?thesis using flow_okD(8) [OF assms] assms by (simp add: flow_ok_def)
qed

lemma flow_started_subseq:
  assumes "flow_ok published handled s"
  shows "subseq (handled @ concat (map in_hand (ss_drains s))) published"
proof -
  have "subseq ((handled @ concat (map in_hand (ss_drains s))) @ cb_pending (ss_block s)) (ss_accepted s)"
    using assms by (auto simp: flow_ok_def sub_inv_def messages_ok_def)
  then have "subseq (handled @ concat (map in_hand (ss_drains s))) (ss_accepted s)" using subseq_left by blast
  then show ?thesis using assms by (auto simp: flow_ok_def intro: subseq_rev_drop_many)
qed

lemma flow_subseq: "flow_ok published handled s \<Longrightarrow> subseq handled published"
  using flow_started_subseq subseq_left by blast

text \<open>As long as no more messages come than the mailbox is deep, nothing is dropped.\<close>

lemma flow_roomy:
  assumes "flow_ok published handled s" and "length published \<le> unat (queue_depth (cb_options (ss_block s)))"
  shows "ss_dropped s = []"
  using assms by (auto simp: flow_ok_def)

lemma flow_step_options: "flow_step s ev s' \<Longrightarrow> cb_options (ss_block s') = cb_options (ss_block s)"
proof (erule flow_step.cases)
  fix i s0 s1
  assume "s = s0" "s' = s1" "enqueue_step (Inr True) i s0 = Some s1"
  then show ?thesis
    by (auto elim!: enqueue_step_cases simp: enqueue_locked_def enqueue_push_def enqueue_rollback_def Let_def split: if_splits)
next
  fix i s0 tid s1
  assume "s = s0" "s' = s1" "drain_step tid False i s0 = Some s1"
  then show ?thesis
    by (auto elim!: drain_step_cases simp: drain_begin_def drain_end_def split: if_splits list.splits)
qed

text \<open>Until everything is done there is a step, and when there is none, everything that was not dropped has been handled.\<close>

lemma flow_enqueue_possible: "i < length (ss_enqueues s) \<Longrightarrow> \<not> enqueue_returned (ss_enqueues s ! i) \<Longrightarrow>
    \<exists>s'. flow_step s Silent s'"
proof -
  assume i: "i < length (ss_enqueues s)" "\<not> enqueue_returned (ss_enqueues s ! i)"
  then have "\<exists>s'. enqueue_step (Inr True) i s = Some s'"
    by (cases "ss_enqueues s ! i") (auto simp: enqueue_step_def split: prod.splits)
  then show ?thesis using flow_step.Enqueue [OF i(1)] by blast
qed

lemma flow_drain_possible:
  assumes "i < length (ss_drains s)" and "live_drain (ss_drains s ! i)"
  shows "\<exists>s'. flow_step s (drain_event (ss_drains s ! i)) s'"
proof -
  have "\<exists>s'. drain_step 0 False i s = Some s'"
    using assms(2) by (cases "ss_drains s ! i") (auto simp: drain_step_def split: prod.splits option.splits)
  then show ?thesis using flow_step.Drain [OF assms(1)] by blast
qed

definition flow_rest :: "'m sub_system \<Rightarrow> bool" where
  "flow_rest s \<longleftrightarrow> publisher_idle s \<and> list_all (\<lambda>pc. \<not> live_drain pc) (ss_drains s)"

lemma flow_not_rest:
  assumes "\<not> flow_rest s"
  obtains s' where "flow_step s Silent s'" | i where "i < length (ss_drains s)" "live_drain (ss_drains s ! i)"
  using assms flow_enqueue_possible by (fastforce simp: flow_rest_def publisher_idle_def list_all_length)

lemma flow_rest_account:
  assumes "flow_ok published handled s" and "flow_rest s"
  shows "length published = length handled + length (ss_dropped s)" and "cb_pending (ss_block s) = []"
    and "ss_dropped s = [] \<Longrightarrow> handled = published"
proof -
  have none: "num P (ss_drains s) = 0" if "\<And>pc. P pc \<Longrightarrow> live_drain pc" for P
    using assms(2) that by (auto simp: num_eq_0 flow_rest_def list_all_iff list_ex_iff)
  have idle: "num P (ss_enqueues s) = 0" if "\<And>pc. P pc \<Longrightarrow> \<not> enqueue_returned pc" for P
    using assms(2) that by (auto simp: num_eq_0 flow_rest_def publisher_idle_def list_all_iff list_ex_iff)
  have "num scheduling (ss_enqueues s) = 0"
  proof (rule idle)
    show "scheduling pc \<Longrightarrow> \<not> enqueue_returned pc" for pc :: "'a enqueue_pc" by (cases pc) auto
  qed
  then have "\<not> cb_scheduled (ss_block s)"
    using flow_okD(2) [OF assms(1)] none [of live_drain] by (cases "cb_scheduled (ss_block s)") (simp_all add: single_drain_def)
  then show pending: "cb_pending (ss_block s) = []" using flow_okD(1) [OF assms(1)] by (auto simp: block_ok_def)
  have hands: "num (\<lambda>pc. in_hand pc \<noteq> []) (ss_drains s) = 0" "num (\<lambda>pc. unlocked pc \<noteq> []) (ss_enqueues s) = 0"
    using none [of "\<lambda>pc. in_hand pc \<noteq> []"] idle [of "\<lambda>pc. unlocked pc \<noteq> []"] not_live_in_hand not_returned_unlocked by blast+
  then show account: "length published = length handled + length (ss_dropped s)"
    using flow_account [OF assms(1)] pending by simp
  assume "ss_dropped s = []"
  then have "length handled = length published" using account by simp
  then show "handled = published" using flow_subseq [OF assms(1)] by (simp add: subseq_same_length)
qed

lemma flow_step_idle:
  assumes "flow_step s ev s'" and "publisher_idle s"
  shows "publisher_idle s'"
  using assms(1)
proof cases
  case (Enqueue i)
  then have "enqueue_returned (ss_enqueues s ! i)" using assms(2) by (simp add: publisher_idle_def list_all_length)
  then show ?thesis using Enqueue(3) by (cases "ss_enqueues s ! i") (auto simp: enqueue_step_def)
next
  case (Drain i tid)
  from Drain(3) have "ss_enqueues s' = ss_enqueues s" by (cases rule: drain_step_cases) simp_all
  then show ?thesis using assms(2) by (simp add: publisher_idle_def)
qed

lemma flow_handled_le: "flow_ok published handled s \<Longrightarrow> length handled \<le> length published"
  using flow_subseq list_emb_length by blast

lemma flow_started_le:
  assumes "flow_ok published handled s"
  shows "length (handled @ concat (map in_hand (ss_drains s))) \<le> length published"
  using flow_okD(8) [OF assms] assms by (simp add: flow_ok_def)

end
