(* ===== verification/Rml_Benchmark.thy ===== *)
theory Rml_Benchmark
  imports Rml_Queue Rml_Flow Rml_Statistics Rml_Process_Metrics Rml_Network_Message
begin

text \<open>
  The benchmark program (\<^verbatim>\<open>benchmark/middleware_benchmark.cpp\<close>): its command line, the benchmark of the
  queue with one producer and one consumer, as a client of the queue's monitor, and the benchmark of the
  in-process publish/subscribe path, as a client of a subscription.
\<close>

section \<open>Command line\<close>

datatype benchmark_path = PathAll | PathQueue | PathPubsub

definition parse_benchmark_path :: "string \<Rightarrow> benchmark_path result" where
  "parse_benchmark_path value_text =
     (if value_text = ''all'' then Inr PathAll
      else if value_text = ''queue'' then Inr PathQueue
      else if value_text = ''pubsub'' then Inr PathPubsub
      else Inl (InvalidArgument ''benchmark_path must be one of: all, queue, pubsub''))"

record benchmark_config =
  bc_message_count :: u64
  bc_worker_count :: u64
  bc_path :: benchmark_path

definition benchmark_config_of :: "string list \<Rightarrow> benchmark_config result" where
  "benchmark_config_of args =
     (if length args > 3 then Inl (InvalidArgument ''too many command-line arguments'')
      else rbind (positive_arg args 0 ''message_count'' 100000) (\<lambda>message_count.
        rbind (positive_arg args 1 ''worker_count'' 4) (\<lambda>worker_count.
        rbind (if length args > 2 then parse_benchmark_path (args ! 2) else Inr PathAll) (\<lambda>path.
          Inr \<lparr>bc_message_count = message_count, bc_worker_count = worker_count, bc_path = path\<rparr>))))"

text \<open>\<^verbatim>\<open>main\<close>: the selected runs in order; the first one that throws ends the program with status 1. Their
  outcomes are given.\<close>

definition benchmark_main ::
  "(u64 \<Rightarrow> unit result) \<Rightarrow> (u64 \<Rightarrow> u64 \<Rightarrow> unit result) \<Rightarrow> string list \<Rightarrow> int" where
  "benchmark_main run_queue run_pubsub args =
     (case rbind (benchmark_config_of args) (\<lambda>c.
        rbind (if bc_path c = PathAll \<or> bc_path c = PathQueue then run_queue (bc_message_count c) else Inr ()) (\<lambda>_.
        if bc_path c = PathAll \<or> bc_path c = PathPubsub then run_pubsub (bc_message_count c) (bc_worker_count c)
        else Inr ())) of
        Inr () \<Rightarrow> 0
      | Inl e \<Rightarrow> 1)"

section \<open>The benchmark of the queue\<close>

text \<open>
  Thread 0 of the monitor is the program's main thread, which pushes the numbers below \<open>message_count\<close>,
  closes the queue and joins the consumer; thread 1 is the consumer, which pops until it gets nothing.
  The queue has no capacity limit. \<open>qb_value\<close> is the loop variable, already incremented while its value is
  being pushed.
\<close>

record qbench =
  qb_monitor :: "u64 monitor"
  qb_value :: u64
  qb_closing :: bool
  qb_received :: u64
  qb_exited :: bool
  qb_joined :: bool

definition qbench_new :: qbench where
  "qbench_new = \<lparr>qb_monitor = monitor_new 0 2, qb_value = 0, qb_closing = False, qb_received = 0,
     qb_exited = False, qb_joined = False\<rparr>"

definition at_thread :: "nat \<Rightarrow> u64 qpc \<Rightarrow> qbench \<Rightarrow> bool" where
  "at_thread i pc s \<longleftrightarrow> mon_threads (qb_monitor s) ! i = pc"

definition call_op :: "nat \<Rightarrow> u64 qpc \<Rightarrow> qbench \<Rightarrow> qbench" where
  "call_op i pc s = s\<lparr>qb_monitor := (qb_monitor s)\<lparr>mon_threads := (mon_threads (qb_monitor s))[i := pc]\<rparr>\<rparr>"

text \<open>What the consumer's loop does when its call moves from \<open>pc\<close> to \<open>pc'\<close>: a call that returns after a
  notification has an element, one that returns from the mutex has none.\<close>

definition consumer_after :: "u64 qpc \<Rightarrow> u64 qpc \<Rightarrow> qbench \<Rightarrow> qbench" where
  "consumer_after pc pc' s =
     (if pc' \<noteq> Idle \<or> pc = Idle then s
      else if pc = SignalNotFull then s\<lparr>qb_received := qb_received s + 1\<rparr>
      else s\<lparr>qb_exited := True\<rparr>)"

text \<open>Steps inside the calls: the queue's, except that no new call starts. A step is spurious when the
  consumer wakes up although the main thread did nothing.\<close>

definition no_new_call :: "u64 monitor \<Rightarrow> u64 monitor \<Rightarrow> bool" where
  "no_new_call m m' \<longleftrightarrow> list_all2 (\<lambda>pc pc'. pc = Idle \<longrightarrow> pc' = Idle) (mon_threads m) (mon_threads m')"

definition spurious_step :: "u64 monitor \<Rightarrow> u64 monitor \<Rightarrow> bool" where
  "spurious_step m m' \<longleftrightarrow> sleeps_not_empty (mon_threads m ! 1) \<and> mon_threads m' ! 0 = mon_threads m ! 0"

inductive qb_step :: "u64 \<Rightarrow> bool \<Rightarrow> qbench \<Rightarrow> qbench \<Rightarrow> bool" for message_count where
  Push: "\<not> qb_closing s \<Longrightarrow> at_thread 0 Idle s \<Longrightarrow> qb_value s < message_count \<Longrightarrow>
    qb_step message_count False s ((call_op 0 (PushLock (qb_value s)) s)\<lparr>qb_value := qb_value s + 1\<rparr>)"
| Close: "\<not> qb_closing s \<Longrightarrow> at_thread 0 Idle s \<Longrightarrow> \<not> qb_value s < message_count \<Longrightarrow>
    qb_step message_count False s ((call_op 0 CloseLock s)\<lparr>qb_closing := True\<rparr>)"
| Join: "qb_closing s \<Longrightarrow> at_thread 0 Idle s \<Longrightarrow> qb_exited s \<Longrightarrow> \<not> qb_joined s \<Longrightarrow>
    qb_step message_count False s (s\<lparr>qb_joined := True\<rparr>)"
| WaitPop: "\<not> qb_exited s \<Longrightarrow> at_thread 1 Idle s \<Longrightarrow> qb_step message_count False s (call_op 1 (PopLock False False) s)"
| Inside: "qstep False (qb_monitor s) m' \<Longrightarrow> no_new_call (qb_monitor s) m' \<Longrightarrow>
    qb_step message_count (spurious_step (qb_monitor s) m') s
      (consumer_after (mon_threads (qb_monitor s) ! 1) (mon_threads m' ! 1) (s\<lparr>qb_monitor := m'\<rparr>))"

text \<open>Runs with the number of their steps and of the spurious ones among them.\<close>

inductive qb_run :: "u64 \<Rightarrow> nat \<Rightarrow> nat \<Rightarrow> qbench \<Rightarrow> bool" for message_count where
  Start: "qb_run message_count 0 0 qbench_new"
| Step: "qb_run message_count steps spurious s \<Longrightarrow> qb_step message_count b s s' \<Longrightarrow>
    qb_run message_count (Suc steps) (spurious + of_bool b) s'"

record bench_report =
  br_messages :: u64
  br_metrics :: process_metrics
  br_msg_s :: rat

definition bench_report_of :: "u64 \<Rightarrow> process_metrics \<Rightarrow> bench_report" where
  "bench_report_of received process =
     \<lparr>br_messages = received, br_metrics = process,
      br_msg_s = (if pm_wall_time_seconds process > 0
        then dbl_signed (dbl_signed (of_nat (unat received)) / pm_wall_time_seconds process) else 0)\<rparr>"

text \<open>\<^verbatim>\<open>run_queue_benchmark\<close>: what it prints or throws, when the system reports \<open>rd0\<close> before and \<open>rd1\<close> after.\<close>

inductive run_queue_benchmark :: "u64 \<Rightarrow> readings \<Rightarrow> readings \<Rightarrow> bench_report result \<Rightarrow> bool" for message_count rd0 rd1 where
  NoSample: "sampler_new rd0 = Inl e \<Longrightarrow> run_queue_benchmark message_count rd0 rd1 (Inl e)"
| Joined: "sampler_new rd0 = Inr started \<Longrightarrow> qb_run message_count steps spurious s \<Longrightarrow> qb_joined s \<Longrightarrow>
    run_queue_benchmark message_count rd0 rd1
      (rbind (sampler_finish started rd1) (\<lambda>process. Inr (bench_report_of (qb_received s) process)))"

section \<open>Every queue run ends with everything received\<close>

definition main_ok :: "u64 \<Rightarrow> u64 \<Rightarrow> bool \<Rightarrow> bool \<Rightarrow> u64 qpc \<Rightarrow> bool" where
  "main_ok message_count next_value closing ended p \<longleftrightarrow>
     (if closing
      then next_value = message_count \<and>
        (if ended then p = SignalAllEmpty \<or> p = SignalAllFull \<or> p = Idle else p = CloseLock)
      else \<not> ended \<and> (p = Idle \<or> p = SignalNotEmpty \<or> (\<exists>x. p = PushLock x)))"

definition consumer_ok :: "u64 list \<Rightarrow> bool \<Rightarrow> u64 qpc \<Rightarrow> u64 qpc \<Rightarrow> bool" where
  "consumer_ok items ended p c \<longleftrightarrow>
     (c = Idle \<or> c = SignalNotFull \<or> c = PopLock False False \<or> c = PopWait False) \<and>
     (c = PopWait False \<longrightarrow> (if ended then p = SignalAllEmpty else length items \<le> of_bool (p = SignalNotEmpty)))"

definition is_push :: "u64 qpc \<Rightarrow> bool" where
  "is_push p \<longleftrightarrow> (\<exists>x. p = PushLock x)"

lemma is_push_simps [simp]:
  "is_push (PushLock x)" "\<not> is_push Idle" "\<not> is_push CloseLock" "\<not> is_push SignalNotEmpty"
  "\<not> is_push SignalAllEmpty" "\<not> is_push SignalAllFull"
  by (simp_all add: is_push_def)

text \<open>The invariant, for a state whose monitor has the queue \<open>q\<close>, the main thread at \<open>p\<close> and the consumer at
  \<open>c\<close>: every number is waiting to be pushed, in the queue, being handed over, or counted.\<close>

definition qb_at :: "u64 \<Rightarrow> qbench \<Rightarrow> u64 ts_queue \<Rightarrow> u64 qpc \<Rightarrow> u64 qpc \<Rightarrow> bool" where
  "qb_at message_count s q p c \<longleftrightarrow>
     qb_monitor s = \<lparr>mon_queue = q, mon_threads = [p, c]\<rparr> \<and> q_capacity q = 0 \<and> qb_value s \<le> message_count \<and>
     unat (qb_value s) = unat (qb_received s) + of_bool (c = SignalNotFull) + length (q_items q) + of_bool (is_push p) \<and>
     main_ok message_count (qb_value s) (qb_closing s) (q_closed q) p \<and> consumer_ok (q_items q) (q_closed q) p c \<and>
     (qb_exited s \<longrightarrow> c = Idle \<and> q_closed q \<and> q_items q = []) \<and> (qb_joined s \<longrightarrow> qb_exited s \<and> qb_closing s \<and> p = Idle)"

text \<open>A potential that every step but a spurious one lowers.\<close>

fun main_weight :: "u64 qpc \<Rightarrow> nat" where
  "main_weight (PushLock x) = 4"
| "main_weight SignalNotEmpty = 3"
| "main_weight CloseLock = 6"
| "main_weight SignalAllEmpty = 5"
| "main_weight SignalAllFull = 2"
| "main_weight pc = 0"

fun consumer_weight :: "u64 qpc \<Rightarrow> nat" where
  "consumer_weight Idle = 2"
| "consumer_weight (PopLock timed expired) = 1"
| "consumer_weight SignalNotFull = 3"
| "consumer_weight pc = 0"

definition qb_potential :: "u64 \<Rightarrow> qbench \<Rightarrow> u64 ts_queue \<Rightarrow> u64 qpc \<Rightarrow> u64 qpc \<Rightarrow> nat" where
  "qb_potential message_count s q p c =
     5 * (unat message_count - unat (qb_value s)) + 5 * (unat message_count - (unat (qb_received s) + of_bool (c = SignalNotFull))) +
     main_weight p + consumer_weight c + (if qb_closing s then 0 else 7) + (if qb_exited s then 0 else 3) +
     (if qb_joined s then 0 else 1)"

text \<open>The steps inside the calls, for these two threads.\<close>

lemma inside_cases:
  assumes "qstep False \<lparr>mon_queue = q, mon_threads = [p, c]\<rparr> m'" and "no_new_call \<lparr>mon_queue = q, mon_threads = [p, c]\<rparr> m'"
    and "main_ok n v closing (q_closed q) p" and "consumer_ok (q_items q) (q_closed q) p c" and "q_capacity q = 0"
  obtains x where "p = PushLock x" "m' = \<lparr>mon_queue = q\<lparr>q_items := q_items q @ [x]\<rparr>, mon_threads = [SignalNotEmpty, c]\<rparr>"
  | "p = CloseLock" "m' = \<lparr>mon_queue = q\<lparr>q_closed := True\<rparr>, mon_threads = [SignalAllEmpty, c]\<rparr>"
  | "p = SignalNotEmpty" "c = PopWait False" "m' = \<lparr>mon_queue = q, mon_threads = [Idle, PopLock False False]\<rparr>"
  | "p = SignalNotEmpty" "c \<noteq> PopWait False" "m' = \<lparr>mon_queue = q, mon_threads = [Idle, c]\<rparr>"
  | "p = SignalAllEmpty" "m' = \<lparr>mon_queue = q, mon_threads = [SignalAllFull, wake_not_empty c]\<rparr>"
  | "p = SignalAllFull" "m' = \<lparr>mon_queue = q, mon_threads = [Idle, c]\<rparr>"
  | x xs where "c = PopLock False False" "q_items q = x # xs"
      "m' = \<lparr>mon_queue = q\<lparr>q_items := xs\<rparr>, mon_threads = [p, SignalNotFull]\<rparr>"
  | "c = PopLock False False" "q_items q = []" "q_closed q" "m' = \<lparr>mon_queue = q, mon_threads = [p, Idle]\<rparr>"
  | "c = PopLock False False" "q_items q = []" "\<not> q_closed q" "m' = \<lparr>mon_queue = q, mon_threads = [p, PopWait False]\<rparr>"
  | "c = SignalNotFull" "m' = \<lparr>mon_queue = q, mon_threads = [p, Idle]\<rparr>"
  | "c = PopWait False" "m' = \<lparr>mon_queue = q, mon_threads = [p, PopLock False False]\<rparr>"
proof -
  have p: "p = Idle \<or> p = SignalNotEmpty \<or> (\<exists>x. p = PushLock x) \<or> p = CloseLock \<or> p = SignalAllEmpty \<or> p = SignalAllFull"
    and push: "\<And>x. p = PushLock x \<Longrightarrow> \<not> q_closed q" and close: "p = CloseLock \<Longrightarrow> \<not> q_closed q"
    using assms(3) by (auto simp: main_ok_def split: if_splits)
  have c: "c = Idle \<or> c = SignalNotFull \<or> c = PopLock False False \<or> c = PopWait False"
    using assms(4) by (simp add: consumer_ok_def)
  have two: "i < 2 \<Longrightarrow> i = 0 \<or> i = 1" for i :: nat by auto
  from assms(1) show thesis
  proof cases
    case (Call i ts pc)
    then show thesis using assms(2) two [of i] by (auto simp: no_new_call_def)
  next
    case (Locked i ts alloc q0 pc q1)
    then consider "i = 0" | "i = 1" by fastforce
    then show thesis
    proof cases
      case 1
      then show thesis using Locked p push close that(1,2) assms(5)
        by (auto simp: queue_ops full_locked_def split: if_splits)
    next
      case 2
      then show thesis using Locked c that(7-9)
        by (cases "q_items q") (auto simp: queue_ops split: if_splits)
    qed
  next
    case (NotifyEmpty i ts j)
    then show thesis using p c two [of i] two [of j] that(3) by auto
  next
    case (NotifyEmptyLost i)
    then show thesis using p c two [of i] that(4) by auto
  next
    case (NotifyFull i ts j)
    then show thesis using p c two [of i] two [of j] by auto
  next
    case (NotifyFullLost i)
    then show thesis using p c two [of i] that(10) by auto
  next
    case (NotifyAllEmpty i)
    then show thesis using p c two [of i] that(5) by auto
  next
    case (NotifyAllFull i)
    then show thesis using p c two [of i] that(6) by auto
  next
    case (SpuriousEmpty i timed)
    then show thesis using p c two [of i] that(11) by auto
  next
    case (SpuriousFull i x)
    then show thesis using p c two [of i] by auto
  next
    case (Timeout i)
    then show thesis using p c two [of i] by auto
  qed
qed

lemma main_ok_simps [simp]:
  "main_ok n v False ended (PushLock x) \<longleftrightarrow> \<not> ended" "main_ok n v False ended SignalNotEmpty \<longleftrightarrow> \<not> ended"
  "main_ok n v False ended Idle \<longleftrightarrow> \<not> ended" "main_ok n v closing ended CloseLock \<longleftrightarrow> closing \<and> v = n \<and> \<not> ended"
  "main_ok n v closing ended SignalAllEmpty \<longleftrightarrow> closing \<and> v = n \<and> ended"
  "main_ok n v closing ended SignalAllFull \<longleftrightarrow> closing \<and> v = n \<and> ended"
  "main_ok n v closing ended (PushLock x) \<longleftrightarrow> \<not> closing \<and> \<not> ended"
  "main_ok n v closing ended SignalNotEmpty \<longleftrightarrow> \<not> closing \<and> \<not> ended"
  "main_ok n v True ended Idle \<longleftrightarrow> v = n \<and> ended"
  by (auto simp: main_ok_def)

lemma consumer_ok_simps [simp]:
  "consumer_ok items ended p Idle" "consumer_ok items ended p SignalNotFull" "consumer_ok items ended p (PopLock False False)"
  "consumer_ok items ended p (PopWait False) \<longleftrightarrow>
     (if ended then p = SignalAllEmpty else length items \<le> of_bool (p = SignalNotEmpty))"
  by (auto simp: consumer_ok_def)

definition qb_advances :: "u64 \<Rightarrow> bool \<Rightarrow> nat \<Rightarrow> qbench \<Rightarrow> bool" where
  "qb_advances message_count b w s' \<longleftrightarrow>
     (\<exists>q' p' c'. qb_at message_count s' q' p' c' \<and> qb_potential message_count s' q' p' c' + 1 \<le> w + 2 * of_bool b)"

lemma qb_advancesI:
  "qb_at n s' q' p' c' \<Longrightarrow> qb_potential n s' q' p' c' + 1 \<le> w + 2 * of_bool b \<Longrightarrow> qb_advances n b w s'"
  unfolding qb_advances_def by blast

lemma qb_inside_advances:
  assumes at: "qb_at n s q p c" and step: "qstep False (qb_monitor s) m'" "no_new_call (qb_monitor s) m'"
  shows "qb_advances n (spurious_step (qb_monitor s) m') (qb_potential n s q p c)
    (consumer_after (mon_threads (qb_monitor s) ! 1) (mon_threads m' ! 1) (s\<lparr>qb_monitor := m'\<rparr>))"
proof -
  have m: "qb_monitor s = \<lparr>mon_queue = q, mon_threads = [p, c]\<rparr>" and cap: "q_capacity q = 0"
    and main: "main_ok n (qb_value s) (qb_closing s) (q_closed q) p" and consumer: "consumer_ok (q_items q) (q_closed q) p c"
    and v: "unat (qb_value s) \<le> unat n"
    and account: "unat (qb_value s) = unat (qb_received s) + of_bool (c = SignalNotFull) + length (q_items q) + of_bool (is_push p)"
    and flags: "qb_exited s \<longrightarrow> c = Idle \<and> q_closed q \<and> q_items q = []" "qb_joined s \<longrightarrow> qb_exited s \<and> qb_closing s \<and> p = Idle"
    using at by (auto simp: qb_at_def word_le_nat_alt)
  have received: "c = SignalNotFull \<Longrightarrow> unat (qb_received s + 1) = unat (qb_received s) + 1"
    using account unat_suc_bound [of "qb_received s" "qb_value s"] by simp
  note facts = at m cap main consumer v account flags
  note defs = qb_at_def qb_potential_def consumer_after_def spurious_step_def
  from inside_cases [OF step [unfolded m] main consumer cap] show ?thesis
  proof cases
    case (1 x)
    then show ?thesis using facts
      by (intro qb_advancesI [of n _ "q\<lparr>q_items := q_items q @ [x]\<rparr>" SignalNotEmpty c])
        (auto simp: defs consumer_ok_def)
  next
    case 2
    then show ?thesis using facts
      by (intro qb_advancesI [of n _ "q\<lparr>q_closed := True\<rparr>" SignalAllEmpty c]) (auto simp: defs consumer_ok_def)
  next
    case 3
    then show ?thesis using facts
      by (intro qb_advancesI [of n _ q Idle "PopLock False False"]) (auto simp: defs)
  next
    case 4
    then show ?thesis using facts
      by (intro qb_advancesI [of n _ q Idle c]) (auto simp: defs consumer_ok_def)
  next
    case 5
    then show ?thesis using facts
      by (intro qb_advancesI [of n _ q SignalAllFull "wake_not_empty c"]) (auto simp: defs consumer_ok_def)
  next
    case 6
    then show ?thesis using facts
      by (intro qb_advancesI [of n _ q Idle c]) (auto simp: defs consumer_ok_def)
  next
    case (7 x xs)
    then show ?thesis using facts
      by (intro qb_advancesI [of n _ "q\<lparr>q_items := xs\<rparr>" p SignalNotFull]) (auto simp: defs)
  next
    case 8
    then show ?thesis using facts
      by (intro qb_advancesI [of n _ q p Idle]) (auto simp: defs)
  next
    case 9
    then show ?thesis using facts
      by (intro qb_advancesI [of n _ q p "PopWait False"]) (auto simp: defs)
  next
    case 10
    then show ?thesis using facts received
      by (intro qb_advancesI [of n _ q p Idle]) (auto simp: defs)
  next
    case 11
    then show ?thesis using facts
      by (intro qb_advancesI [of n _ q p "PopLock False False"]) (auto simp: defs)
  qed
qed

text \<open>All steps.\<close>

lemma qb_step_advances:
  assumes "qb_step n b s s'" and "qb_at n s q p c"
  shows "qb_advances n b (qb_potential n s q p c) s'"
  using assms
proof cases
  case Push
  then show ?thesis using assms(2) unat_suc_less [of "qb_value s" n]
    by (intro qb_advancesI [of n _ q "PushLock (qb_value s)" c])
      (auto simp: qb_at_def qb_potential_def at_thread_def call_op_def main_ok_def consumer_ok_def word_less_nat_alt)
next
  case Close
  then show ?thesis using assms(2)
    by (intro qb_advancesI [of n _ q CloseLock c])
      (auto simp: qb_at_def qb_potential_def at_thread_def call_op_def main_ok_def consumer_ok_def)
next
  case Join
  then show ?thesis using assms(2)
    by (intro qb_advancesI [of n _ q p c]) (auto simp: qb_at_def qb_potential_def at_thread_def)
next
  case WaitPop
  then show ?thesis using assms(2)
    by (intro qb_advancesI [of n _ q p "PopLock False False"])
      (auto simp: qb_at_def qb_potential_def at_thread_def call_op_def)
next
  case (Inside m')
  then show ?thesis using qb_inside_advances [OF assms(2)] by simp
qed

lemma qb_run_at: "qb_run n steps spurious s \<Longrightarrow> \<exists>q p c. qb_at n s q p c \<and>
    steps + qb_potential n s q p c \<le> 10 * unat n + 13 + 2 * spurious"
proof (induction rule: qb_run.induct)
  case Start
  have "qb_at n qbench_new (ts_queue_new 0) Idle Idle"
    by (simp add: qb_at_def qbench_new_def monitor_new_def ts_queue_new_def numeral_2_eq_2)
  moreover have "qb_potential n qbench_new (ts_queue_new 0) Idle Idle = 10 * unat n + 13"
    by (simp add: qb_potential_def qbench_new_def)
  ultimately show ?case by (metis add_0 mult_0_right add_0_right order_refl)
next
  case (Step steps spurious s b s')
  then obtain q p c where at: "qb_at n s q p c" "steps + qb_potential n s q p c \<le> 10 * unat n + 13 + 2 * spurious" by blast
  then show ?case using qb_step_advances [OF Step.hyps(2) at(1)] by (fastforce simp: qb_advances_def)
qed

text \<open>The main thread and the consumer never block each other for good.\<close>

lemma qb_inside_possible:
  assumes "qb_monitor s = \<lparr>mon_queue = q, mon_threads = [p, c]\<rparr>"
    and "qstep False \<lparr>mon_queue = q, mon_threads = [p, c]\<rparr> m'" and "no_new_call \<lparr>mon_queue = q, mon_threads = [p, c]\<rparr> m'"
    and "\<not> spurious_step \<lparr>mon_queue = q, mon_threads = [p, c]\<rparr> m'"
  shows "\<exists>s'. qb_step n False s s'"
  using qb_step.Inside [of s m' n] assms by auto

lemma qb_at_progress:
  assumes at: "qb_at n s q p c" and "\<not> qb_joined s"
  shows "\<exists>s'. qb_step n False s s'"
proof -
  have m: "qb_monitor s = \<lparr>mon_queue = q, mon_threads = [p, c]\<rparr>" and cap: "q_capacity q = 0"
    and main: "main_ok n (qb_value s) (qb_closing s) (q_closed q) p" and consumer: "consumer_ok (q_items q) (q_closed q) p c"
    and exit: "qb_exited s \<longrightarrow> c = Idle"
    using at by (auto simp: qb_at_def)
  note inside = qb_inside_possible [OF m] and facts = queue_ops full_locked_def no_new_call_def spurious_step_def cap
  have main_moves: "\<exists>s'. qb_step n False s s'" if "p \<noteq> Idle"
  proof -
    from main that consider x where "p = PushLock x" "\<not> q_closed q" | "p = CloseLock" "\<not> q_closed q" | "p = SignalNotEmpty"
      | "p = SignalAllEmpty" | "p = SignalAllFull" by (auto simp: main_ok_def split: if_splits)
    then show ?thesis
    proof cases
      case (1 x)
      then show ?thesis using inside [OF qstep.Locked [of 0 "[p, c]" True False q SignalNotEmpty "q\<lparr>q_items := q_items q @ [x]\<rparr>"]]
        by (simp add: facts list_all2_Cons1)
    next
      case 2
      then show ?thesis using inside [OF qstep.Locked [of 0 "[p, c]" True False q SignalAllEmpty "q\<lparr>q_closed := True\<rparr>"]]
        by (simp add: facts list_all2_Cons1)
    next
      case 3
      then show ?thesis
        using inside [OF qstep.NotifyEmpty [of 0 "[p, c]" 1 False q]] inside [OF qstep.NotifyEmptyLost [of 0 "[p, c]" False q]]
        by (cases c) (simp_all add: facts list_all2_Cons1)
    next
      case 4
      then show ?thesis using inside [OF qstep.NotifyAllEmpty [of 0 "[p, c]" False q]]
        by (cases c) (simp_all add: facts list_all2_Cons1)
    next
      case 5
      then show ?thesis using inside [OF qstep.NotifyAllFull [of 0 "[p, c]" False q]]
        by (cases c) (simp_all add: facts list_all2_Cons1)
    qed
  qed
  have consumer_moves: "\<exists>s'. qb_step n False s s'" if "p = Idle" "\<not> qb_exited s" "q_closed q"
  proof -
    from consumer that consider "c = Idle" | "c = SignalNotFull" | "c = PopLock False False" by (auto simp: consumer_ok_def)
    then show ?thesis
    proof cases
      case 1
      then show ?thesis using qb_step.WaitPop [of s n] that m by (auto simp: at_thread_def)
    next
      case 2
      then show ?thesis using inside [OF qstep.NotifyFullLost [of 1 "[p, c]" False q]] that(1)
        by (simp add: facts list_all2_Cons1)
    next
      case 3
      then show ?thesis
      proof (cases "q_items q")
        case Nil
        then show ?thesis using 3 that inside [OF qstep.Locked [of 1 "[p, c]" True False q Idle q]]
          by (simp add: facts list_all2_Cons1)
      next
        case (Cons x xs)
        then show ?thesis using 3 that inside [OF qstep.Locked [of 1 "[p, c]" True False q SignalNotFull "q\<lparr>q_items := xs\<rparr>"]]
          by (simp add: facts list_all2_Cons1)
      qed
    qed
  qed
  show ?thesis
  proof (cases "p = Idle")
    case True
    then have idle: "at_thread 0 Idle s" using m by (simp add: at_thread_def)
    show ?thesis
    proof (cases "qb_closing s")
      case closing: True
      then show ?thesis using True main consumer_moves qb_step.Join [of s n] idle assms(2) by (cases "qb_exited s") auto
    next
      case False
      then show ?thesis using qb_step.Push [of s n] qb_step.Close [of s n] idle by blast
    qed
  qed (rule main_moves)
qed

lemma qb_at_joined:
  assumes "qb_at n s q p c" and "qb_joined s"
  shows "qb_received s = n"
proof -
  have "unat (qb_value s) = unat (qb_received s)" and "qb_value s = n"
    using assms by (auto simp: qb_at_def main_ok_def split: if_splits)
  then show ?thesis by (simp add: word_unat_eq_iff)
qed

lemma qb_run_facts:
  assumes "qb_run n steps spurious s"
  shows "steps \<le> 10 * unat n + 13 + 2 * spurious"
    and "if qb_joined s then qb_received s = n else \<exists>s'. qb_step n False s s'"
proof -
  obtain q p c where at: "qb_at n s q p c" "steps + qb_potential n s q p c \<le> 10 * unat n + 13 + 2 * spurious"
    using qb_run_at [OF assms] by blast
  show "steps \<le> 10 * unat n + 13 + 2 * spurious" using at(2) by simp
  show "if qb_joined s then qb_received s = n else \<exists>s'. qb_step n False s s'"
    using qb_at_joined [OF at(1)] qb_at_progress [OF at(1)] by simp
qed

lemma qb_run_completes:
  "qb_run n steps spurious s \<Longrightarrow> \<exists>steps' s'. qb_run n steps' spurious s' \<and> qb_joined s'"
proof (induction "10 * unat n + 13 + 2 * spurious - steps" arbitrary: steps s rule: less_induct)
  case less
  show ?case
  proof (cases "qb_joined s")
    case False
    then obtain s' where "qb_step n False s s'" using qb_run_facts(2) [OF less.prems] by auto
    then have run: "qb_run n (Suc steps) spurious s'" using qb_run.Step [OF less.prems] by fastforce
    show ?thesis by (rule less.hyps [OF _ run]) (use qb_run_facts(1) [OF run] in simp)
  qed (use less.prems in blast)
qed

text \<open>C39: The benchmark of the queue measures what it says it measures: it never gets stuck, it ends after a
  number of steps that is linear in the number of messages and of spurious wake-ups, and once the consumer
  has been joined it has received every message.\<close>

theorem queue_benchmark_complete:
  assumes "qb_run message_count steps spurious s"
  shows "steps \<le> 10 * unat message_count + 13 + 2 * spurious \<and>
    (if qb_joined s then qb_received s = message_count else \<exists>s'. qb_step message_count False s s')"
  using qb_run_facts [OF assms] by simp

theorem queue_benchmark_complete_witness:
  "\<exists>steps s. qb_run 3 steps 0 s \<and> qb_joined s \<and> qb_received s = 3 \<and> steps \<le> 43"
proof -
  obtain steps s where run: "qb_run 3 steps 0 s" "qb_joined s" using qb_run_completes [OF qb_run.Start] by blast
  then show ?thesis using queue_benchmark_complete [OF run(1)] by auto
qed

text \<open>So the report of a run counts every message.\<close>

lemma queue_benchmark_report:
  assumes "run_queue_benchmark message_count rd0 rd1 (Inr r)"
  shows "br_messages r = message_count"
  using assms
proof cases
  case (Joined started steps spurious s)
  then show ?thesis using qb_run_facts(2) [OF Joined(3)]
    by (auto simp: rbind_eq_Inr_iff bench_report_of_def dest!: sym [of "Inr r"])
qed

section \<open>The benchmark of publish and subscribe\<close>

definition pubsub_options :: "u64 \<Rightarrow> subscription_options" where
  "pubsub_options message_count = default_options\<lparr>queue_depth := message_count\<rparr>"

definition bench_message :: "u64 \<Rightarrow> u64 \<Rightarrow> imu_msg" where
  "bench_message sequence now = \<lparr>imu_timestamp_ns = now, imu_yaw = f64_of_nat (unat sequence), imu_gyro_z = 0\<rparr>"

record pbench =
  pb_sub :: "imu_msg sub_system"
  pb_sequence :: u64
  pb_received :: u64
  pb_latencies :: "u64 list"

text \<open>The subscription's callback, when the clock says \<open>now_ns\<close>.\<close>

definition bench_callback :: "u64 \<Rightarrow> imu_msg \<Rightarrow> pbench \<Rightarrow> pbench" where
  "bench_callback now_ns imu s =
     s\<lparr>pb_latencies := (if now_ns \<ge> imu_timestamp_ns imu
         then record_latency (sint (now_ns - imu_timestamp_ns imu)) (pb_latencies s) else pb_latencies s),
       pb_received := pb_received s + 1\<rparr>"

fun bench_event :: "u64 \<Rightarrow> imu_msg flow_event \<Rightarrow> pbench \<Rightarrow> pbench" where
  "bench_event now_ns Silent s = s"
| "bench_event now_ns (Handled imu) s = bench_callback now_ns imu s"

inductive pb_step :: "u64 \<Rightarrow> pbench \<Rightarrow> pbench \<Rightarrow> bool" for message_count where
  Publish: "publisher_idle (pb_sub s) \<Longrightarrow> pb_sequence s < message_count \<Longrightarrow>
    pb_step message_count s (s\<lparr>pb_sub := flow_publish (bench_message (pb_sequence s) now) (pb_sub s),
      pb_sequence := pb_sequence s + 1\<rparr>)"
| Inside: "flow_step (pb_sub s) ev sub' \<Longrightarrow> pb_step message_count s (bench_event now_ns ev (s\<lparr>pb_sub := sub'\<rparr>))"

inductive pb_run :: "u64 \<Rightarrow> nat \<Rightarrow> pbench \<Rightarrow> bool" for message_count where
  Start: "control_block_new (pubsub_options message_count) True = Inr b \<Longrightarrow>
    pb_run message_count 0 \<lparr>pb_sub = sub_start b, pb_sequence = 0, pb_received = 0, pb_latencies = []\<rparr>"
| Step: "pb_run message_count steps s \<Longrightarrow> pb_step message_count s s' \<Longrightarrow> pb_run message_count (Suc steps) s'"

record pubsub_report =
  pr_run :: bench_report
  pr_workers :: u64
  pr_drops :: u64
  pr_latency :: latency_summary

text \<open>\<^verbatim>\<open>run_pubsub_benchmark\<close>: the wait ends when everything has been received, or after thirty seconds.\<close>

inductive run_pubsub_benchmark ::
  "(rat \<Rightarrow> rat) \<Rightarrow> u64 \<Rightarrow> u64 \<Rightarrow> readings \<Rightarrow> readings \<Rightarrow> pubsub_report result \<Rightarrow> bool"
  for ld message_count worker_count rd0 rd1 where
  NoSample: "sampler_new rd0 = Inl e \<Longrightarrow> run_pubsub_benchmark ld message_count worker_count rd0 rd1 (Inl e)"
| TimedOut: "sampler_new rd0 = Inr started \<Longrightarrow> pb_run message_count steps s \<Longrightarrow> pb_received s \<noteq> message_count \<Longrightarrow>
    run_pubsub_benchmark ld message_count worker_count rd0 rd1 (Inl (RuntimeError ''in-process benchmark timed out''))"
| Completed: "sampler_new rd0 = Inr started \<Longrightarrow> pb_run message_count steps s \<Longrightarrow> pb_received s = message_count \<Longrightarrow>
    run_pubsub_benchmark ld message_count worker_count rd0 rd1
      (rbind (sampler_finish started rd1) (\<lambda>process.
         Inr \<lparr>pr_run = bench_report_of (pb_received s) process, pr_workers = worker_count,
           pr_drops = st_dropped_oldest (control_block_stats (ss_block (pb_sub s))),
           pr_latency = latency_summary_of ld (pb_latencies s)\<rparr>))"

definition pb_at :: "u64 \<Rightarrow> imu_msg list \<Rightarrow> imu_msg list \<Rightarrow> pbench \<Rightarrow> bool" where
  "pb_at message_count published handled s \<longleftrightarrow>
     flow_ok published handled (pb_sub s) \<and> cb_options (ss_block (pb_sub s)) = pubsub_options message_count \<and>
     length published = unat (pb_sequence s) \<and> pb_sequence s \<le> message_count \<and> unat (pb_received s) = length handled \<and>
     length (pb_latencies s) \<le> length handled"

lemma pb_at_handled:
  assumes "pb_at n published handled s"
  shows "length handled + num (\<lambda>pc. in_hand pc \<noteq> []) (ss_drains (pb_sub s)) \<le> unat n" and "ss_dropped (pb_sub s) = []"
proof -
  have ok: "flow_ok published handled (pb_sub s)" and len: "length published \<le> unat n"
    and depth: "queue_depth (cb_options (ss_block (pb_sub s))) = n"
    using assms by (simp_all add: pb_at_def word_le_nat_alt pubsub_options_def)
  show "length handled + num (\<lambda>pc. in_hand pc \<noteq> []) (ss_drains (pb_sub s)) \<le> unat n" using flow_account [OF ok] len by simp
  show "ss_dropped (pb_sub s) = []" using flow_roomy [OF ok] len depth by simp
qed

lemma in_hand_event: "handled_by (drain_event pc) = in_hand pc"
  by (cases pc) auto

lemma flow_event_room:
  assumes "flow_step s ev s'" and "ev = Handled m"
  shows "0 < num (\<lambda>pc. in_hand pc \<noteq> []) (ss_drains s)"
  using assms
proof cases
  case (Drain i tid)
  then have "in_hand (ss_drains s ! i) \<noteq> []" using assms(2) by (metis in_hand_event handled_by.simps(2) list.distinct(1))
  then show ?thesis using num_pos [OF Drain(2), of "\<lambda>pc. in_hand pc \<noteq> []"] by simp
qed (use assms(2) in simp)

lemma pb_step_at:
  assumes "pb_step n s s'" and "pb_at n published handled s"
  shows "\<exists>published' handled'. pb_at n published' handled' s' \<and>
    8 * (unat n - unat (pb_sequence s')) + flow_weight (pb_sub s') < 8 * (unat n - unat (pb_sequence s)) + flow_weight (pb_sub s)"
  using assms(1)
proof cases
  case (Publish now)
  let ?m = "bench_message (pb_sequence s) now"
  have ok: "flow_ok (published @ [?m]) handled (flow_publish ?m (pb_sub s))" "flow_weight (flow_publish ?m (pb_sub s)) = flow_weight (pb_sub s) + 7"
    using flow_ok_publish [OF _ Publish(2)] assms(2) unfolding pb_at_def by blast+
  then have "pb_at n (published @ [?m]) handled s'"
    using assms(2) Publish unat_suc_less [of "pb_sequence s" n] by (simp add: pb_at_def flow_publish_def)
  then show ?thesis using ok(2) Publish unat_suc_less [of "pb_sequence s" n]
    by (intro exI [of _ "published @ [?m]"] exI [of _ handled]) (auto simp: word_less_nat_alt)
next
  case (Inside ev sub' now_ns)
  have ok: "flow_ok published (handled @ handled_by ev) sub'" "flow_weight sub' < flow_weight (pb_sub s)"
    using flow_ok_step [OF _ Inside(2)] assms(2) unfolding pb_at_def by blast+
  have room: "unat (pb_received s + 1) = unat (pb_received s) + 1" if "ev = Handled m" for m
    using pb_at_handled(1) [OF assms(2)] flow_event_room [OF Inside(2) that] assms(2) unat_suc_bound [of "pb_received s" n]
    by (simp add: pb_at_def)
  have "pb_at n published (handled @ handled_by ev) s'"
    using ok(1) assms(2) Inside(1) room flow_step_options [OF Inside(2)]
    by (cases ev) (auto simp: pb_at_def bench_callback_def record_latency_def)
  moreover have "pb_sequence s' = pb_sequence s" "pb_sub s' = sub'" using Inside(1) by (cases ev; simp add: bench_callback_def)+
  ultimately show ?thesis using ok(2) by auto
qed

lemma pb_run_at:
  "pb_run n steps s \<Longrightarrow> \<exists>published handled. pb_at n published handled s \<and>
     steps + 8 * (unat n - unat (pb_sequence s)) + flow_weight (pb_sub s) \<le> 8 * unat n"
proof (induction rule: pb_run.induct)
  case (Start b)
  then have "pb_at n [] [] \<lparr>pb_sub = sub_start b, pb_sequence = 0, pb_received = 0, pb_latencies = []\<rparr>"
    using flow_ok_start [OF Start] by (auto simp: pb_at_def pubsub_options_def default_options_def sub_start_def
        control_block_new_def split: if_splits)
  then show ?case using Start
    by (auto simp: flow_weight_def sub_start_def control_block_new_def split: if_splits intro!: exI [of _ "[]"])
next
  case (Step steps s s')
  then obtain published handled where at: "pb_at n published handled s"
    "steps + 8 * (unat n - unat (pb_sequence s)) + flow_weight (pb_sub s) \<le> 8 * unat n" by blast
  obtain published' handled' where "pb_at n published' handled' s'"
    "8 * (unat n - unat (pb_sequence s')) + flow_weight (pb_sub s') < 8 * (unat n - unat (pb_sequence s)) + flow_weight (pb_sub s)"
    using pb_step_at [OF Step.hyps(2) at(1)] by blast
  then show ?case using at(2) by (intro exI [of _ published'] exI [of _ handled']) simp
qed

lemma pb_at_progress:
  assumes at: "pb_at n published handled s" and "pb_received s \<noteq> n"
  shows "\<exists>s'. pb_step n s s'"
proof (cases "flow_rest (pb_sub s)")
  case False
  then show ?thesis by (rule flow_not_rest) (blast dest: flow_drain_possible intro: pb_step.Inside)+
next
  case True
  then have idle: "publisher_idle (pb_sub s)" by (simp add: flow_rest_def)
  have "length published = length handled"
    using flow_rest_account(1) [OF _ True, of published handled] pb_at_handled(2) [OF at] at unfolding pb_at_def by simp
  then have "pb_sequence s \<noteq> n" using at assms(2) by (auto simp: pb_at_def word_unat_eq_iff)
  then have "pb_sequence s < n" using at unfolding pb_at_def by (simp add: order_less_le)
  then show ?thesis using pb_step.Publish [OF idle] by blast
qed

lemma pb_run_facts:
  assumes "pb_run n steps s"
  shows "steps \<le> 8 * unat n" and "pb_received s \<le> n" and "length (pb_latencies s) \<le> unat (pb_received s)"
    and "cb_dropped_oldest (ss_block (pb_sub s)) = 0" and "pb_received s = n \<or> (\<exists>s'. pb_step n s s')"
proof -
  obtain published handled where at: "pb_at n published handled s"
    "steps + 8 * (unat n - unat (pb_sequence s)) + flow_weight (pb_sub s) \<le> 8 * unat n"
    using pb_run_at [OF assms] by blast
  show "steps \<le> 8 * unat n" using at(2) by simp
  show "pb_received s \<le> n" using at(1) pb_at_handled(1) [OF at(1)] by (simp add: pb_at_def word_le_nat_alt)
  show "length (pb_latencies s) \<le> unat (pb_received s)" using at(1) by (simp add: pb_at_def)
  have "sub_counters (pb_sub s)" using at(1) by (simp add: pb_at_def flow_ok_def sub_inv_def)
  then show "cb_dropped_oldest (ss_block (pb_sub s)) = 0" using pb_at_handled(2) [OF at(1)] by (simp add: sub_counters_def)
  show "pb_received s = n \<or> (\<exists>s'. pb_step n s s')" using pb_at_progress [OF at(1)] by blast
qed

lemma pb_run_completes: "pb_run n steps s \<Longrightarrow> \<exists>steps' s'. pb_run n steps' s' \<and> pb_received s' = n"
proof (induction "8 * unat n - steps" arbitrary: steps s rule: less_induct)
  case less
  show ?case
  proof (cases "pb_received s = n")
    case False
    then obtain s' where "pb_step n s s'" using pb_run_facts(5) [OF less.prems] by blast
    then have run: "pb_run n (Suc steps) s'" by (rule pb_run.Step [OF less.prems])
    show ?thesis by (rule less.hyps [OF _ run]) (use pb_run_facts(1) [OF run] in simp)
  qed (use less.prems in blast)
qed

text \<open>The benchmark of publish and subscribe measures execution and not the drop policy: with the mailbox as
  deep as the number of messages nothing is ever dropped, whatever the scheduling; the run gets to the point
  where everything has been received after a number of steps that is linear in the number of messages, so
  only the time limit can make it fail; and never more latencies are recorded than messages received.\<close>

theorem pubsub_benchmark_complete:
  assumes "pb_run message_count steps s"
  shows "st_dropped_oldest (control_block_stats (ss_block (pb_sub s))) = 0 \<and> steps \<le> 8 * unat message_count \<and>
    pb_received s \<le> message_count \<and> length (pb_latencies s) \<le> unat (pb_received s) \<and>
    (pb_received s = message_count \<or> (\<exists>s'. pb_step message_count s s'))"
  using pb_run_facts [OF assms] by (simp add: control_block_stats_def)

theorem pubsub_benchmark_complete_witness:
  "\<exists>steps s. pb_run 5 steps s \<and> pb_received s = 5 \<and> st_dropped_oldest (control_block_stats (ss_block (pb_sub s))) = 0"
proof -
  obtain b :: "imu_msg control_block" where "control_block_new (pubsub_options 5) True = Inr b"
    by (simp add: control_block_new_def pubsub_options_def)
  then obtain steps s where run: "pb_run 5 steps s" "pb_received s = 5" using pb_run_completes [OF pb_run.Start] by blast
  then show ?thesis using pubsub_benchmark_complete [OF run(1)] by blast
qed

end
