(* ===== verification/Rml_Inprocess_Demo.thy ===== *)
theory Rml_Inprocess_Demo
  imports Rml_Flow Rml_Message Rml_Double
begin

text \<open>
  The in-process demonstration (\<^verbatim>\<open>demo/inprocess_demo.cpp\<close>): an IMU node publishes on \<^verbatim>\<open>/imu\<close>, the
  callback of the control node answers every sample with a command on \<^verbatim>\<open>/cmd_vel\<close>, and the callback of the
  actuator node counts the commands. The two subscriptions are two systems, run by the same executor; the
  program's own steps connect them.
\<close>

section \<open>The control law\<close>

text \<open>Comparison of doubles given by their bit patterns: nothing is greater than a NaN, and the two zeros are equal.\<close>

definition f64_nan :: "f64 \<Rightarrow> bool" where
  "f64_nan x \<longleftrightarrow> unat x mod 2 ^ 63 > 0x7FF0000000000000"

definition f64_rank :: "f64 \<Rightarrow> int" where
  "f64_rank x = (if unat x \<ge> 2 ^ 63 then - int (unat x mod 2 ^ 63) else int (unat x))"

definition f64_greater :: "f64 \<Rightarrow> f64 \<Rightarrow> bool" where
  "f64_greater x y \<longleftrightarrow> \<not> f64_nan x \<and> \<not> f64_nan y \<and> f64_rank x > f64_rank y"

text \<open>The constants are the bit patterns of 0.05, 0.25, 180.0, -0.1 and 0.1.\<close>

definition imu_sample :: "u64 \<Rightarrow> u64 \<Rightarrow> imu_msg" where
  "imu_sample sequence now =
     \<lparr>imu_timestamp_ns = now, imu_yaw = f64_of_nat (unat (sequence mod 360)), imu_gyro_z = 0x3FA999999999999A\<rparr>"

definition command_for :: "u64 \<Rightarrow> imu_msg \<Rightarrow> control_msg" where
  "command_for now imu =
     \<lparr>ctl_timestamp_ns = now, ctl_linear_x = 0x3FD0000000000000, ctl_linear_y = 0,
      ctl_angular_z = (if f64_greater (imu_yaw imu) 0x4066800000000000 then 0xBFB999999999999A else 0x3FB999999999999A)\<rparr>"

definition inprocess_options :: subscription_options where
  "inprocess_options = default_options\<lparr>queue_depth := 64\<rparr>"

section \<open>The program\<close>

text \<open>\<open>ip_publishing\<close>: the control callback has called publish for the sample it is handling. The last two
  fields are history: the samples published and the commands given to the actuator.\<close>

record inprocess =
  ip_imu :: "imu_msg sub_system"
  ip_cmd :: "control_msg sub_system"
  ip_sequence :: u64
  ip_publishing :: bool
  ip_commands :: u64
  ip_output :: "(u64 \<times> f64 \<times> f64) list"
  ip_samples :: "imu_msg list"
  ip_actuated :: "control_msg list"

definition inprocess_new :: "imu_msg control_block \<Rightarrow> control_msg control_block \<Rightarrow> inprocess" where
  "inprocess_new imu cmd = \<lparr>ip_imu = sub_start imu, ip_cmd = sub_start cmd, ip_sequence = 0, ip_publishing = False,
     ip_commands = 0, ip_output = [], ip_samples = [], ip_actuated = []\<rparr>"

text \<open>The actuator's callback; every fiftieth command is printed.\<close>

definition actuate :: "control_msg \<Rightarrow> inprocess \<Rightarrow> inprocess" where
  "actuate command s =
     (let commands = ip_commands s + 1
      in s\<lparr>ip_commands := commands,
           ip_output := (if commands mod 50 = 0
             then ip_output s @ [(commands, ctl_linear_x command, ctl_angular_z command)] else ip_output s),
           ip_actuated := ip_actuated s @ [command]\<rparr>)"

fun actuator_event :: "control_msg flow_event \<Rightarrow> inprocess \<Rightarrow> inprocess" where
  "actuator_event Silent s = s"
| "actuator_event (Handled command) s = actuate command s"

inductive ip_step :: "inprocess \<Rightarrow> inprocess \<Rightarrow> bool" where
  Publish: "publisher_idle (ip_imu s) \<Longrightarrow> ip_sequence s < 200 \<Longrightarrow> m = imu_sample (ip_sequence s) now \<Longrightarrow>
    ip_step s (s\<lparr>ip_imu := flow_publish m (ip_imu s), ip_sequence := ip_sequence s + 1, ip_samples := ip_samples s @ [m]\<rparr>)"
| Imu: "flow_step (ip_imu s) Silent imu' \<Longrightarrow> ip_step s (s\<lparr>ip_imu := imu'\<rparr>)"
| Reply: "DrainCall t m \<in> set (ss_drains (ip_imu s)) \<Longrightarrow> \<not> ip_publishing s \<Longrightarrow>
    ip_step s (s\<lparr>ip_cmd := flow_publish (command_for now m) (ip_cmd s), ip_publishing := True\<rparr>)"
| Return: "ip_publishing s \<Longrightarrow> publisher_idle (ip_cmd s) \<Longrightarrow> flow_step (ip_imu s) (Handled m) imu' \<Longrightarrow>
    ip_step s (s\<lparr>ip_imu := imu', ip_publishing := False\<rparr>)"
| Command: "flow_step (ip_cmd s) ev cmd' \<Longrightarrow> ip_step s (actuator_event ev (s\<lparr>ip_cmd := cmd'\<rparr>))"

inductive ip_run :: "nat \<Rightarrow> inprocess \<Rightarrow> bool" where
  Start: "control_block_new inprocess_options True = Inr imu \<Longrightarrow> control_block_new inprocess_options True = Inr cmd \<Longrightarrow>
    ip_run 0 (inprocess_new imu cmd)"
| Step: "ip_run steps s \<Longrightarrow> ip_step s s' \<Longrightarrow> ip_run (Suc steps) s'"

text \<open>What the program prints at its end, and its exit status.\<close>

definition queue_drops :: "inprocess \<Rightarrow> u64" where
  "queue_drops s = st_dropped_oldest (control_block_stats (ss_block (ip_imu s))) +
     st_dropped_oldest (control_block_stats (ss_block (ip_cmd s)))"

definition inprocess_exit :: "inprocess \<Rightarrow> int" where
  "inprocess_exit s = (if ip_commands s = 200 then 0 else 2)"

text \<open>The whole program: after the publishing loop and the wait (which may time out) the drops are read, the
  subscriptions are cancelled, and the status is determined by the commands received until then.\<close>

inductive inprocess_main :: "u64 \<Rightarrow> int \<Rightarrow> bool" where
  "ip_run steps s \<Longrightarrow> ip_sequence s = 200 \<Longrightarrow> publisher_idle (ip_imu s) \<Longrightarrow> ip_step\<^sup>*\<^sup>* s s' \<Longrightarrow>
    inprocess_main (queue_drops s) (inprocess_exit s')"

section \<open>Invariant\<close>

definition control_law :: "imu_msg \<Rightarrow> control_msg \<Rightarrow> bool" where
  "control_law imu command \<longleftrightarrow> (\<exists>now. command = command_for now imu)"

definition in_hands :: "'m sub_system \<Rightarrow> 'm list" where
  "in_hands s = concat (map in_hand (ss_drains s))"

text \<open>\<open>answered\<close> are the samples whose callback has returned, \<open>replies\<close> the commands published.\<close>

definition ip_at :: "imu_msg list \<Rightarrow> control_msg list \<Rightarrow> inprocess \<Rightarrow> bool" where
  "ip_at answered replies s \<longleftrightarrow>
     flow_ok (ip_samples s) answered (ip_imu s) \<and> flow_ok replies (ip_actuated s) (ip_cmd s) \<and>
     length (ip_samples s) = unat (ip_sequence s) \<and> ip_sequence s \<le> 200 \<and>
     list_all2 control_law (answered @ (if ip_publishing s then in_hands (ip_imu s) else [])) replies \<and>
     (ip_publishing s \<longrightarrow> in_hands (ip_imu s) \<noteq> []) \<and> (\<not> ip_publishing s \<longrightarrow> publisher_idle (ip_cmd s)) \<and>
     unat (ip_commands s) = length (ip_actuated s)"

definition ip_weight :: "inprocess \<Rightarrow> nat" where
  "ip_weight s = 80 * (200 - unat (ip_sequence s)) + 10 * flow_weight (ip_imu s) + flow_weight (ip_cmd s) +
     (if ip_publishing s then 0 else 8)"

lemma in_hands_of_call:
  assumes "flow_ok published handled s" and "DrainCall t m \<in> set (ss_drains s)"
  shows "in_hands s = [m]"
proof -
  obtain i where i: "i < length (ss_drains s)" "ss_drains s ! i = DrainCall t m" using assms(2) by (auto simp: in_set_conv_nth)
  then show ?thesis
    using only_in_hand(2) [OF flow_okD(3) [OF assms(1)] i(1)] by (simp add: in_hands_def)
qed

lemma in_hands_publish [simp]: "in_hands (flow_publish m s) = in_hands s"
  by (simp add: in_hands_def flow_publish_def)

lemma in_hands_handled:
  assumes "flow_ok published handled s" and "flow_step s (Handled m) s'"
  shows "in_hands s = [m]"
  using assms(2)
proof cases
  case (Drain i tid)
  then obtain t where "ss_drains s ! i = DrainCall t m" by (cases "ss_drains s ! i") auto
  then show ?thesis using in_hands_of_call [OF assms(1)] Drain(2) by (metis nth_mem)
qed

lemma in_hands_silent:
  assumes "flow_ok published handled s" and "flow_step s Silent s'" and "in_hands s \<noteq> []"
  shows "in_hands s' = in_hands s"
  using assms(2)
proof cases
  case (Enqueue i)
  from Enqueue(2) show ?thesis by (cases rule: enqueue_step_cases) (simp_all add: in_hands_def)
next
  case (Drain i tid)
  have "in_hand (ss_drains s ! i) = []" using Drain(1) by (cases "ss_drains s ! i") auto
  moreover have "live_drain (ss_drains s ! i)" using Drain(3) by (cases "ss_drains s ! i") (auto simp: drain_step_def)
  ultimately have "in_hands s = []"
    using only_in_hand(2) [OF flow_okD(3) [OF assms(1)] Drain(2)] by (simp add: in_hands_def)
  then show ?thesis using assms(3) by simp
qed

lemma list_all2_subseq:
  "list_all2 P xs ys \<Longrightarrow> subseq zs ys \<Longrightarrow> \<exists>ws. subseq ws xs \<and> list_all2 P ws zs"
proof (induction xs ys arbitrary: zs rule: list_all2_induct)
  case Nil
  then show ?case by auto
next
  case (Cons x xs y ys)
  show ?case
  proof (cases zs)
    case Nil
    then show ?thesis by (intro exI [of _ "[]"]) simp
  next
    case zs: (Cons z zs')
    show ?thesis
    proof (cases "z = y")
      case True
      then have "subseq zs' ys" using Cons.prems zs by simp
      then obtain ws where "subseq ws xs" "list_all2 P ws zs'" using Cons.IH by blast
      then show ?thesis using zs True Cons.hyps(1) by (intro exI [of _ "x # ws"]) simp
    next
      case False
      then have "subseq zs ys" using Cons.prems zs by simp
      then obtain ws where "subseq ws xs" "list_all2 P ws zs" using Cons.IH by blast
      then show ?thesis by (intro exI [of _ ws]) (simp add: list_emb_Cons)
    qed
  qed
qed

lemma ip_at_start:
  assumes "control_block_new inprocess_options True = Inr imu" and "control_block_new inprocess_options True = Inr cmd"
  shows "ip_at [] [] (inprocess_new imu cmd)" and "ip_weight (inprocess_new imu cmd) = 16008"
  using flow_ok_start [OF assms(1)] flow_ok_start [OF assms(2)] assms
  by (auto simp: ip_at_def ip_weight_def inprocess_new_def inprocess_options_def default_options_def sub_start_def
      publisher_idle_def flow_weight_def control_block_new_def split: if_splits)

lemma ip_step_at:
  assumes "ip_step s s'" and at: "ip_at answered replies s"
  shows "\<exists>answered' replies'. ip_at answered' replies' s' \<and> ip_weight s' < ip_weight s"
proof -
  have imu: "flow_ok (ip_samples s) answered (ip_imu s)" and cmd: "flow_ok replies (ip_actuated s) (ip_cmd s)"
    using at by (simp_all add: ip_at_def)
  from assms(1) show ?thesis
  proof cases
    case (Publish m now)
    have "unat (ip_sequence s + 1) = unat (ip_sequence s) + 1" "ip_sequence s + 1 \<le> 200" "unat (ip_sequence s) < 200"
      using unat_suc_less [OF Publish(3)] Publish(3) by (simp_all add: word_less_nat_alt)
    then have "ip_at answered replies s' \<and> ip_weight s' < ip_weight s"
      using flow_ok_publish [OF imu Publish(2), of m] at Publish(1)
      by (auto simp: ip_at_def ip_weight_def)
    then show ?thesis by blast
  next
    case (Imu imu')
    then have "ip_at answered replies s' \<and> ip_weight s' < ip_weight s"
      using flow_ok_step [OF imu Imu(2)] in_hands_silent [OF imu Imu(2)] at by (auto simp: ip_at_def ip_weight_def)
    then show ?thesis by blast
  next
    case (Reply t m now)
    have idle: "publisher_idle (ip_cmd s)" using at Reply(3) by (simp add: ip_at_def)
    have "ip_at answered (replies @ [command_for now m]) s' \<and> ip_weight s' < ip_weight s"
      using flow_ok_publish [OF cmd idle, of "command_for now m"] in_hands_of_call [OF imu Reply(2)] at Reply
      by (auto simp: ip_at_def ip_weight_def control_law_def intro!: list_all2_appendI)
    then show ?thesis by blast
  next
    case (Return m imu')
    have "ip_at (answered @ [m]) replies s' \<and> ip_weight s' < ip_weight s"
      using flow_ok_step [OF imu Return(4)] in_hands_handled [OF imu Return(4)] at Return
      by (auto simp: ip_at_def ip_weight_def)
    then show ?thesis by blast
  next
    case (Command ev cmd')
    have ok: "flow_ok replies (ip_actuated s @ handled_by ev) cmd'" "flow_weight cmd' < flow_weight (ip_cmd s)"
      using flow_ok_step [OF cmd Command(2)] by simp_all
    have "length replies \<le> 200"
      using flow_started_le [OF imu] at by (auto simp: ip_at_def word_le_nat_alt in_hands_def dest!: list_all2_lengthD split: if_splits)
    then have room: "unat (ip_commands s + 1) = unat (ip_commands s) + 1" if "ev = Handled m" for m
      using flow_handled_le [OF ok(1)] that at unat_suc_bound [of "ip_commands s" 200] by (simp add: ip_at_def)
    have "ip_at answered replies s'"
      using ok(1) at Command room flow_step_idle [OF Command(2)] by (cases ev) (auto simp: ip_at_def actuate_def Let_def)
    moreover have "ip_weight s' < ip_weight s"
      using ok(2) Command(1) by (cases ev) (simp_all add: ip_weight_def actuate_def Let_def)
    ultimately show ?thesis by blast
  qed
qed

lemma ip_run_at:
  "ip_run steps s \<Longrightarrow> \<exists>answered replies. ip_at answered replies s \<and> steps + ip_weight s \<le> 16008"
proof (induction rule: ip_run.induct)
  case (Start imu cmd)
  then show ?case using ip_at_start [OF Start] by (intro exI [of _ "[]"]) simp
next
  case (Step steps s s')
  then obtain answered replies where at: "ip_at answered replies s" "steps + ip_weight s \<le> 16008" by blast
  obtain answered' replies' where "ip_at answered' replies' s'" "ip_weight s' < ip_weight s"
    using ip_step_at [OF Step.hyps(2) at(1)] by blast
  then show ?case using at(2) by (intro exI [of _ answered'] exI [of _ replies']) simp
qed

section \<open>Progress\<close>

definition ip_rest :: "inprocess \<Rightarrow> bool" where
  "ip_rest s \<longleftrightarrow> ip_sequence s = 200 \<and> flow_rest (ip_imu s) \<and> flow_rest (ip_cmd s)"

lemma cmd_moves:
  assumes "\<not> flow_rest (ip_cmd s)"
  shows "\<exists>s'. ip_step s s'"
  using assms by (rule flow_not_rest) (blast dest: flow_drain_possible intro: ip_step.Command)+

lemma ip_moves:
  assumes at: "ip_at answered replies s" and "\<not> ip_rest s"
  shows "\<exists>s'. ip_step s s'"
proof (cases "flow_rest (ip_imu s)")
  case rest: True
  show ?thesis
  proof (cases "ip_sequence s = 200")
    case True
    then show ?thesis using assms(2) rest cmd_moves by (simp add: ip_rest_def)
  next
    case False
    then have "ip_sequence s < 200" using at unfolding ip_at_def by (simp add: order_less_le)
    moreover have "publisher_idle (ip_imu s)" using rest by (simp add: flow_rest_def)
    ultimately show ?thesis using ip_step.Publish by blast
  qed
next
  case False
  then show ?thesis
  proof (rule flow_not_rest)
    fix i assume i: "i < length (ss_drains (ip_imu s))" "live_drain (ss_drains (ip_imu s) ! i)"
    then obtain imu' where step: "flow_step (ip_imu s) (drain_event (ss_drains (ip_imu s) ! i)) imu'"
      using flow_drain_possible by blast
    show ?thesis
    proof (cases "drain_event (ss_drains (ip_imu s) ! i)")
      case Silent
      then show ?thesis using step ip_step.Imu by metis
    next
      case (Handled m)
      then obtain t where call: "ss_drains (ip_imu s) ! i = DrainCall t m" by (cases "ss_drains (ip_imu s) ! i") auto
      show ?thesis
      proof (cases "ip_publishing s")
        case publishing: True
        show ?thesis
        proof (cases "publisher_idle (ip_cmd s)")
          case True
          then show ?thesis using publishing step Handled ip_step.Return by metis
        next
          case False
          then show ?thesis using cmd_moves by (simp add: flow_rest_def)
        qed
      next
        case False
        have "DrainCall t m \<in> set (ss_drains (ip_imu s))" using i(1) call by (metis nth_mem)
        then show ?thesis using ip_step.Reply False by blast
      qed
    qed
  qed (blast intro: ip_step.Imu)
qed

lemma ip_rest_account:
  assumes at: "ip_at answered replies s" and rest: "ip_rest s"
  shows "unat (ip_commands s) + length (ss_dropped (ip_imu s)) + length (ss_dropped (ip_cmd s)) = 200"
    and "queue_drops s = of_nat (length (ss_dropped (ip_imu s)) + length (ss_dropped (ip_cmd s)))"
proof -
  have flows: "flow_ok (ip_samples s) answered (ip_imu s)" "flow_ok replies (ip_actuated s) (ip_cmd s)"
    and quiet: "flow_rest (ip_imu s)" "flow_rest (ip_cmd s)" using at rest by (simp_all add: ip_at_def ip_rest_def)
  have "in_hands (ip_imu s) = []"
    using quiet(1) by (auto simp: in_hands_def flow_rest_def list_all_iff intro: not_live_in_hand)
  then have "length replies = length answered" using at by (auto simp: ip_at_def dest!: list_all2_lengthD)
  then show "unat (ip_commands s) + length (ss_dropped (ip_imu s)) + length (ss_dropped (ip_cmd s)) = 200"
    using flow_rest_account(1) [OF flows(1) quiet(1)] flow_rest_account(1) [OF flows(2) quiet(2)] at rest
    by (simp add: ip_at_def ip_rest_def)
  show "queue_drops s = of_nat (length (ss_dropped (ip_imu s)) + length (ss_dropped (ip_cmd s)))"
    using flows by (simp add: queue_drops_def control_block_stats_def flow_ok_def sub_inv_def sub_counters_def)
qed

lemma ip_rest_exit:
  assumes "ip_at answered replies s" and "ip_rest s"
  shows "ip_commands s + queue_drops s = 200" and "inprocess_exit s = 0 \<longleftrightarrow> queue_drops s = 0"
proof -
  let ?d = "length (ss_dropped (ip_imu s)) + length (ss_dropped (ip_cmd s))"
  have sum: "unat (ip_commands s) + ?d = 200" and drops: "queue_drops s = of_nat ?d"
    using ip_rest_account [OF assms] by simp_all
  have commands: "ip_commands s = of_nat (unat (ip_commands s))" by simp
  show all: "ip_commands s + queue_drops s = 200"
    using sum drops commands by (metis of_nat_add of_nat_numeral)
  then show "inprocess_exit s = 0 \<longleftrightarrow> queue_drops s = 0" by (auto simp: inprocess_exit_def)
qed

lemma ip_run_completes: "ip_run steps s \<Longrightarrow> \<exists>steps' s'. ip_run steps' s' \<and> \<not> (\<exists>s''. ip_step s' s'')"
proof (induction "16008 - steps" arbitrary: steps s rule: less_induct)
  case less
  show ?case
  proof (cases "\<exists>s'. ip_step s s'")
    case True
    then obtain s' where "ip_step s s'" by blast
    then have run: "ip_run (Suc steps) s'" by (rule ip_run.Step [OF less.prems])
    obtain answered replies where "Suc steps + ip_weight s' \<le> 16008" using ip_run_at [OF run] by blast
    then show ?thesis by (intro less.hyps [OF _ run]) simp
  qed (use less.prems in blast)
qed

text \<open>C38: The demonstration does what it shows: the commands the actuator gets are, in order, the control law's
  replies to samples that were published; the program comes to rest after a bounded number of steps,
  whatever the scheduling; and then every sample has led to a command or is counted as a drop of one of the
  two queues, so the exit status is 0 exactly when no queue dropped anything.\<close>

theorem inprocess_demo_accounts:
  assumes "ip_run steps s"
  shows "steps \<le> 16008 \<and> length (ip_actuated s) = unat (ip_commands s) \<and>
    (\<exists>ms. subseq ms (ip_samples s) \<and> list_all2 control_law ms (ip_actuated s)) \<and>
    ((\<exists>s'. ip_step s s') \<or>
     ip_commands s + queue_drops s = 200 \<and> (inprocess_exit s = 0 \<longleftrightarrow> queue_drops s = 0))"
proof -
  obtain answered replies where at: "ip_at answered replies s" "steps + ip_weight s \<le> 16008" using ip_run_at [OF assms] by blast
  have flows: "flow_ok (ip_samples s) answered (ip_imu s)" "flow_ok replies (ip_actuated s) (ip_cmd s)"
    using at(1) by (simp_all add: ip_at_def)
  define asked where "asked = answered @ (if ip_publishing s then in_hands (ip_imu s) else [])"
  have law: "list_all2 control_law asked replies" using at(1) by (simp add: ip_at_def asked_def)
  have "subseq (answered @ in_hands (ip_imu s)) (ip_samples s)" using flow_started_subseq [OF flows(1)] by (simp add: in_hands_def)
  then have "subseq asked (ip_samples s)" using subseq_left by (auto simp: asked_def)
  moreover obtain ms where "subseq ms asked" "list_all2 control_law ms (ip_actuated s)"
    using list_all2_subseq [OF law flow_subseq [OF flows(2)]] by blast
  ultimately have "\<exists>ms. subseq ms (ip_samples s) \<and> list_all2 control_law ms (ip_actuated s)"
    using subseq_order.trans by blast
  moreover have "(\<exists>s'. ip_step s s') \<or> ip_commands s + queue_drops s = 200 \<and> (inprocess_exit s = 0 \<longleftrightarrow> queue_drops s = 0)"
    using ip_moves [OF at(1)] ip_rest_exit [OF at(1)] by blast
  ultimately show ?thesis using at by (simp add: ip_at_def)
qed

theorem inprocess_demo_accounts_witness:
  "\<exists>steps s. ip_run steps s \<and> (\<nexists>s'. ip_step s s') \<and> ip_commands s + queue_drops s = 200"
proof -
  have "\<exists>b :: 'a control_block. control_block_new inprocess_options True = Inr b"
    by (simp add: control_block_new_def inprocess_options_def)
  then obtain imu :: "imu_msg control_block" and cmd :: "control_msg control_block"
    where "control_block_new inprocess_options True = Inr imu" "control_block_new inprocess_options True = Inr cmd"
    by (auto simp: control_block_new_def inprocess_options_def)
  then obtain steps s where run: "ip_run steps s" "\<nexists>s'. ip_step s s'" using ip_run_completes [OF ip_run.Start] by blast
  then show ?thesis using inprocess_demo_accounts [OF run(1)] by blast
qed

end
