(* ===== verification/Rml_Bridge_Server.thy ===== *)
theory Rml_Bridge_Server
  imports Rml_Bridge Rml_Session Rml_Arguments
begin

text \<open>
  The bridge server (\<^verbatim>\<open>demo/bridge_server.cpp\<close>): a session manager whose handler gives every frame to a
  bridge, a bridge that imports \<^verbatim>\<open>/imu\<close> into the local bus, and a subscription that counts what arrives. Here
  the models of the session manager, the bridge, the topic bus and a subscription's control block run together.
\<close>

section \<open>Configuration\<close>

record bridge_server_config =
  sc_port :: u16
  sc_expected :: u64
  sc_bind_address :: string

definition bridge_server_config_of :: "string list \<Rightarrow> bridge_server_config result" where
  "bridge_server_config_of args =
     rbind (positive_arg args 0 ''port'' 7600) (\<lambda>port_value.
     rbind (positive_arg args 1 ''expected'' 200) (\<lambda>expected.
       if port_value > 65535 then Inl (InvalidArgument ''port must be in the range 1..65535'')
       else Inr \<lparr>sc_port = ucast port_value, sc_expected = expected,
         sc_bind_address = text_arg args 2 ''127.0.0.1''\<rparr>))"

section \<open>The program's objects\<close>

text \<open>What the handler of the session manager acts on: the bridge, the bus, and the count of the subscription's
  callback.\<close>

record server_world =
  sw_bridge :: "imu_msg topic_bus bridge"
  sw_bus :: "imu_msg topic_bus"
  sw_received :: u64

definition imu_name :: string where
  "imu_name = ''/imu''"

definition imu_type :: type_index where
  "imu_type = ''ImuMsg''"

definition server_handler :: "server_world frame_handler" where
  "server_handler sid f w = (case bridge_receive f (sw_bridge w) (sw_bus w) of
     (ok, br, s) \<Rightarrow> (Inr (), w\<lparr>sw_bridge := br, sw_bus := s\<rparr>))"

text \<open>The bridge with its import and the subscription, on a new runtime's bus; \<open>posts\<close> is what the executor
  answers.\<close>

definition server_world_new :: "(nat \<Rightarrow> bool result) \<Rightarrow> u64 \<Rightarrow> u64 \<Rightarrow> server_world result" where
  "server_world_new posts time_part thread_hash =
     rbind (topic_bus_new True) (\<lambda>s.
     rbind (bridge_new time_part thread_hash default_bridge_options) (\<lambda>br.
       let nd = \<lparr>node_name = ''bridge_server_node'', node_bus = True\<rparr>
       in (case import_topic posts id imu_traits imu_type nd imu_name [] br s of
             (Inl e, br1, s1) \<Rightarrow> Inl e
           | (Inr _, br1, s1) \<Rightarrow> (case create_subscription imu_traits imu_type nd imu_name default_options s1 of
                 (Inl e, s2) \<Rightarrow> Inl e
               | (Inr subscription, s2) \<Rightarrow> Inr \<lparr>sw_bridge = br1, sw_bus = s2, sw_received = 0\<rparr>))))"

text \<open>Then the session manager is bound, the bridge's sender thread started, and the manager started; \<open>spawn\<close> tells
  which of the two threads can be started.\<close>

definition bridge_server_setup ::
  "'n os \<Rightarrow> (nat \<Rightarrow> bool result) \<Rightarrow> bool \<times> bool \<Rightarrow> u64 \<Rightarrow> u64 \<Rightarrow> bridge_server_config \<Rightarrow> 'n \<Rightarrow>
   (session_manager \<times> 'n \<times> server_world) result option" where
  "bridge_server_setup os posts spawn time_part thread_hash config n =
     (case server_world_new posts time_part thread_hash of
        Inl e \<Rightarrow> Some (Inl e)
      | Inr w \<Rightarrow> (case session_manager_new os (sc_bind_address config) (sc_port config) True default_session_options n of
            (Inl e, n1) \<Rightarrow> Some (Inl e)
          | (Inr m, n1) \<Rightarrow> (case set_frame_sender (fst spawn) True (sw_bridge w) of
                (Inl e, br) \<Rightarrow> Some (Inl e)
              | (Inr _, br) \<Rightarrow> (case session_start os False (snd spawn) m n1 of
                    None \<Rightarrow> None
                  | Some (Inl e, m1, n2) \<Rightarrow> Some (Inl e)
                  | Some (Inr _, m1, n2) \<Rightarrow> Some (Inr (m1, n2, w\<lparr>sw_bridge := br\<rparr>))))))"

section \<open>The running server\<close>

text \<open>
  A session thread that runs its handler, every other step of the session manager, the drain of the
  subscription (which runs while one is scheduled) with the program's callback, and the bridge's sender
  thread, whose sender broadcasts.
\<close>

definition set_block :: "nat \<Rightarrow> imu_msg control_block \<Rightarrow> server_world \<Rightarrow> server_world" where
  "set_block h b w = w\<lparr>sw_bus := (sw_bus w)\<lparr>bus_blocks := (bus_blocks (sw_bus w))(h \<mapsto> b)\<rparr>\<rparr>"

definition server_callback :: "server_world \<Rightarrow> server_world" where
  "server_callback w = w\<lparr>sw_received := sw_received w + 1\<rparr>"

definition broadcasts :: "'n os \<Rightarrow> (frame \<Rightarrow> session_manager \<times> 'n \<Rightarrow> unit result \<times> session_manager \<times> 'n) \<Rightarrow>
    session_manager \<times> 'n \<Rightarrow> bool" where
  "broadcasts os sender mn \<longleftrightarrow> (\<forall>f. \<exists>fuel k m1 n1.
     broadcast fuel os f (fst mn) (snd mn) = Some (k, m1, n1) \<and> sender f mn = (Inr (), m1, n1))"

inductive srv_step ::
  "'n os \<Rightarrow> session_manager \<times> 'n \<times> server_world \<Rightarrow> session_manager \<times> 'n \<times> server_world \<Rightarrow> bool" for os :: "'n os" where
  Session: "i < length (sm_sessions m) \<Longrightarrow> session_step fuel pf os server_handler i m n w = Some (m', n', w') \<Longrightarrow>
    srv_step os (m, n, w) (m', n', w')"
| Manager: "mgr_step os server_handler (m, n, w) (m', n', w) \<Longrightarrow> srv_step os (m, n, w) (m', n', w)"
| DrainBegin: "bus_blocks (sw_bus w) h = Some b \<Longrightarrow> cb_scheduled b \<Longrightarrow> cb_in_flight b = 0 \<Longrightarrow>
    drain_begin tid b = (next_message, b') \<Longrightarrow> srv_step os (m, n, w) (m, n, set_block h b' w)"
| Callback: "bus_blocks (sw_bus w) h = Some b \<Longrightarrow> cb_in_flight b \<noteq> 0 \<Longrightarrow>
    srv_step os (m, n, w) (m, n, server_callback (set_block h (drain_end False b) w))"
| Sender: "broadcasts os sender (m, n) \<Longrightarrow> manual_sender_round expired sender (sw_bridge w) (m, n) = Some (br, m', n') \<Longrightarrow>
    srv_step os (m, n, w) (m', n', w\<lparr>sw_bridge := br\<rparr>)"

inductive srv_reach :: "'n os \<Rightarrow> (nat \<Rightarrow> bool result) \<Rightarrow> session_manager \<times> 'n \<times> server_world \<Rightarrow> bool"
  for os :: "'n os" and posts where
  Start: "bridge_server_setup os posts spawn time_part thread_hash config n = Some (Inr s) \<Longrightarrow> srv_reach os posts s"
| Step: "srv_reach os posts s \<Longrightarrow> srv_step os s s' \<Longrightarrow> srv_reach os posts s'"

text \<open>The exit status, when the wait ends in a state of the world.\<close>

definition bridge_server_exit :: "bridge_server_config \<Rightarrow> server_world \<Rightarrow> int" where
  "bridge_server_exit config w = (if sw_received w \<ge> sc_expected config then 0 else 1)"

text \<open>The whole program, up to the end of its wait: an exception is exit status 1. The orderly shutdown that
  follows does not change the status.\<close>

inductive bridge_server_main :: "'n os \<Rightarrow> (nat \<Rightarrow> bool result) \<Rightarrow> string list \<Rightarrow> 'n \<Rightarrow> int \<Rightarrow> bool" for os posts args n where
  BadArguments: "bridge_server_config_of args = Inl e \<Longrightarrow> bridge_server_main os posts args n 1"
| SetupFails: "bridge_server_config_of args = Inr config \<Longrightarrow>
    bridge_server_setup os posts spawn time_part thread_hash config n = Some (Inl e) \<Longrightarrow> bridge_server_main os posts args n 1"
| Ends: "bridge_server_config_of args = Inr config \<Longrightarrow>
    bridge_server_setup os posts spawn time_part thread_hash config n = Some (Inr s) \<Longrightarrow>
    (srv_step os)\<^sup>*\<^sup>* s (m, n', w) \<Longrightarrow> bridge_server_main os posts args n (bridge_server_exit config w)"

section \<open>What a step of the session manager hands to the handler\<close>

definition intake :: "session_stats \<Rightarrow> u64 \<times> u64" where
  "intake st = (st_frames_received st, st_callback_errors st)"

lemma intake_tick [simp]:
  "intake (tick st_accepted_update st) = intake st" "intake (tick st_rejected_clients_update st) = intake st"
  "intake (tick st_active_update st) = intake st" "intake (tick st_disconnected_update st) = intake st"
  "intake (tick st_frames_sent_update st) = intake st" "intake (tick st_heartbeats_received_update st) = intake st"
  "intake (tick st_heartbeats_sent_update st) = intake st" "intake (tick st_transport_errors_update st) = intake st"
  "intake (tick st_protocol_errors_update st) = intake st" "intake (tick st_idle_timeouts_update st) = intake st"
  "intake (st_active_update g st) = intake st"
  by (simp_all add: intake_def tick_def)

text \<open>Nothing was taken in, or one frame without flags was given to the handler.\<close>

definition takes_in :: "'w frame_handler \<Rightarrow> session_stats \<Rightarrow> 'w \<Rightarrow> session_stats \<Rightarrow> 'w \<Rightarrow> bool" where
  "takes_in handler st w st' w' \<longleftrightarrow> intake st' = intake st \<and> w' = w \<or>
     (\<exists>sid f r. \<not> has_heartbeat_flag f \<and> fr_flags f = 0 \<and> handler sid f w = (r, w') \<and>
        intake st' = (st_frames_received st + 1, st_callback_errors st + of_bool (\<not> is_ok r)))"

lemma session_incoming_takes_in:
  "session_incoming handler sid f st w = (r, st', w') \<Longrightarrow> takes_in handler st w st' w'"
  by (force simp: session_incoming_def takes_in_def Let_def intake_def tick_def split: if_splits prod.splits sum.splits)

lemma session_keepalive_intake:
  "session_keepalive fuel os options mid now c wl st n = Some (r, wl', st', n') \<Longrightarrow> intake st' = intake st"
  by (auto simp: session_keepalive_def Let_def split: if_splits prod.splits sum.splits option.splits)

lemma takes_in_same: "takes_in handler st w st1 w' \<Longrightarrow> intake st' = intake st1 \<Longrightarrow> takes_in handler st w st' w'"
  by (auto simp: takes_in_def)

lemma takes_in_refl: "intake st' = intake st \<Longrightarrow> takes_in handler st w st' w"
  by (simp add: takes_in_def)

lemma session_round_takes_in:
  assumes "session_round fuel pf os options handler mid sid c wl st n w = Some (r, c', wl', st', n', w')"
  shows "takes_in handler st w st' w'"
  using assms
  by (auto simp: session_round_def Let_def split: option.splits prod.splits sum.splits
      dest!: session_keepalive_intake session_incoming_takes_in intro: takes_in_same takes_in_refl)

lemma session_failure_intake [simp]: "intake (session_failure running ex st) = intake st"
  by (auto simp: session_failure_def split: option.splits exn.splits)

lemma session_exit_intake: "session_exit os ex i s m n = (m', n') \<Longrightarrow> intake (sm_stats m') = intake (sm_stats m)"
  by (auto simp: session_exit_def Let_def split: prod.splits if_splits)

lemma session_step_takes_in:
  assumes "session_step fuel pf os handler i m n w = Some (m', n', w')"
  shows "takes_in handler (sm_stats m) w (sm_stats m') w'"
  using assms
  by (auto simp: session_step_def session_body_def Let_def split: session_worker.splits if_splits prod.splits option.splits sum.splits round_end.splits
      dest!: session_exit_intake session_round_takes_in intro: takes_in_same takes_in_refl)

lemma mtick_intake [simp]:
  "(\<And>st. intake (tick field st) = intake st) \<Longrightarrow> intake (sm_stats (mtick field m)) = intake (sm_stats m)"
  by simp

lemma accept_failure_intake [simp]: "intake (sm_stats (accept_failure m)) = intake (sm_stats m)"
  by (simp add: accept_failure_def)

lemma reap_intake [simp]: "sm_stats (reap_finished_sessions m) = sm_stats m"
  by (simp add: reap_finished_sessions_def)

lemma accept_round_intake:
  "accept_round fuel pf os spawn m n = Some (m', n') \<Longrightarrow> intake (sm_stats m') = intake (sm_stats m)"
  by (auto simp: accept_round_def admit_def Let_def split: option.splits sum.splits prod.splits if_splits)

lemma send_one_intake: "send_one fuel os f s m n = Some (ok, m', n') \<Longrightarrow> intake (sm_stats m') = intake (sm_stats m)"
  by (auto dest!: send_one_effect)

lemma broadcast_loop_intake:
  "broadcast_loop fuel os f ss k m n = Some (k', m', n') \<Longrightarrow> intake (sm_stats m') = intake (sm_stats m)"
proof (induction ss arbitrary: k m n)
  case (Cons s ss)
  then obtain ok m1 n1 where "send_one fuel os f s m n = Some (ok, m1, n1)"
    "broadcast_loop fuel os f ss (if ok then k + 1 else k) m1 n1 = Some (k', m', n')"
    by (auto split: option.splits)
  then show ?case using Cons.IH send_one_intake by metis
qed simp

lemma mgr_step_takes_in:
  assumes "mgr_step os handler (m, n, w) (m', n', w)"
  shows "takes_in handler (sm_stats m) w (sm_stats m') w"
  using assms
proof cases
  case (AcceptRound fuel pf spawn)
  then show ?thesis using accept_round_intake by (intro takes_in_refl)
next
  case (SessionStep i fuel pf)
  then show ?thesis using session_step_takes_in [OF SessionStep(2)] by simp
next
  case (SendTo fuel sid f ok)
  then show ?thesis using send_one_intake by (intro takes_in_refl) (auto simp: send_to_def split: option.splits)
next
  case (Broadcast fuel f k)
  then show ?thesis using broadcast_loop_intake by (intro takes_in_refl) (auto simp: broadcast_def)
qed (auto simp: request_stop_def finish_stop_locked_def session_start_def intro!: takes_in_refl split: if_splits option.splits)

section \<open>What the handler does with a frame\<close>

text \<open>The shape of the bus: one topic with one subscription.\<close>

definition imu_bus :: "imu_msg control_block \<Rightarrow> imu_msg topic_bus \<Rightarrow> bool" where
  "imu_bus b s \<longleftrightarrow> bus_accepting s \<and> bus_blocks s = [0 \<mapsto> b] \<and>
     (\<exists>r. map_of (bus_topics s) imu_name = Some r \<and>
        contract r = (mt_type_id imu_traits, mt_schema_hash imu_traits, imu_type) \<and> tr_subscriptions r = [(1, 0)])"

lemma imu_bus_publish:
  assumes bus: "imu_bus b s" and enq: "enqueue m (posts 0) True b = (Inr d, b')"
  shows "\<exists>res s'. publish_remote posts imu_traits imu_type \<lparr>pub_bus = True, pub_topic = imu_name\<rparr> m s = (Inr res, s') \<and> imu_bus b' s'"
proof -
  obtain r where r: "map_of (bus_topics s) imu_name = Some r"
    "contract r = (mt_type_id imu_traits, mt_schema_hash imu_traits, imu_type)" "tr_subscriptions r = [(1, 0)]"
    and s: "bus_accepting s" "bus_blocks s = [0 \<mapsto> b]" using bus by (auto simp: imu_bus_def)
  have valid: "validate_type imu_name r (mt_type_id imu_traits) (mt_schema_hash imu_traits) imu_type = Inr ()"
    using r(2) by (simp add: validate_type_iff)
  have live: "live_subscriptions [0 \<mapsto> b] r = [(1, 0)]" using r(3) by (simp add: live_subscriptions_def)
  let ?s' = "s\<lparr>bus_topics := AList.update imu_name (r\<lparr>tr_subscriptions := [(1, 0)]\<rparr>) (bus_topics s), bus_blocks := [0 \<mapsto> b']\<rparr>"
  have "\<exists>res. publish_remote posts imu_traits imu_type \<lparr>pub_bus = True, pub_topic = imu_name\<rparr> m s = (Inr res, ?s')"
    using r(1) s valid live enq
    by (simp add: publish_remote_def publish_shared_def publish_def Let_def)
  moreover have "imu_bus b' ?s'" using r s by (simp add: imu_bus_def update_conv')
  ultimately show ?thesis by blast
qed

text \<open>The account of a mailbox: everything enqueued is counted by the callback or still on its way, or was dropped.\<close>

definition mailbox_account :: "u64 \<Rightarrow> u64 \<Rightarrow> imu_msg control_block \<Rightarrow> bool" where
  "mailbox_account imported callbacks b \<longleftrightarrow>
     cb_active b \<and> cb_options b = default_options \<and> length (cb_pending b) \<le> 10 \<and> cb_enqueued b = imported \<and> cb_delivered b = callbacks \<and>
     imported = callbacks + cb_in_flight b + of_nat (length (cb_pending b)) + cb_dropped_oldest b + cb_executor_rejected b"

lemma mailbox_enqueue:
  assumes "mailbox_account imported callbacks b" and "posts 0 = Inr posted"
  shows "\<exists>d b'. enqueue m (posts 0) True b = (Inr d, b') \<and> mailbox_account (imported + 1) callbacks b'"
proof -
  have "cb_pending b = [] \<Longrightarrow> \<not> length (cb_pending b) \<ge> 10" by simp
  then show ?thesis using assms
    by (cases "cb_pending b"; cases "cb_scheduled b"; cases posted)
      (auto simp: mailbox_account_def enqueue_def block_ops default_options_def)
qed

lemma mailbox_drain:
  assumes "mailbox_account imported callbacks b"
  shows "drain_begin tid b = (r, b') \<Longrightarrow> mailbox_account imported callbacks b'"
    and "mailbox_account imported (callbacks + 1) (drain_end False b)"
  using assms by (auto simp: mailbox_account_def block_ops split: list.splits if_splits)

definition imu_route :: "(nat \<Rightarrow> bool result) \<Rightarrow> imu_msg topic_bus import_route" where
  "imu_route posts = \<lparr>ir_type_id = mt_type_id imu_traits, ir_schema_hash = mt_schema_hash imu_traits,
     ir_handler = import_handler posts id imu_traits imu_type \<lparr>pub_bus = True, pub_topic = imu_name\<rparr> imu_name\<rparr>"

definition srv_ok :: "(nat \<Rightarrow> bool result) \<Rightarrow> session_manager \<Rightarrow> server_world \<Rightarrow> bool" where
  "srv_ok posts m w \<longleftrightarrow>
     \<not> br_stopped (sw_bridge w) \<and> br_imports (sw_bridge w) = [(imu_name, imu_route posts)] \<and>
     q_items (br_outbound (sw_bridge w)) = [] \<and> bs_heartbeats_received (br_stats (sw_bridge w)) = 0 \<and>
     intake (sm_stats m) = (received (br_stats (sw_bridge w)), 0) \<and>
     (\<exists>b. imu_bus b (sw_bus w) \<and> mailbox_account (bs_imported (br_stats (sw_bridge w))) (sw_received w) b)"

lemma server_handler_ok:
  assumes ok: "srv_ok posts m w" and posts: "posts 0 = Inr posted"
    and f: "\<not> has_heartbeat_flag f" "fr_flags f = 0" and handler: "server_handler sid f w = (r, w')"
    and stats: "intake (sm_stats m') = (st_frames_received (sm_stats m) + 1, st_callback_errors (sm_stats m) + of_bool (\<not> is_ok r))"
  shows "srv_ok posts m' w'"
proof -
  let ?br = "sw_bridge w"
  obtain ok1 br1 s1 where receive: "bridge_receive f ?br (sw_bus w) = (ok1, br1, s1)" by (cases "bridge_receive f ?br (sw_bus w)") auto
  have w': "w' = w\<lparr>sw_bridge := br1, sw_bus := s1\<rparr>" and r: "r = Inr ()" using handler receive by (auto simp: server_handler_def)
  obtain b where bus: "imu_bus b (sw_bus w)" and account: "mailbox_account (bs_imported (br_stats ?br)) (sw_received w) b"
    using ok by (auto simp: srv_ok_def)
  have counted: "received (br_stats br1) = received (br_stats ?br) + 1"
    using bridge_receive_counts(1) [OF _ receive] ok by (simp add: srv_ok_def)
  have rest: "br_stopped br1 = br_stopped ?br \<and> br_imports br1 = br_imports ?br \<and> br_outbound br1 = br_outbound ?br \<and>
      bs_heartbeats_received (br_stats br1) = bs_heartbeats_received (br_stats ?br)"
    using receive f by (auto simp: bridge_receive_def count_def Let_def split: if_splits option.splits prod.splits sum.splits)
  have "\<exists>b'. imu_bus b' s1 \<and> mailbox_account (bs_imported (br_stats br1)) (sw_received w) b'"
  proof (cases "s1 = sw_bus w \<and> bs_imported (br_stats br1) = bs_imported (br_stats ?br)")
    case True
    then show ?thesis using bus account by auto
  next
    case False
    have import: "import_handler posts id imu_traits imu_type \<lparr>pub_bus = True, pub_topic = imu_name\<rparr> imu_name f (sw_bus w) = (Inr (), s1)
        \<and> bs_imported (br_stats br1) = bs_imported (br_stats ?br) + 1 \<or>
      (\<exists>e. import_handler posts id imu_traits imu_type \<lparr>pub_bus = True, pub_topic = imu_name\<rparr> imu_name f (sw_bus w) = (Inl e, s1))
        \<and> bs_imported (br_stats br1) = bs_imported (br_stats ?br)"
      using False receive f ok
      by (auto simp: bridge_receive_def srv_ok_def imu_route_def count_def Let_def split: if_splits option.splits prod.splits sum.splits)
    show ?thesis
    proof (cases "deserialize_frame imu_traits f imu_name")
      case (Inl e)
      then show ?thesis using import False by (auto simp: import_handler_def)
    next
      case (Inr message)
      obtain d b' where enq: "enqueue message (posts 0) True b = (Inr d, b')"
        "mailbox_account (bs_imported (br_stats ?br) + 1) (sw_received w) b'" using mailbox_enqueue [where posts = posts, OF account posts] by blast
      obtain res s' where "publish_remote posts imu_traits imu_type \<lparr>pub_bus = True, pub_topic = imu_name\<rparr> message (sw_bus w) = (Inr res, s')"
        "imu_bus b' s'" using imu_bus_publish [where posts = posts, OF bus enq(1)] by blast
      then show ?thesis using import Inr enq(2) by (auto simp: import_handler_def)
    qed
  qed
  then show ?thesis using ok counted rest stats by (simp add: srv_ok_def w' r intake_def)
qed

lemma takes_in_ok:
  assumes "takes_in server_handler (sm_stats m) w (sm_stats m') w'" and "srv_ok posts m w" and "posts 0 = Inr posted"
  shows "srv_ok posts m' w'"
  using assms(1) unfolding takes_in_def
proof (elim disjE exE conjE)
  assume "intake (sm_stats m') = intake (sm_stats m)" "w' = w"
  then show ?thesis using assms(2) by (simp add: srv_ok_def)
qed (use server_handler_ok [OF assms(2,3)] in blast)

lemma srv_step_ok:
  assumes "srv_step os (m, n, w) (m', n', w')" and ok: "srv_ok posts m w" and "posts 0 = Inr posted"
  shows "srv_ok posts m' w'"
  using assms(1)
proof cases
  case (Session i fuel pf)
  then show ?thesis using takes_in_ok [OF session_step_takes_in [OF Session(2)] ok assms(3)] by simp
next
  case Manager
  then show ?thesis using takes_in_ok [OF mgr_step_takes_in [OF Manager(2)] ok assms(3)] by simp
next
  case (DrainBegin h b tid next_message b')
  have h: "imu_bus b (sw_bus w)" "h = 0" "mailbox_account (bs_imported (br_stats (sw_bridge w))) (sw_received w) b"
    using ok DrainBegin(4) by (auto simp: srv_ok_def imu_bus_def split: if_splits)
  then have "imu_bus b' (sw_bus w')" using DrainBegin(3) by (auto simp: imu_bus_def set_block_def)
  then show ?thesis using ok DrainBegin(1,3) mailbox_drain(1) [OF h(3) DrainBegin(7)] by (auto simp: srv_ok_def set_block_def)
next
  case (Callback h b)
  have h: "imu_bus b (sw_bus w)" "h = 0" "mailbox_account (bs_imported (br_stats (sw_bridge w))) (sw_received w) b"
    using ok Callback(4) by (auto simp: srv_ok_def imu_bus_def split: if_splits)
  then have "imu_bus (drain_end False b) (sw_bus w')" using Callback(3) by (auto simp: imu_bus_def set_block_def server_callback_def)
  then show ?thesis using ok Callback(1,3) mailbox_drain(2) [OF h(3)] by (auto simp: srv_ok_def set_block_def server_callback_def)
next
  case (Sender sender expired br)
  have "q_items (br_outbound (sw_bridge w)) = []" using ok by (simp add: srv_ok_def)
  then have "br = sw_bridge w" "m' = m"
    using Sender(3) by (auto simp: manual_sender_round_def wait_pop_for_def split: if_splits)
  then show ?thesis using ok Sender(1) by simp
qed

lemma bridge_server_setup_ok:
  assumes "bridge_server_setup os posts spawn t h config n = Some (Inr (m, n', w))"
  shows "srv_ok posts m w" and "mgr_reach os server_handler (m, n', w)" and "sw_received w = 0"
proof -
  obtain w0 where w0: "server_world_new posts t h = Inr w0" using assms by (auto simp: bridge_server_setup_def split: sum.splits)
  obtain m0 n0 where m0: "session_manager_new os (sc_bind_address config) (sc_port config) True default_session_options n = (Inr m0, n0)"
    using assms w0 by (auto simp: bridge_server_setup_def split: sum.splits prod.splits)
  obtain br where br: "set_frame_sender (fst spawn) True (sw_bridge w0) = (Inr (), br)"
    using assms w0 m0 by (auto simp: bridge_server_setup_def split: sum.splits prod.splits)
  have start: "session_start os False (snd spawn) m0 n0 = Some (Inr (), m, n')" and w: "w = w0\<lparr>sw_bridge := br\<rparr>"
    using assms w0 m0 br by (auto simp: bridge_server_setup_def split: sum.splits prod.splits option.splits)
  show "mgr_reach os server_handler (m, n', w)"
    by (rule mgr_reach.Step [OF mgr_reach.Made [OF m0] mgr_step.Start [OF start]])
  have "intake (sm_stats m) = (0, 0)"
    using m0 start
    by (auto simp: session_manager_new_def session_start_def finish_stop_locked_def zero_session_stats_def intake_def Let_def
        split: sum.splits prod.splits if_splits option.splits)
  moreover have "br_imports (sw_bridge w0) = [(imu_name, imu_route posts)] \<and> \<not> br_stopped (sw_bridge w0) \<and>
      q_items (br_outbound (sw_bridge w0)) = [] \<and> br_stats (sw_bridge w0) = zero_stats \<and>
      (\<exists>b. imu_bus b (sw_bus w0) \<and> mailbox_account 0 0 b) \<and> sw_received w0 = 0"
    using w0
    by (auto simp: server_world_new_def topic_bus_new_def bridge_new_def default_bridge_options_def import_topic_def
        require_configurable_def create_publisher_def require_initialized_def advertise_def validate_topic_def imu_name_def
        add_import_def create_subscription_def subscribe_def control_block_new_def subscribe_locked_def validate_type_def
        new_record_def add_subscription_def imu_route_def imu_bus_def contract_def mailbox_account_def ts_queue_new_def
        default_options_def Let_def split: sum.splits prod.splits if_splits)
  ultimately show "srv_ok posts m w" "sw_received w = 0"
    using br by (auto simp: srv_ok_def w set_frame_sender_def enter_mode_def require_configurable_def zero_stats_def received_def
        split: if_splits)
qed

text \<open>The server is a run of the session manager, so everything that holds of the manager holds of it.\<close>

lemma srv_reach_mgr: "srv_reach os posts s \<Longrightarrow> mgr_reach os server_handler s"
proof (induction rule: srv_reach.induct)
  case (Start spawn t h config n s)
  then show ?case using bridge_server_setup_ok(2) by (metis prod_cases3)
next
  case (Step s s')
  from Step.hyps(2) show ?case
  proof cases
    case (Sender sender m n expired w br m' n')
    have "mgr_reach os server_handler (m', n', w)"
    proof (cases "m' = m \<and> n' = n")
      case True
      then show ?thesis using Step.IH Sender(1) by simp
    next
      case False
      then obtain f where "sender f (m, n) = (Inr (), m', n')"
        using Sender(3,4) by (auto simp: manual_sender_round_def broadcasts_def split: option.splits prod.splits sum.splits)
          (metis Pair_inject sum.distinct(1))+
      then obtain fuel k where sent: "broadcast fuel os f m n = Some (k, m', n')"
        using Sender(3) by (auto simp: broadcasts_def) (metis Pair_inject)
      have "mgr_step os server_handler (m, n, w) (m', n', w)" by (rule mgr_step.Broadcast [OF sent])
      then show ?thesis using mgr_reach.Step Step.IH Sender(1) by metis
    qed
    then show ?thesis unfolding Sender(2) by (rule mgr_reach.Step [OF _ mgr_step.Environment])
  next
    case (Session i m fuel pf n w m' n' w')
    show ?thesis using mgr_reach.Step [OF Step.IH [unfolded Session(1)] mgr_step.SessionStep [OF Session(3,4)]] Session(2) by simp
  next
    case (Manager m n w m' n')
    show ?thesis using mgr_reach.Step [OF Step.IH [unfolded Manager(1)] Manager(3)] Manager(2) by simp
  next
    case (DrainBegin w h b tid next_message b' m n)
    show ?thesis unfolding DrainBegin(2) by (rule mgr_reach.Step [OF Step.IH [unfolded DrainBegin(1)] mgr_step.Environment])
  next
    case (Callback w h b m n)
    show ?thesis unfolding Callback(2) by (rule mgr_reach.Step [OF Step.IH [unfolded Callback(1)] mgr_step.Environment])
  qed
qed

lemma srv_reach_ok:
  assumes "posts 0 = Inr posted"
  shows "srv_reach os posts s \<Longrightarrow> srv_ok posts (fst s) (snd (snd s))"
proof (induction rule: srv_reach.induct)
  case (Start spawn t h config n s)
  then show ?case using bridge_server_setup_ok(1) by (metis fst_conv snd_conv prod_cases3)
next
  case (Step s s')
  then show ?case using srv_step_ok [where posts = posts, OF _ _ assms] by (cases s; cases s') auto
qed

text \<open>C8: The whole server accounts for every frame, from the socket to the application's callback, whatever the
  clients send and however the threads interleave: no frame ever makes the handler fail; every frame the
  sessions accept is imported or counted as rejected, duplicate or of unknown topic; and every imported
  message has reached the callback, is in it, waits in the mailbox, or is counted as dropped for a newer one
  or as refused by the executor (all modulo \<open>2 ^ 64\<close>). The clients are accounted for as in any session manager.\<close>

theorem bridge_server_accounts:
  assumes "srv_reach os posts (m, n, w)" and "posts 0 = Inr posted"
  shows "st_callback_errors (sm_stats m) = 0 \<and>
    (let st = br_stats (sw_bridge w)
     in st_frames_received (sm_stats m) =
          bs_imported st + bs_rejected_frames st + bs_duplicate_frames st + bs_unknown_topic st \<and>
        (\<exists>b. bus_blocks (sw_bus w) 0 = Some b \<and>
           bs_imported st = sw_received w + cb_in_flight b + of_nat (length (cb_pending b)) + cb_dropped_oldest b +
             cb_executor_rejected b)) \<and>
    mgr_ok m"
proof -
  have "srv_ok posts m w" using srv_reach_ok [OF assms(2,1)] by simp
  moreover have "mgr_ok m" using mgr_reach_ok [OF srv_reach_mgr [OF assms(1)]] by simp
  ultimately show ?thesis
    by (auto simp: srv_ok_def intake_def received_def imu_bus_def mailbox_account_def Let_def)
qed

definition bridge_server_config0 :: bridge_server_config where
  "bridge_server_config0 = \<lparr>sc_port = 7600, sc_expected = 200, sc_bind_address = ''127.0.0.1''\<rparr>"

lemma server_world0:
  "\<exists>w. server_world_new (\<lambda>h. Inr True) 1 2 = Inr w \<and> \<not> br_stopped (sw_bridge w) \<and>
     br_transport_mode (sw_bridge w) = Unconfigured \<and> br_highest_sequences (sw_bridge w) = [] \<and>
     bs_imported (br_stats (sw_bridge w)) = 0 \<and> (\<exists>b. bus_blocks (sw_bus w) 0 = Some b \<and> cb_pending b = [])"
  by (simp add: server_world_new_def topic_bus_new_def bridge_new_def default_bridge_options_def import_topic_def
      require_configurable_def create_publisher_def require_initialized_def advertise_def validate_topic_def imu_name_def
      add_import_def create_subscription_def subscribe_def control_block_new_def subscribe_locked_def validate_type_def
      new_record_def default_options_def Let_def zero_stats_def)

lemma bridge_server_setup_from:
  assumes "session_manager_new os ''127.0.0.1'' 7600 True default_session_options n = (Inr m0, n0)"
    and "session_start os False True m0 n0 = Some (Inr (), m, n1)"
  shows "\<exists>w. bridge_server_setup os (\<lambda>h. Inr True) (True, True) 1 2 bridge_server_config0 n = Some (Inr (m, n1, w)) \<and>
    br_highest_sequences (sw_bridge w) = [] \<and> bs_imported (br_stats (sw_bridge w)) = 0 \<and>
    (\<exists>b. bus_blocks (sw_bus w) 0 = Some b \<and> cb_pending b = [])"
  using server_world0 assms
  by (auto simp: bridge_server_setup_def bridge_server_config0_def set_frame_sender_def enter_mode_def require_configurable_def)

theorem bridge_server_accounts_witness:
  "\<exists>m n w. srv_reach os0 (\<lambda>h. Inr True) (m, n, w) \<and> st_callback_errors (sm_stats m) = 0"
proof -
  have manager: "session_manager_new os0 ''127.0.0.1'' 7600 True default_session_options {} = (Inr manager0, {3})"
    by (simp add: session_manager_new_def tcp_server_new_def validate_session_options_def tcp_server_local_port_def
        socket_local_port_def manager_eval)
  obtain m1 where started: "session_start os0 False True manager0 {3} = Some (Inr (), m1, {3})"
    by (simp add: session_start_def finish_stop_locked_def manager_eval)
  obtain m n w where
    made: "bridge_server_setup os0 (\<lambda>h. Inr True) (True, True) 1 2 bridge_server_config0 {} = Some (Inr (m, n, w))"
    using bridge_server_setup_from [OF manager started] by auto
  have reach: "srv_reach os0 (\<lambda>h. Inr True) (m, n, w)" by (rule srv_reach.Start [OF made])
  show ?thesis using bridge_server_accounts [OF reach refl] reach by blast
qed

end
