(* ===== verification/Rml_Bridge_Thread.thy ===== *)
theory Rml_Bridge_Thread
  imports Rml_Bridge Rml_Channel
begin

text \<open>
  The thread of the bridge's TCP client (\<^verbatim>\<open>NetworkBridge::client_loop\<close>), in the steps in which it interleaves with the
  other threads of a program: one frame sent, one call of \<^verbatim>\<open>receive_frame\<close> with what follows from it, one
  heartbeat. \<open>Rml_Bridge\<close> gives the same loop as one function; here it is shown that the steps compose to it.
\<close>

section \<open>State\<close>

text \<open>Where the thread is. The sessions carry the variables of the inner loop; \<open>CClean\<close> knows whether there is a
  connection, and how the attempt ended.\<close>

datatype client_at =
    CTest
  | CConnect
  | CInner client_session
  | CBatch nat client_session
  | CReceive client_session
  | CBeat int client_session
  | CIdle int client_session
  | CClean bool "unit result"
  | CPause
  | CDone

text \<open>\<open>ct_wires\<close> (the frames sent on each connection, the latest first) and \<open>ct_sent\<close> (the frames sent from the
  outbound queue) are history.\<close>

record ('n, 'w) client_thread =
  ct_at :: client_at
  ct_backoff :: int
  ct_before :: bool
  ct_bridge :: "'w bridge"
  ct_net :: 'n
  ct_world :: 'w
  ct_wires :: "frame list list"
  ct_sent :: "frame list"

definition client_thread_new :: "reconnect_options \<Rightarrow> 'w bridge \<Rightarrow> 'n \<Rightarrow> 'w \<Rightarrow> ('n, 'w) client_thread" where
  "client_thread_new options br n w =
     \<lparr>ct_at = CTest, ct_backoff = ro_initial_backoff options, ct_before = False, ct_bridge = br, ct_net = n, ct_world = w,
      ct_wires = [], ct_sent = []\<rparr>"

fun on_wire :: "frame \<Rightarrow> frame list list \<Rightarrow> frame list list" where
  "on_wire f [] = [[f]]"
| "on_wire f (wire # wires) = (wire @ [f]) # wires"

section \<open>Steps\<close>

definition leave_session :: "client_session \<Rightarrow> unit result \<Rightarrow> ('n, 'w) client_thread \<Rightarrow> ('n, 'w) client_thread" where
  "leave_session cs r t = t\<lparr>ct_at := CClean True r, ct_backoff := cs_backoff cs\<rparr>"

definition connect_step :: "'n link \<Rightarrow> reconnect_options \<Rightarrow> ('n, 'w) client_thread \<Rightarrow> ('n, 'w) client_thread" where
  "connect_step lk options t =
     (let br0 = count bs_connect_attempts_update (ct_bridge t)
      in (case lk_connect lk (ct_net t) of
            (Inl e, n1) \<Rightarrow> t\<lparr>ct_at := CClean False (Inl e), ct_bridge := br0, ct_net := n1\<rparr>
          | (Inr _, n1) \<Rightarrow>
              let br1 = count bs_successful_connections_update
                    (br0\<lparr>br_stats := (br_stats br0)\<lparr>bs_connected := True\<rparr>\<rparr>);
                  br2 = (if ct_before t then count bs_reconnects_update br1 else br1);
                  now = lk_now lk n1
              in t\<lparr>ct_at := CInner \<lparr>cs_last_receive = now,
                     cs_next_heartbeat = now + ms (ro_heartbeat_interval options),
                     cs_heartbeat_sequence = 0, cs_healthy = False, cs_backoff = ct_backoff t\<rparr>,
                   ct_before := True, ct_bridge := br2, ct_net := n1, ct_wires := [] # ct_wires t\<rparr>))"

definition batch_step ::
  "'n link \<Rightarrow> nat \<Rightarrow> client_session \<Rightarrow> ('n, 'w) client_thread \<Rightarrow> ('n, 'w) client_thread" where
  "batch_step lk k cs t =
     (case try_pop (br_outbound (ct_bridge t)) of
        (None, q) \<Rightarrow> t\<lparr>ct_at := CReceive cs\<rparr>
      | (Some f, q) \<Rightarrow>
          let t1 = t\<lparr>ct_bridge := (ct_bridge t)\<lparr>br_outbound := q\<rparr>\<rparr>
          in (case lk_send lk f (ct_net t) of
                (Inl e, n1) \<Rightarrow> leave_session cs (Inl e) (t1\<lparr>ct_net := n1\<rparr>)
              | (Inr _, n1) \<Rightarrow> t1\<lparr>ct_at := CBatch k cs, ct_bridge := count bs_frames_sent_update (ct_bridge t1),
                  ct_net := n1, ct_wires := on_wire f (ct_wires t), ct_sent := ct_sent t @ [f]\<rparr>))"

definition receive_step ::
  "'n link \<Rightarrow> reconnect_options \<Rightarrow> client_session \<Rightarrow> ('n, 'w) client_thread \<Rightarrow> ('n, 'w) client_thread" where
  "receive_step lk options cs t =
     (case lk_receive lk (ct_net t) of
        (Inl e, n1) \<Rightarrow> leave_session cs (Inl e) (t\<lparr>ct_net := n1\<rparr>)
      | (Inr incoming, n1) \<Rightarrow>
          let now = lk_now lk n1
          in (case incoming of
                None \<Rightarrow> t\<lparr>ct_at := CBeat now cs, ct_net := n1\<rparr>
              | Some f \<Rightarrow> (case client_incoming f (ct_bridge t) (ct_world t) of
                    (Inl e, br1, w1) \<Rightarrow> leave_session cs (Inl e) (t\<lparr>ct_net := n1, ct_bridge := br1, ct_world := w1\<rparr>)
                  | (Inr _, br1, w1) \<Rightarrow>
                      t\<lparr>ct_at := CBeat now (cs\<lparr>cs_last_receive := now, cs_healthy := True,
                           cs_backoff := (if \<not> cs_healthy cs then ro_initial_backoff options else cs_backoff cs)\<rparr>),
                        ct_net := n1, ct_bridge := br1, ct_world := w1\<rparr>)))"

definition beat_step ::
  "'n link \<Rightarrow> reconnect_options \<Rightarrow> int \<Rightarrow> client_session \<Rightarrow> ('n, 'w) client_thread \<Rightarrow> ('n, 'w) client_thread" where
  "beat_step lk options now cs t =
     (if now \<ge> cs_next_heartbeat cs
      then (let f = make_heartbeat_frame (br_publisher_id (ct_bridge t)) (cs_heartbeat_sequence cs)
                  (of_int (lk_now lk (ct_net t)));
                cs1 = cs\<lparr>cs_heartbeat_sequence := cs_heartbeat_sequence cs + 1\<rparr>
            in (case lk_send lk f (ct_net t) of
                  (Inl e, n1) \<Rightarrow> leave_session cs1 (Inl e) (t\<lparr>ct_net := n1\<rparr>)
                | (Inr _, n1) \<Rightarrow>
                    t\<lparr>ct_at := CIdle now (cs1\<lparr>cs_next_heartbeat := now + ms (ro_heartbeat_interval options)\<rparr>),
                      ct_bridge := count bs_heartbeats_sent_update (ct_bridge t), ct_net := n1,
                      ct_wires := on_wire f (ct_wires t)\<rparr>))
      else t\<lparr>ct_at := CIdle now cs\<rparr>)"

definition client_thread_step ::
  "'n link \<Rightarrow> (int \<Rightarrow> 'n \<Rightarrow> 'n) \<Rightarrow> reconnect_options \<Rightarrow> ('n, 'w) client_thread \<Rightarrow> ('n, 'w) client_thread" where
  "client_thread_step lk wait options t =
     (let br = ct_bridge t; n = ct_net t
      in (case ct_at t of
            CTest \<Rightarrow> if lk_running lk n then t\<lparr>ct_at := CConnect\<rparr>
              else t\<lparr>ct_at := CDone, ct_bridge := br\<lparr>br_stats := (br_stats br)\<lparr>bs_connected := False\<rparr>\<rparr>\<rparr>
          | CConnect \<Rightarrow> connect_step lk options t
          | CInner cs \<Rightarrow> if lk_running lk n then t\<lparr>ct_at := CBatch 64 cs\<rparr> else leave_session cs (Inr ()) t
          | CBatch 0 cs \<Rightarrow> t\<lparr>ct_at := CReceive cs\<rparr>
          | CBatch (Suc k) cs \<Rightarrow> batch_step lk k cs t
          | CReceive cs \<Rightarrow> receive_step lk options cs t
          | CBeat now cs \<Rightarrow> beat_step lk options now cs t
          | CIdle now cs \<Rightarrow>
              if now - cs_last_receive cs \<ge> ms (ro_idle_timeout options)
              then leave_session cs (Inl (TransportError ''bridge TCP peer heartbeat timed out'')) t
              else t\<lparr>ct_at := CInner cs\<rparr>
          | CClean up r \<Rightarrow> t\<lparr>ct_at := CPause, ct_bridge := client_cleanup lk r br n,
              ct_net := (if up then lk_close lk n else n)\<rparr>
          | CPause \<Rightarrow>
              if lk_running lk n
              then t\<lparr>ct_at := CTest, ct_net := wait (ct_backoff t) n,
                 ct_backoff := doubled_backoff (ct_backoff t) (ro_maximum_backoff options)\<rparr>
              else t\<lparr>ct_at := CTest\<rparr>
          | CDone \<Rightarrow> t))"

section \<open>The steps make up the loop\<close>

abbreviation client_thread_at where
  "client_thread_at pc backoff before br n w wires sent \<equiv>
     \<lparr>ct_at = pc, ct_backoff = backoff, ct_before = before, ct_bridge = br, ct_net = n, ct_world = w, ct_wires = wires,
      ct_sent = sent\<rparr>"

text \<open>A number of steps leads from one state to another, whatever happens to the history.\<close>

definition thread_core :: "('n, 'w) client_thread \<Rightarrow> client_at \<times> int \<times> bool \<times> 'w bridge \<times> 'n \<times> 'w" where
  "thread_core t = (ct_at t, ct_backoff t, ct_before t, ct_bridge t, ct_net t, ct_world t)"

lemma thread_core_at [simp]:
  "thread_core (client_thread_at pc backoff before br n w wires sent) = (pc, backoff, before, br, n, w)"
  by (simp add: thread_core_def)

inductive thread_runs ::
  "'n link \<Rightarrow> (int \<Rightarrow> 'n \<Rightarrow> 'n) \<Rightarrow> reconnect_options \<Rightarrow> ('n, 'w) client_thread \<Rightarrow>
   client_at \<times> int \<times> bool \<times> 'w bridge \<times> 'n \<times> 'w \<Rightarrow> bool"
  for lk :: "'n link" and wait :: "int \<Rightarrow> 'n \<Rightarrow> 'n" and options where
  Here: "thread_core t = goal \<Longrightarrow> thread_runs lk wait options t goal"
| Next: "thread_runs lk wait options (client_thread_step lk wait options t) goal \<Longrightarrow> thread_runs lk wait options t goal"

lemma thread_runs_trans:
  "thread_runs lk wait options t goal \<Longrightarrow> goal = (pc, backoff, before, br, n, w) \<Longrightarrow>
   (\<And>wires sent. thread_runs lk wait options (client_thread_at pc backoff before br n w wires sent) goal') \<Longrightarrow>
   thread_runs lk wait options t goal'"
proof (induction rule: thread_runs.induct)
  case (Here t goal)
  then have "t = client_thread_at pc backoff before br n w (ct_wires t) (ct_sent t)" by (simp add: thread_core_def)
  then show ?case using Here.prems(2) by metis
next
  case (Next t goal)
  then show ?case by (blast intro: thread_runs.Next)
qed

lemma thread_runs_one:
  "thread_core (client_thread_step lk wait options t) = goal \<Longrightarrow> thread_runs lk wait options t goal"
  by (rule thread_runs.Next, rule thread_runs.Here)

lemmas thread_step_defs = client_thread_step_def batch_step_def receive_step_def beat_step_def connect_step_def leave_session_def

lemma batch_runs:
  "send_batch lk k br n = (r, br', n') \<Longrightarrow>
   thread_runs lk wait options (client_thread_at (CBatch k cs) backoff before br n w wires sent)
     (case r of Inl e \<Rightarrow> (CClean True (Inl e), cs_backoff cs, before, br', n', w)
      | Inr _ \<Rightarrow> (CReceive cs, backoff, before, br', n', w))"
proof (induction k arbitrary: br n wires sent)
  case 0
  then show ?case by (auto intro!: thread_runs_one simp: client_thread_step_def)
next
  case (Suc k)
  obtain fo q where pop: "try_pop (br_outbound br) = (fo, q)" by force
  show ?case
  proof (cases fo)
    case None
    then show ?thesis using Suc.prems pop by (auto intro!: thread_runs_one simp: thread_step_defs)
  next
    case (Some f)
    obtain r1 n1 where send: "lk_send lk f n = (r1, n1)" by force
    show ?thesis
    proof (cases r1)
      case (Inl e)
      then show ?thesis using Suc.prems pop Some send by (auto intro!: thread_runs_one simp: thread_step_defs)
    next
      case (Inr u)
      then have "send_batch lk k (count bs_frames_sent_update (br\<lparr>br_outbound := q\<rparr>)) n1 = (r, br', n')"
        using Suc.prems pop Some send by simp
      from Suc.IH [OF this, of "on_wire f wires" "sent @ [f]"] show ?thesis using pop Some send Inr
        by - (rule thread_runs.Next, simp add: thread_step_defs)
    qed
  qed
qed

lemma idle_runs:
  "thread_runs lk wait options (client_thread_at (CIdle now cs) backoff before br n w wires sent)
     (if now - cs_last_receive cs \<ge> ms (ro_idle_timeout options)
      then (CClean True (Inl (TransportError ''bridge TCP peer heartbeat timed out'')), cs_backoff cs, before, br, n, w)
      else (CInner cs, backoff, before, br, n, w))"
  by (auto intro!: thread_runs_one simp: thread_step_defs)

lemma keepalive_runs:
  assumes "client_keepalive lk options now cs br n = (r, cs', br', n')"
  shows "thread_runs lk wait options (client_thread_at (CBeat now cs) backoff before br n w wires sent)
     (case r of Inl e \<Rightarrow> (CClean True (Inl e), cs_backoff cs', before, br', n', w)
      | Inr _ \<Rightarrow> (CInner cs', backoff, before, br', n', w))"
proof -
  let ?f = "make_heartbeat_frame (br_publisher_id br) (cs_heartbeat_sequence cs) (of_int (lk_now lk n))"
  obtain r1 n1 where send: "lk_send lk ?f n = (r1, n1)" by force
  consider (quiet) "\<not> now \<ge> cs_next_heartbeat cs" | (failed) e where "now \<ge> cs_next_heartbeat cs" "r1 = Inl e"
    | (beat) "now \<ge> cs_next_heartbeat cs" "r1 = Inr ()" by (cases r1) auto
  then show ?thesis
  proof cases
    case quiet
    then show ?thesis using assms idle_runs [of lk wait options now cs backoff before br n w wires sent]
      by - (rule thread_runs.Next, auto simp: client_keepalive_def thread_step_defs split: if_splits)
  next
    case failed
    then show ?thesis using assms send
      by (auto intro!: thread_runs_one simp: client_keepalive_def thread_step_defs)
  next
    case beat
    let ?cs = "cs\<lparr>cs_heartbeat_sequence := cs_heartbeat_sequence cs + 1, cs_next_heartbeat := now + ms (ro_heartbeat_interval options)\<rparr>"
    have "client_thread_step lk wait options (client_thread_at (CBeat now cs) backoff before br n w wires sent) =
        client_thread_at (CIdle now ?cs) backoff before (count bs_heartbeats_sent_update br) n1 w (on_wire ?f wires) sent"
      using send beat by (simp add: thread_step_defs)
    moreover have "client_keepalive lk options now cs br n =
        (if now - cs_last_receive ?cs \<ge> ms (ro_idle_timeout options)
         then (Inl (TransportError ''bridge TCP peer heartbeat timed out''), ?cs, count bs_heartbeats_sent_update br, n1)
         else (Inr (), ?cs, count bs_heartbeats_sent_update br, n1))"
      using send beat by (simp add: client_keepalive_def)
    ultimately show ?thesis
      using assms idle_runs [of lk wait options now ?cs backoff before "count bs_heartbeats_sent_update br" n1 w "on_wire ?f wires" sent]
      by - (rule thread_runs.Next, simp split: if_splits)
  qed
qed

lemma round_runs:
  assumes running: "lk_running lk n" and round: "client_round lk options cs br n w = (r, cs', br', n', w')"
  shows "\<exists>backoff'. thread_runs lk wait options (client_thread_at (CInner cs) backoff before br n w wires sent)
     (case r of Inl e \<Rightarrow> (CClean True (Inl e), cs_backoff cs', before, br', n', w')
      | Inr _ \<Rightarrow> (CInner cs', backoff', before, br', n', w'))"
proof -
  obtain rb br1 n1 where batch: "send_batch lk 64 br n = (rb, br1, n1)" by (cases "send_batch lk 64 br n") auto
  have start: "thread_runs lk wait options (client_thread_at (CInner cs) backoff before br n w wires sent)
     (case rb of Inl e \<Rightarrow> (CClean True (Inl e), cs_backoff cs, before, br1, n1, w) | Inr _ \<Rightarrow> (CReceive cs, backoff, before, br1, n1, w))"
    using running batch_runs [OF batch, of wait options cs backoff before w wires sent]
    by - (rule thread_runs.Next, simp add: client_thread_step_def)
  show ?thesis
  proof (cases rb)
    case (Inl e)
    then show ?thesis using start batch round by (auto simp: client_round_def)
  next
    case (Inr u)
    then have to_receive: "thread_runs lk wait options (client_thread_at (CInner cs) backoff before br n w wires sent)
        (CReceive cs, backoff, before, br1, n1, w)" using start by simp
    obtain ri n2 where recv: "lk_receive lk n1 = (ri, n2)" by force
    have via: "thread_runs lk wait options (client_thread_at (CInner cs) backoff before br n w wires sent) goal"
      if "\<And>wires sent. thread_runs lk wait options (receive_step lk options cs (client_thread_at (CReceive cs) backoff before br1 n1 w wires sent)) goal"
      for goal
      using that by (intro thread_runs_trans [OF to_receive refl]) (rule thread_runs.Next, simp add: client_thread_step_def)
    show ?thesis
    proof (cases ri rule: result_option_cases)
      case (1 e)
      then show ?thesis using round batch Inr recv
        by (intro exI via) (auto intro!: thread_runs.Here simp: client_round_def receive_step_def leave_session_def)
    next
      case 2
      obtain rk cs1 br2 n3 where keep: "client_keepalive lk options (lk_now lk n2) cs br1 n2 = (rk, cs1, br2, n3)"
        by (metis prod_cases4)
      show ?thesis using round batch Inr recv 2 keep keepalive_runs [OF keep]
        by (intro exI via) (auto simp: client_round_def receive_step_def Let_def)
    next
      case (3 f)
      obtain rin br2 w1 where incoming: "client_incoming f br1 w = (rin, br2, w1)" by (cases "client_incoming f br1 w") auto
      let ?cs = "cs\<lparr>cs_last_receive := lk_now lk n2, cs_healthy := True,
          cs_backoff := (if \<not> cs_healthy cs then ro_initial_backoff options else cs_backoff cs)\<rparr>"
      obtain rk cs1 br3 n3 where keep: "client_keepalive lk options (lk_now lk n2) ?cs br2 n2 = (rk, cs1, br3, n3)"
        by (metis prod_cases4)
      show ?thesis
      proof (cases rin)
        case (Inl e)
        then show ?thesis using round batch Inr recv 3 incoming
          by (intro exI via) (auto intro!: thread_runs.Here simp: client_round_def receive_step_def leave_session_def Let_def)
      next
        case (Inr u')
        then show ?thesis using round batch \<open>rb = Inr u\<close> recv 3 incoming keep keepalive_runs [OF keep]
          by (intro exI via) (auto simp: client_round_def receive_step_def Let_def)
      qed
    qed
  qed
qed

lemma rounds_run:
  "client_rounds fuel lk options cs br n w = Some (r, cs', br', n', w') \<Longrightarrow>
   thread_runs lk wait options (client_thread_at (CInner cs) backoff before br n w wires sent)
     (CClean True r, cs_backoff cs', before, br', n', w')"
proof (induction fuel arbitrary: cs backoff br n w wires sent)
  case 0
  then show ?case by (auto intro!: thread_runs_one simp: thread_step_defs split: if_splits)
next
  case (Suc fuel)
  show ?case
  proof (cases "lk_running lk n")
    case False
    then show ?thesis using Suc.prems by (auto intro!: thread_runs_one simp: thread_step_defs)
  next
    case True
    obtain r1 cs1 br1 n1 w1 where round: "client_round lk options cs br n w = (r1, cs1, br1, n1, w1)" by (metis prod_cases5)
    obtain backoff' where runs: "thread_runs lk wait options (client_thread_at (CInner cs) backoff before br n w wires sent)
       (case r1 of Inl e \<Rightarrow> (CClean True (Inl e), cs_backoff cs1, before, br1, n1, w1)
        | Inr _ \<Rightarrow> (CInner cs1, backoff', before, br1, n1, w1))"
      using round_runs [OF True round] by blast
    show ?thesis
    proof (cases r1)
      case (Inl e)
      then show ?thesis using runs Suc.prems True round by simp
    next
      case (Inr u)
      then have "client_rounds fuel lk options cs1 br1 n1 w1 = Some (r, cs', br', n', w')" using Suc.prems True round by simp
      from Suc.IH [OF this] show ?thesis using runs Inr by (intro thread_runs_trans [OF runs]) auto
    qed
  qed
qed

lemma attempt_runs:
  assumes "client_attempt fuel lk options backoff before br n w = Some (backoff', before', br', n', w')"
  shows "thread_runs lk wait options (client_thread_at CConnect backoff before br n w wires sent)
    (CPause, backoff', before', br', n', w')"
proof -
  obtain r n1 where connect: "lk_connect lk n = (r, n1)" by force
  have cleaned: "thread_runs lk wait options (client_thread_at (CClean up r') b bf br1 n2 w1 wires1 sent1)
      (CPause, b, bf, client_cleanup lk r' br1 n2, if up then lk_close lk n2 else n2, w1)" for up r' b bf br1 n2 w1 wires1 sent1
    by (rule thread_runs_one) (simp add: thread_step_defs)
  show ?thesis
  proof (cases r)
    case (Inl e)
    then have "client_thread_step lk wait options (client_thread_at CConnect backoff before br n w wires sent) =
        client_thread_at (CClean False (Inl e)) backoff before (count bs_connect_attempts_update br) n1 w wires sent"
      using connect by (simp add: thread_step_defs)
    then show ?thesis
      using assms connect Inl cleaned [of False "Inl e" backoff before "count bs_connect_attempts_update br" n1 w wires sent]
      by - (rule thread_runs.Next, auto simp: client_attempt_def)
  next
    case (Inr u)
    let ?br1 = "count bs_successful_connections_update ((count bs_connect_attempts_update br)
        \<lparr>br_stats := (br_stats (count bs_connect_attempts_update br))\<lparr>bs_connected := True\<rparr>\<rparr>)"
    let ?br2 = "if before then count bs_reconnects_update ?br1 else ?br1"
    let ?cs = "\<lparr>cs_last_receive = lk_now lk n1, cs_next_heartbeat = lk_now lk n1 + ms (ro_heartbeat_interval options),
        cs_heartbeat_sequence = 0, cs_healthy = False, cs_backoff = backoff\<rparr>"
    obtain r' cs' br3 n2 where rounds: "client_rounds fuel lk options ?cs ?br2 n1 w = Some (r', cs', br3, n2, w')"
      and result: "backoff' = cs_backoff cs'" "before'" "br' = client_cleanup lk r' br3 n2" "n' = lk_close lk n2"
      using assms connect Inr by (auto simp: client_attempt_def Let_def split: option.splits)
    have "client_thread_step lk wait options (client_thread_at CConnect backoff before br n w wires sent) =
        client_thread_at (CInner ?cs) backoff True ?br2 n1 w ([] # wires) sent"
      using connect Inr by (simp add: thread_step_defs Let_def)
    then have cleaning: "thread_runs lk wait options (client_thread_at CConnect backoff before br n w wires sent)
        (CClean True r', cs_backoff cs', True, br3, n2, w')"
      using rounds_run [OF rounds] by - (rule thread_runs.Next, simp)
    show ?thesis using thread_runs_trans [OF cleaning refl cleaned [of True]] result by simp
  qed
qed

lemma loop_runs:
  "client_loop fuel rounds lk wait options backoff before br n w = Some (br', n', w') \<Longrightarrow>
   \<exists>backoff' before'. \<forall>wires sent. thread_runs lk wait options (client_thread_at CTest backoff before br n w wires sent)
     (CDone, backoff', before', br', n', w')"
proof (induction fuel arbitrary: backoff before br n w)
  case 0
  then show ?case by (auto intro!: exI thread_runs_one simp: thread_step_defs split: if_splits)
next
  case (Suc fuel)
  show ?case
  proof (cases "lk_running lk n")
    case False
    then show ?thesis using Suc.prems by (auto intro!: exI thread_runs_one simp: thread_step_defs)
  next
    case True
    then obtain b1 bf1 br1 n1 w1 where attempt: "client_attempt rounds lk options backoff before br n w = Some (b1, bf1, br1, n1, w1)"
      and more: "client_loop fuel rounds lk wait options (if lk_running lk n1 then doubled_backoff b1 (ro_maximum_backoff options) else b1)
        bf1 br1 (if lk_running lk n1 then wait b1 n1 else n1) w1 = Some (br', n', w')"
      using Suc.prems by (auto split: option.splits if_splits)
    have paused: "thread_runs lk wait options (client_thread_at CTest backoff before br n w wires sent) (CPause, b1, bf1, br1, n1, w1)" for wires sent
      using attempt_runs [OF attempt, of wait wires sent] True by - (rule thread_runs.Next, simp add: client_thread_step_def)
    have pause: "thread_runs lk wait options (client_thread_at CPause b1 bf1 br1 n1 w1 wires1 sent1)
        (CTest, if lk_running lk n1 then doubled_backoff b1 (ro_maximum_backoff options) else b1, bf1, br1,
         if lk_running lk n1 then wait b1 n1 else n1, w1)" for wires1 sent1
      by (rule thread_runs_one) (simp add: thread_step_defs)
    have again: "thread_runs lk wait options (client_thread_at CTest backoff before br n w wires sent)
        (CTest, if lk_running lk n1 then doubled_backoff b1 (ro_maximum_backoff options) else b1, bf1, br1,
         if lk_running lk n1 then wait b1 n1 else n1, w1)" for wires sent
      by (rule thread_runs_trans [OF paused refl pause])
    show ?thesis using Suc.IH [OF more] thread_runs_trans [OF again refl] by metis
  qed
qed

lemma thread_runs_steps:
  "thread_runs lk wait options t goal \<Longrightarrow> \<exists>k. thread_core ((client_thread_step lk wait options ^^ k) t) = goal"
proof (induction rule: thread_runs.induct)
  case (Here t goal)
  then show ?case by (intro exI [of _ 0]) simp
next
  case (Next t goal)
  then obtain k where "thread_core ((client_thread_step lk wait options ^^ k) (client_thread_step lk wait options t)) = goal" by blast
  then show ?case by (intro exI [of _ "Suc k"]) (simp add: funpow_Suc_right del: funpow.simps)
qed

text \<open>The thread in single steps does what the loop does as a whole: when nobody interferes and the loop ends with some
  bridge, network and world, the steps of the thread, from its start, lead to its end with exactly these.\<close>

theorem client_thread_refines_loop:
  assumes "client_loop fuel rounds lk wait options (ro_initial_backoff options) False br n w = Some (br', n', w')"
  shows "\<exists>k. let t = (client_thread_step lk wait options ^^ k) (client_thread_new options br n w)
    in ct_at t = CDone \<and> ct_bridge t = br' \<and> ct_net t = n' \<and> ct_world t = w'"
proof -
  obtain backoff before where "thread_runs lk wait options (client_thread_new options br n w) (CDone, backoff, before, br', n', w')"
    using loop_runs [OF assms] by (auto simp: client_thread_new_def)
  from thread_runs_steps [OF this] obtain k where
    "thread_core ((client_thread_step lk wait options ^^ k) (client_thread_new options br n w)) = (CDone, backoff, before, br', n', w')"
    by blast
  then show ?thesis by (intro exI [of _ k]) (simp add: thread_core_def Let_def)
qed

theorem client_thread_refines_loop_witness:
  "\<exists>k. let t = (client_thread_step link0 (\<lambda>d n. n) default_reconnect_options ^^ k)
      (client_thread_new default_reconnect_options (bridge0 :: nat bridge) 0 3)
    in ct_at t = CDone \<and> ct_net t = 1 \<and> ct_world t = 3 \<and> bs_connect_attempts (br_stats (ct_bridge t)) = 1"
proof -
  obtain br' where run: "client_loop 1 0 link0 (\<lambda>d n. n) default_reconnect_options (ro_initial_backoff default_reconnect_options) False
      (bridge0 :: nat bridge) 0 3 = Some (br', 1, 3)" "bs_connect_attempts (br_stats br') = 1"
    by (simp add: client_attempt_def link0_def Let_def client_cleanup_def bridge_eval count_def)
  show ?thesis using client_thread_refines_loop [OF run(1)] run(2) by (auto simp: Let_def)
qed

end
