(* ===== verification/Rml_Bridge_Client.thy ===== *)
theory Rml_Bridge_Client
  imports Rml_Bridge_Thread Rml_Flow Rml_Double Rml_Arguments
begin

text \<open>
  The bridge client (\<^verbatim>\<open>demo/bridge_client.cpp\<close>): a publisher on the local topic \<^verbatim>\<open>/imu\<close>, the subscription
  with which the bridge exports the topic, the bridge's bounded outbound queue, and the thread of its TCP
  client, which owns the connection. Main thread, pool threads and client thread interleave.
\<close>

section \<open>Configuration\<close>

record bridge_client_config =
  cc_host :: string
  cc_port :: u16
  cc_count :: u64
  cc_rate_hz :: u64

definition bridge_client_config_of :: "string list \<Rightarrow> bridge_client_config result" where
  "bridge_client_config_of args =
     rbind (positive_arg args 1 ''port'' 7600) (\<lambda>port_value.
     rbind (positive_arg args 2 ''count'' 100) (\<lambda>count_value.
     rbind (positive_arg args 3 ''rate_hz'' 100) (\<lambda>rate_hz.
       if port_value > 65535 then Inl (InvalidArgument ''port must be in the range 1..65535'')
       else Inr \<lparr>cc_host = text_arg args 0 ''127.0.0.1'', cc_port = ucast port_value, cc_count = count_value,
         cc_rate_hz = rate_hz\<rparr>)))"

definition client_period :: "bridge_client_config \<Rightarrow> u64" where
  "client_period config = 1000000000 div cc_rate_hz config"

text \<open>\<^verbatim>\<open>wait_until\<close>: \<open>clock\<close> is the monotonic clock in nanoseconds, \<open>sleep\<close> lets ten milliseconds pass, and the
  result is \<open>None\<close> when \<open>fuel\<close> tests before the deadline do not suffice.\<close>

fun wait_until_loop :: "nat \<Rightarrow> ('n \<Rightarrow> int) \<Rightarrow> ('n \<Rightarrow> 'n) \<Rightarrow> ('n \<Rightarrow> bool) \<Rightarrow> int \<Rightarrow> 'n \<Rightarrow> (bool \<times> 'n) option" where
  "wait_until_loop 0 clock sleep predicate deadline n = None"
| "wait_until_loop (Suc fuel) clock sleep predicate deadline n =
     (if clock n < deadline
      then (if predicate n then Some (True, n) else wait_until_loop fuel clock sleep predicate deadline (sleep n))
      else Some (predicate n, n))"

definition wait_until :: "nat \<Rightarrow> ('n \<Rightarrow> int) \<Rightarrow> ('n \<Rightarrow> 'n) \<Rightarrow> ('n \<Rightarrow> bool) \<Rightarrow> int \<Rightarrow> 'n \<Rightarrow> (bool \<times> 'n) option" where
  "wait_until fuel clock sleep predicate timeout_ms n =
     wait_until_loop fuel clock sleep predicate (clock n + timeout_ms * 1000000) n"

text \<open>It returns as soon as the clock moves on with every sleep, and what it returns is the predicate's value at the end.\<close>

lemma wait_until_loop_returns:
  assumes "\<And>n. clock (sleep n) \<ge> clock n + 10000000" and "deadline \<le> clock n + int k * 10000000" and "k < fuel"
  shows "\<exists>b n'. wait_until_loop fuel clock sleep predicate deadline n = Some (b, n') \<and> (b \<longleftrightarrow> predicate n')"
  using assms(2,3)
proof (induction fuel arbitrary: n k)
  case (Suc fuel)
  show ?case
  proof (cases "clock n < deadline \<and> \<not> predicate n")
    case True
    then obtain j where k: "k = Suc j" using Suc.prems(1) by (cases k) auto
    have "deadline \<le> clock (sleep n) + int j * 10000000" using Suc.prems(1) assms(1) [of n] k by simp
    then show ?thesis using Suc.IH [of "sleep n" j] Suc.prems(2) True k by simp
  qed auto
qed simp

section \<open>Messages\<close>

text \<open>The bit pattern of the double nearest to a positive number.\<close>

definition f64_of_rat :: "rat \<Rightarrow> f64" where
  "f64_of_rat x =
     (if x \<le> 0 then 0
      else of_int ((1023 + (52 - scaling 53 x)) * 2 ^ 52 + (round_half_even (x * 2 powi scaling 53 x) - 2 ^ 52)))"

text \<open>The literal 0.01 is the double \<open>5764607523034235 / 2 ^ 59\<close>, 0.1 has the bit pattern below.\<close>

definition client_message :: "u64 \<Rightarrow> u64 \<Rightarrow> imu_msg" where
  "client_message sequence now =
     \<lparr>imu_timestamp_ns = now, imu_yaw = f64_of_rat (dbl (of_nat (unat sequence)) * (5764607523034235 / 2 ^ 59)),
      imu_gyro_z = 0x3FB999999999999A\<rparr>"

section \<open>The program's objects\<close>

definition client_topic :: string where
  "client_topic = ''/imu''"

definition bridge_client_setup ::
  "bool \<Rightarrow> u64 \<Rightarrow> u64 \<Rightarrow> bridge_client_config \<Rightarrow> (unit bridge \<times> imu_msg topic_bus) result" where
  "bridge_client_setup spawn time_part thread_hash config =
     rbind (topic_bus_new True) (\<lambda>s.
     rbind (bridge_new time_part thread_hash default_bridge_options) (\<lambda>br.
       let nd = \<lparr>node_name = ''bridge_client_node'', node_bus = True\<rparr>
       in (case export_topic True imu_traits ''ImuMsg'' nd client_topic [] default_options br s of
             (Inl e, br1, s1) \<Rightarrow> Inl e
           | (Inr _, br1, s1) \<Rightarrow> (case start_tcp_client spawn (cc_host config) default_reconnect_options br1 of
                 (Inl e, br2) \<Rightarrow> Inl e
               | (Inr _, br2) \<Rightarrow> Inr (br2, s1)))))"

text \<open>\<open>bc_ready\<close>: the wait for the connection is over; \<open>bc_published\<close> (the messages published) is history. The bridge is
  in the thread's state; it imports nothing, so that the thread's world is trivial.\<close>

record 'n bclient =
  bc_sub :: "imu_msg sub_system"
  bc_client :: "('n, unit) client_thread"
  bc_ready :: bool
  bc_sequence :: u64
  bc_published :: "imu_msg list"

abbreviation bc_bridge :: "'n bclient \<Rightarrow> unit bridge" where
  "bc_bridge s \<equiv> ct_bridge (bc_client s)"

abbreviation bc_sent :: "'n bclient \<Rightarrow> frame list" where
  "bc_sent s \<equiv> ct_sent (bc_client s)"

definition bclient_new :: "unit bridge \<Rightarrow> imu_msg control_block \<Rightarrow> 'n \<Rightarrow> 'n bclient" where
  "bclient_new br b n = \<lparr>bc_sub = sub_start b, bc_client = client_thread_new default_reconnect_options br n (),
     bc_ready = False, bc_sequence = 0, bc_published = []\<rparr>"

fun client_event :: "bool \<Rightarrow> u64 \<Rightarrow> imu_msg flow_event \<Rightarrow> 'n bclient \<Rightarrow> 'n bclient" where
  "client_event alloc now Silent s = s"
| "client_event alloc now (Handled m) s =
     s\<lparr>bc_client := (bc_client s)\<lparr>ct_bridge :=
         snd (export_callback alloc now imu_traits client_topic m (bc_bridge s))\<rparr>\<rparr>"

inductive bc_step :: "'n link \<Rightarrow> (int \<Rightarrow> 'n \<Rightarrow> 'n) \<Rightarrow> u64 \<Rightarrow> 'n bclient \<Rightarrow> 'n bclient \<Rightarrow> bool"
  for lk :: "'n link" and wait message_count where
  Ready: "bridge_is_connected (bc_bridge s) \<Longrightarrow> bc_step lk wait message_count s (s\<lparr>bc_ready := True\<rparr>)"
| Publish: "bc_ready s \<Longrightarrow> publisher_idle (bc_sub s) \<Longrightarrow> bc_sequence s < message_count \<Longrightarrow>
    m = client_message (bc_sequence s) now \<Longrightarrow>
    bc_step lk wait message_count s (s\<lparr>bc_sub := flow_publish m (bc_sub s), bc_sequence := bc_sequence s + 1,
      bc_published := bc_published s @ [m]\<rparr>)"
| Deliver: "flow_step (bc_sub s) ev sub' \<Longrightarrow>
    bc_step lk wait message_count s (client_event alloc now ev (s\<lparr>bc_sub := sub'\<rparr>))"
| Client: "bc_step lk wait message_count s
    (s\<lparr>bc_client := client_thread_step lk wait default_reconnect_options (bc_client s)\<rparr>)"

inductive bc_reach :: "'n link \<Rightarrow> (int \<Rightarrow> 'n \<Rightarrow> 'n) \<Rightarrow> u64 \<Rightarrow> 'n bclient \<Rightarrow> bool"
  for lk :: "'n link" and wait message_count where
  Start: "bridge_client_setup spawn time_part thread_hash config = Inr (br, bus) \<Longrightarrow> bus_blocks bus 0 = Some b \<Longrightarrow>
    bc_reach lk wait message_count (bclient_new br b n)"
| Step: "bc_reach lk wait message_count s \<Longrightarrow> bc_step lk wait message_count s s' \<Longrightarrow> bc_reach lk wait message_count s'"

text \<open>The exit status, from the bridge's statistics.\<close>

definition client_exit :: "u64 \<Rightarrow> bridge_stats \<Rightarrow> int" where
  "client_exit message_count st =
     (if \<not> bs_frames_sent st \<ge> message_count then 1
      else if bs_frames_sent st \<ge> message_count \<and> bs_outbound_dropped st = 0 then 0 else 2)"

text \<open>The whole program: it gives up when the bridge is not connected after the first wait; after the publishing
  loop the second wait ends, and the statistics are read.\<close>

inductive bridge_client_main :: "'n link \<Rightarrow> (int \<Rightarrow> 'n \<Rightarrow> 'n) \<Rightarrow> string list \<Rightarrow> int \<Rightarrow> bool"
  for lk :: "'n link" and wait args where
  BadArguments: "bridge_client_config_of args = Inl e \<Longrightarrow> bridge_client_main lk wait args 1"
| SetupFails: "bridge_client_config_of args = Inr config \<Longrightarrow>
    bridge_client_setup spawn time_part thread_hash config = Inl e \<Longrightarrow> bridge_client_main lk wait args 1"
| NotConnected: "bridge_client_config_of args = Inr config \<Longrightarrow> bc_reach lk wait (cc_count config) s \<Longrightarrow> \<not> bc_ready s \<Longrightarrow>
    \<not> bridge_is_connected (bc_bridge s) \<Longrightarrow> bridge_client_main lk wait args 1"
| Flushed: "bridge_client_config_of args = Inr config \<Longrightarrow> bc_reach lk wait (cc_count config) s \<Longrightarrow>
    bc_sequence s = cc_count config \<Longrightarrow> publisher_idle (bc_sub s) \<Longrightarrow>
    bridge_client_main lk wait args (client_exit (cc_count config) (br_stats (bc_bridge s)))"

section \<open>What the client thread does to the exports\<close>

text \<open>What the exports are made of: queue, numbering, publisher, and the count of what was sent.\<close>

definition exports :: "'w bridge \<Rightarrow> frame list \<times> u64 \<times> u64 \<times> u64" where
  "exports br = (q_items (br_outbound br), br_next_sequence br, br_publisher_id br, bs_frames_sent (br_stats br))"

lemma bridge_receive_exports: "bridge_receive f br w = (b, br', w') \<Longrightarrow> exports br' = exports br"
  by (auto simp: bridge_receive_def exports_def count_def Let_def split: if_splits option.splits prod.splits sum.splits)

lemma client_incoming_exports: "client_incoming f br w = (r, br', w') \<Longrightarrow> exports br' = exports br"
  by (auto simp: client_incoming_def count_def split: if_splits prod.splits dest!: bridge_receive_exports)
    (simp add: exports_def)

lemma client_cleanup_exports [simp]: "exports (client_cleanup lk r br n) = exports br"
  by (simp add: client_cleanup_def exports_def count_def Let_def)

text \<open>A step either leaves them and what was sent alone, or takes the first frame from the queue and sends it, or
  takes it and loses it in a failing connection.\<close>

definition sends_one :: "('n, 'w) client_thread \<Rightarrow> ('n, 'w) client_thread \<Rightarrow> bool" where
  "sends_one t t' \<longleftrightarrow> (\<exists>f fs q p k. exports (ct_bridge t) = (f # fs, q, p, k) \<and>
     (exports (ct_bridge t') = (fs, q, p, k + 1) \<and> ct_sent t' = ct_sent t @ [f] \<or>
      exports (ct_bridge t') = (fs, q, p, k) \<and> ct_sent t' = ct_sent t))"

lemma batch_step_sends:
  "exports (ct_bridge (batch_step lk k cs t)) = exports (ct_bridge t) \<and> ct_sent (batch_step lk k cs t) = ct_sent t \<or>
   sends_one t (batch_step lk k cs t)"
proof (cases "q_items (br_outbound (ct_bridge t))")
  case Nil
  then show ?thesis by (simp add: batch_step_def try_pop_def)
next
  case (Cons f fs)
  then have pop: "try_pop (br_outbound (ct_bridge t)) = (Some f, (br_outbound (ct_bridge t))\<lparr>q_items := fs\<rparr>)"
    by (simp add: try_pop_def pop_front_def)
  obtain r n1 where send: "lk_send lk f (ct_net t) = (r, n1)" by force
  show ?thesis using pop send Cons
    by (cases r) (auto simp: batch_step_def sends_one_def exports_def leave_session_def count_def)
qed

lemma client_thread_step_sends:
  assumes "t' = client_thread_step lk wait options t"
  shows "exports (ct_bridge t') = exports (ct_bridge t) \<and> ct_sent t' = ct_sent t \<or> sends_one t t'"
proof (cases "\<exists>k cs. ct_at t = CBatch (Suc k) cs")
  case True
  then show ?thesis using batch_step_sends assms by (force simp: client_thread_step_def Let_def)
next
  case False
  have "exports (ct_bridge t') = exports (ct_bridge t) \<and> ct_sent t' = ct_sent t"
    using False assms
    by (auto simp: thread_step_defs Let_def exports_def count_def client_cleanup_def
        split: client_at.splits nat.splits prod.splits sum.splits option.splits
        dest!: client_incoming_exports)
  then show ?thesis by simp
qed

section \<open>From the publisher to the wire\<close>

text \<open>A frame of publisher \<open>p\<close> made of a message, and what a receiver gets from it.\<close>

definition exported :: "u64 \<Rightarrow> imu_msg \<Rightarrow> frame \<Rightarrow> bool" where
  "exported p m f \<longleftrightarrow> (\<exists>now. make_frame imu_traits client_topic m (fr_sequence f) p now = Inr f)"

definition carries :: "imu_msg \<Rightarrow> frame \<Rightarrow> bool" where
  "carries m f \<longleftrightarrow>
     rbind (encode_frame f default_limits) (\<lambda>bs.
       rbind (decode_frame (Span bs) default_limits) (\<lambda>g. deserialize_frame imu_traits g client_topic)) = Inr m"

lemma fits_client_topic: "fits client_topic"
  by (simp add: fits_def client_topic_def)

lemma exported_carries: "exported p m f \<Longrightarrow> carries m f"
  using imu.network_roundtrip fits_client_topic by (auto simp: exported_def carries_def)

lemma exported_frame:
  "\<exists>f. make_frame imu_traits client_topic m q p now = Inr f \<and> exported p m f \<and> fr_sequence f = q"
  by (auto simp: make_frame_def client_topic_def size_of_def exported_def)

text \<open>The invariant: \<open>handled\<close> are the messages the callback of the export has been given, \<open>kept\<close> those of them whose
  frames have been sent or wait to be sent.\<close>

definition bc_ok :: "u64 \<Rightarrow> u64 \<Rightarrow> imu_msg list \<Rightarrow> imu_msg list \<Rightarrow> 'n bclient \<Rightarrow> bool" where
  "bc_ok p message_count handled kept s \<longleftrightarrow>
     flow_ok (bc_published s) handled (bc_sub s) \<and> subseq kept handled \<and>
     (\<exists>waiting. exports (bc_bridge s) = (waiting, of_nat (length handled), p, of_nat (length (bc_sent s))) \<and>
        list_all2 (exported p) kept (bc_sent s @ waiting) \<and>
        sorted_wrt (<) (map (unat \<circ> fr_sequence) (bc_sent s @ waiting)) \<and>
        (\<forall>f \<in> set (bc_sent s @ waiting). unat (fr_sequence f) < length handled)) \<and>
     length (bc_published s) = unat (bc_sequence s) \<and> bc_sequence s \<le> message_count"

lemma list_all2_remove:
  assumes "list_all2 P xs (ys @ y # zs)"
  obtains ws where "subseq ws xs" "list_all2 P ws (ys @ zs)"
proof -
  obtain us v vs where xs: "xs = us @ v # vs" "list_all2 P us ys" "list_all2 P vs zs"
    using assms by (auto simp: list_all2_append2 list_all2_Cons2)
  show thesis
  proof (rule that)
    show "subseq (us @ vs) xs" unfolding xs(1) by (intro list_emb_append_mono) auto
    show "list_all2 P (us @ vs) (ys @ zs)" using xs by (intro list_all2_appendI)
  qed
qed

lemma export_exports:
  assumes "export_callback alloc now imu_traits client_topic m br = (r, br')" and "exports br = (waiting, q, p, k)"
  shows "\<exists>more. exports br' = (waiting @ more, q + 1, p, k) \<and>
    (more = [] \<or> (\<exists>f. more = [f] \<and> exported p m f \<and> fr_sequence f = q))"
proof -
  obtain f where f: "make_frame imu_traits client_topic m (br_next_sequence br) (br_publisher_id br) now = Inr f"
    "exported (br_publisher_id br) m f" "fr_sequence f = br_next_sequence br"
    using exported_frame by blast
  then have "br' = emit_frame alloc f (br\<lparr>br_next_sequence := br_next_sequence br + 1\<rparr>)"
    using assms(1) by (simp add: export_callback_def Let_def)
  then show ?thesis using f(2,3) assms(2)
    by (auto simp: emit_frame_def exports_def queue_ops count_def split: if_splits)
qed

lemma bc_ok_handled:
  assumes ok: "bc_ok p n handled kept s" and flow: "flow_ok (bc_published s) (handled @ [m]) sub'"
    and export: "export_callback alloc now imu_traits client_topic m (bc_bridge s) = (r, br)"
    and s': "s' = s\<lparr>bc_sub := sub', bc_client := (bc_client s)\<lparr>ct_bridge := br\<rparr>\<rparr>"
  shows "\<exists>kept'. bc_ok p n (handled @ [m]) kept' s'"
proof -
  obtain waiting where w: "exports (bc_bridge s) = (waiting, of_nat (length handled), p, of_nat (length (bc_sent s)))"
    "list_all2 (exported p) kept (bc_sent s @ waiting)" "sorted_wrt (<) (map (unat \<circ> fr_sequence) (bc_sent s @ waiting))"
    "\<forall>f \<in> set (bc_sent s @ waiting). unat (fr_sequence f) < length handled" using ok by (auto simp: bc_ok_def)
  obtain more where more: "exports br = (waiting @ more, of_nat (length handled) + 1, p, of_nat (length (bc_sent s)))"
    "more = [] \<or> (\<exists>f. more = [f] \<and> exported p m f \<and> fr_sequence f = of_nat (length handled))"
    using export_exports [OF export w(1)] by blast
  have "length (handled @ [m]) \<le> length (bc_published s)" using flow_handled_le [OF flow] .
  moreover have "length (bc_published s) = unat (bc_sequence s)" using ok by (simp add: bc_ok_def)
  ultimately have "length handled < 2 ^ 64" using unsigned_less [of "bc_sequence s", where 'a = nat] by simp
  then have number: "unat (of_nat (length handled) :: u64) = length handled" by (simp add: unat_of_nat take_bit_nat_eq_self)
  let ?kept = "if more = [] then kept else kept @ [m]"
  have "list_all2 (exported p) ?kept ((bc_sent s @ waiting) @ more)"
    using w(2) more(2) by (auto intro!: list_all2_appendI simp del: append_assoc)
  moreover have "sorted_wrt (<) (map (unat \<circ> fr_sequence) ((bc_sent s @ waiting) @ more))"
    using w(3,4) more(2) number by (auto simp: sorted_wrt_append simp del: append_assoc)
  moreover have "\<forall>f \<in> set ((bc_sent s @ waiting) @ more). unat (fr_sequence f) < length (handled @ [m])"
    using w(4) more(2) number by (auto simp: less_Suc_eq)
  moreover have "subseq ?kept (handled @ [m])" using ok by (auto simp: bc_ok_def intro: list_emb_append_mono subseq_rev_drop_many)
  ultimately have "bc_ok p n (handled @ [m]) ?kept s'"
    using ok flow more(1) by (auto simp: bc_ok_def s' add.commute)
  then show ?thesis by blast
qed

lemma bc_ok_client:
  assumes ok: "bc_ok p n handled kept s" and t: "t = client_thread_step lk wait options (bc_client s)"
  shows "\<exists>kept'. bc_ok p n handled kept' (s\<lparr>bc_client := t\<rparr>)"
proof -
  obtain waiting where w: "exports (bc_bridge s) = (waiting, of_nat (length handled), p, of_nat (length (bc_sent s)))"
    "list_all2 (exported p) kept (bc_sent s @ waiting)" "sorted_wrt (<) (map (unat \<circ> fr_sequence) (bc_sent s @ waiting))"
    "\<forall>f \<in> set (bc_sent s @ waiting). unat (fr_sequence f) < length handled" using ok by (auto simp: bc_ok_def)
  from client_thread_step_sends [OF t] show ?thesis
  proof
    assume "exports (ct_bridge t) = exports (bc_bridge s) \<and> ct_sent t = bc_sent s"
    then have "bc_ok p n handled kept (s\<lparr>bc_client := t\<rparr>)" using ok by (simp add: bc_ok_def)
    then show ?thesis by blast
  next
    assume "sends_one (bc_client s) t"
    then obtain f fs where waiting: "waiting = f # fs" and
      cases: "exports (ct_bridge t) = (fs, of_nat (length handled), p, of_nat (length (bc_sent s)) + 1) \<and> ct_sent t = bc_sent s @ [f] \<or>
        exports (ct_bridge t) = (fs, of_nat (length handled), p, of_nat (length (bc_sent s))) \<and> ct_sent t = bc_sent s"
      using w(1) by (auto simp: sends_one_def)
    from cases show ?thesis
    proof
      assume "exports (ct_bridge t) = (fs, of_nat (length handled), p, of_nat (length (bc_sent s)) + 1) \<and> ct_sent t = bc_sent s @ [f]"
      then have "bc_ok p n handled kept (s\<lparr>bc_client := t\<rparr>)" using ok w waiting by (simp add: bc_ok_def add.commute)
      then show ?thesis by blast
    next
      assume lost: "exports (ct_bridge t) = (fs, of_nat (length handled), p, of_nat (length (bc_sent s))) \<and> ct_sent t = bc_sent s"
      obtain kept' where "subseq kept' kept" "list_all2 (exported p) kept' (bc_sent s @ fs)"
        using list_all2_remove [of "exported p" kept "bc_sent s" f fs] w(2) waiting by blast
      then have "bc_ok p n handled kept' (s\<lparr>bc_client := t\<rparr>)"
        using ok w waiting lost subseq_order.trans by (fastforce simp: bc_ok_def sorted_wrt_append)
      then show ?thesis by blast
    qed
  qed
qed

lemma bc_step_ok:
  assumes "bc_step lk wait n s s'" and ok: "bc_ok p n handled kept s"
  shows "\<exists>handled' kept'. bc_ok p n handled' kept' s'"
proof -
  have flow: "flow_ok (bc_published s) handled (bc_sub s)" using ok by (simp add: bc_ok_def)
  from assms(1) show ?thesis
  proof cases
    case Ready
    then have "bc_ok p n handled kept s'" using ok by (simp add: bc_ok_def)
    then show ?thesis by blast
  next
    case (Publish m now)
    have "bc_ok p n handled kept s'"
      using flow_ok_publish(1) [OF flow Publish(3)] Publish(1) ok unat_suc_less [OF Publish(4)] by (simp add: bc_ok_def)
    then show ?thesis by blast
  next
    case (Deliver ev sub' alloc now)
    have flow': "flow_ok (bc_published s) (handled @ handled_by ev) sub'" using flow_ok_step [OF flow Deliver(2)] by simp
    show ?thesis
    proof (cases ev)
      case Silent
      then have "bc_ok p n handled kept s'" using flow' Deliver(1) ok by (simp add: bc_ok_def)
      then show ?thesis by blast
    next
      case (Handled m)
      obtain r br where "export_callback alloc now imu_traits client_topic m (bc_bridge s) = (r, br)" by force
      then show ?thesis using bc_ok_handled [OF ok _ _ refl] flow' Deliver(1) Handled by fastforce
    qed
  next
    case Client
    then show ?thesis using bc_ok_client [OF ok refl] by blast
  qed
qed

lemma bridge_client_setup_facts:
  assumes "bridge_client_setup spawn t h config = Inr (br, bus)" and "bus_blocks bus 0 = Some b"
  shows "control_block_new (default_options\<lparr>receive_remote := False\<rparr>) True = Inr b"
    and "exports br = ([], 0, br_publisher_id br, 0)" and "br_stats br = zero_stats"
  using assms
  by (auto simp: bridge_client_setup_def topic_bus_new_def bridge_new_def default_bridge_options_def export_topic_def
      require_configurable_def client_topic_def create_subscription_def require_initialized_def subscribe_def
      validate_topic_def control_block_new_def subscribe_locked_def validate_type_def new_record_def default_options_def
      add_export_def start_tcp_client_def enter_mode_def ts_queue_new_def Let_def exports_def zero_stats_def
      split: sum.splits prod.splits if_splits)

lemma bc_reach_ok: "bc_reach lk wait n s \<Longrightarrow> \<exists>p handled kept. bc_ok p n handled kept s"
proof (induction rule: bc_reach.induct)
  case (Start spawn t h config br bus b net)
  note facts = bridge_client_setup_facts [OF Start]
  have "flow_ok [] [] (sub_start b)" by (rule flow_ok_start [OF facts(1)]) (simp add: default_options_def)
  then have "bc_ok (br_publisher_id br) n [] [] (bclient_new br b net)"
    using facts(2) by (simp add: bc_ok_def bclient_new_def client_thread_new_def)
  then show ?case by blast
next
  case (Step s s')
  then show ?case using bc_step_ok by blast
qed

text \<open>What the exit status tells about the invariant.\<close>

lemma bc_ok_exit:
  assumes ok: "bc_ok p n handled kept s"
  obtains sent where "subseq sent (bc_published s)" and "list_all2 (exported p) sent (bc_sent s)"
    and "sorted_wrt (<) (map (unat \<circ> fr_sequence) (bc_sent s))"
    and "client_exit n (br_stats (bc_bridge s)) = 0 \<Longrightarrow> sent = bc_published s \<and> length (bc_published s) = unat n"
proof -
  obtain waiting where w: "exports (bc_bridge s) = (waiting, of_nat (length handled), p, of_nat (length (bc_sent s)))"
    "list_all2 (exported p) kept (bc_sent s @ waiting)" "sorted_wrt (<) (map (unat \<circ> fr_sequence) (bc_sent s @ waiting))"
    and flow: "flow_ok (bc_published s) handled (bc_sub s)" and kept: "subseq kept handled"
    and sizes: "length (bc_published s) = unat (bc_sequence s)" "bc_sequence s \<le> n" using ok by (auto simp: bc_ok_def)
  have below: "subseq kept (bc_published s)" using kept flow_subseq [OF flow] subseq_order.trans by blast
  obtain sent rest where parts: "kept = sent @ rest" "list_all2 (exported p) sent (bc_sent s)"
    using w(2) by (auto simp: list_all2_append2)
  have sent: "subseq sent (bc_published s)" using below parts(1) subseq_left by blast
  have "sent = bc_published s \<and> length (bc_published s) = unat n" if exit: "client_exit n (br_stats (bc_bridge s)) = 0"
  proof -
    have few: "length (bc_sent s) \<le> length (bc_published s)"
      using sent parts(2) by (metis list_all2_lengthD list_emb_length)
    then have "length (bc_sent s) < 2 ^ 64"
      using sizes(1) unsigned_less [of "bc_sequence s", where 'a = nat] by simp
    then have "unat (bs_frames_sent (br_stats (bc_bridge s))) = length (bc_sent s)"
      using w(1) by (simp add: exports_def unat_of_nat take_bit_nat_eq_self)
    then have "unat n \<le> length (bc_sent s)"
      using exit by (auto simp: client_exit_def word_le_nat_alt split: if_splits)
    moreover have "length (bc_published s) \<le> unat n" using sizes by (simp add: word_le_nat_alt)
    ultimately have "length sent = length (bc_published s)" "length (bc_published s) = unat n"
      using few parts(2) by (simp_all add: list_all2_lengthD)
    then show ?thesis using sent by (metis subseq_same_length)
  qed
  moreover have "sorted_wrt (<) (map (unat \<circ> fr_sequence) (bc_sent s))" using w(3) by (simp add: sorted_wrt_append)
  ultimately show thesis using that sent parts(2) by blast
qed

text \<open>C9: What the client puts on the wire: at any time, the frames sent carry, in order and each once, messages that
  were published, so that a receiver that decodes and deserializes them gets exactly these messages; and exit
  status 0 means that nothing was lost anywhere between the publisher and the connection (not in the
  subscription's mailbox, not in the bridge's queue, not in a failed send): the frames sent are those of all
  the messages, as many as were asked for.\<close>

theorem bridge_client_exact:
  assumes "bc_reach lk wait message_count s"
  shows "(\<exists>kept. subseq kept (bc_published s) \<and> list_all2 carries kept (bc_sent s)) \<and>
    (client_exit message_count (br_stats (bc_bridge s)) = 0 \<longrightarrow>
       list_all2 carries (bc_published s) (bc_sent s) \<and> length (bc_published s) = unat message_count)"
proof -
  obtain p handled kept where ok: "bc_ok p message_count handled kept s" using bc_reach_ok [OF assms] by blast
  have carried: "list_all2 carries ms (bc_sent s)" if "list_all2 (exported p) ms (bc_sent s)" for ms
    using that exported_carries by (rule list_all2_mono)
  obtain sent where "subseq sent (bc_published s)" "list_all2 (exported p) sent (bc_sent s)"
    "client_exit message_count (br_stats (bc_bridge s)) = 0 \<Longrightarrow>
       sent = bc_published s \<and> length (bc_published s) = unat message_count"
    using bc_ok_exit [OF ok] by metis
  then show ?thesis using carried by blast
qed

section \<open>A concrete run\<close>

definition link_ok :: "unit link" where
  "link_ok = \<lparr>lk_connect = (\<lambda>n. (Inr (), n)), lk_send = (\<lambda>f n. (Inr (), n)), lk_receive = (\<lambda>n. (Inr None, n)), lk_close = id,
     lk_now = (\<lambda>n. 0), lk_running = (\<lambda>n. True)\<rparr>"

definition bridge_client_config0 :: bridge_client_config where
  "bridge_client_config0 = \<lparr>cc_host = ''127.0.0.1'', cc_port = 7600, cc_count = 1, cc_rate_hz = 100\<rparr>"

text \<open>One message goes all the way through an empty mailbox.\<close>

lemma flow_single:
  assumes "control_block_new options True = Inr b"
  shows "\<exists>s2 s3 s4 s5 s6. flow_step (flow_publish m (sub_start b)) Silent s2 \<and> flow_step s2 Silent s3 \<and>
    flow_step s3 Silent s4 \<and> flow_step s4 Silent s5 \<and> flow_step s5 (Handled m) s6"
proof -
  define s2 where "s2 = the (enqueue_step (Inr True) 0 (flow_publish m (sub_start b)))"
  define s3 where "s3 = the (enqueue_step (Inr True) 0 s2)"
  define s4 where "s4 = the (drain_step 0 False 0 s3)"
  define s5 where "s5 = the (drain_step 0 False 0 s4)"
  define s6 where "s6 = the (drain_step 0 False 0 s5)"
  have depth: "queue_depth options \<noteq> 0" using assms by (auto simp: control_block_new_def split: if_splits)
  then have room: "\<not> unat (queue_depth options) = 0" by (simp add: unat_eq_0)
  have b: "b = \<lparr>cb_options = options, cb_pending = [], cb_active = True, cb_scheduled = False,
        cb_in_flight = 0, cb_callback_thread = None, cb_enqueued = 0, cb_delivered = 0,
        cb_dropped_oldest = 0, cb_rejected_newest = 0, cb_executor_rejected = 0,
        cb_callback_errors = 0\<rparr>" using assms by (auto simp: control_block_new_def split: if_splits)
  note start = flow_publish_def sub_start_def b block_ops
  have "enqueue_step (Inr True) 0 (flow_publish m (sub_start b)) = Some s2"
    and s2: "ss_enqueues s2 = [EnqPost (no_outcome\<lparr>do_enqueued := True\<rparr>)]" "ss_drains s2 = []" "cb_active (ss_block s2)" "cb_pending (ss_block s2) = [m]"
    using room by (simp_all add: enqueue_step_def s2_def start)
  moreover have "enqueue_step (Inr True) 0 s2 = Some s3"
    and s3: "ss_drains s3 = [DrainQueued]" "cb_active (ss_block s3)" "cb_pending (ss_block s3) = [m]"
    using s2 by (simp_all add: enqueue_step_def s3_def)
  moreover have "drain_step 0 False 0 s3 = Some s4"
    and s4: "ss_drains s4 = [DrainLock 0]" "cb_active (ss_block s4)" "cb_pending (ss_block s4) = [m]"
    using s3 by (simp_all add: drain_step_def s4_def)
  moreover have "drain_step 0 False 0 s4 = Some s5" and s5: "ss_drains s5 = [DrainCall 0 m]"
    using s4 by (simp_all add: drain_step_def s5_def drain_begin_def)
  moreover have "drain_step 0 False 0 s5 = Some s6" using s5 by (simp add: drain_step_def s6_def)
  moreover have "ss_enqueues (flow_publish m (sub_start b)) = [EnqLock m False]" by (simp add: start)
  ultimately show ?thesis
    using flow_step.Enqueue [of 0 "flow_publish m (sub_start b)" s2] flow_step.Enqueue [of 0 s2 s3]
      flow_step.Drain [of 0 s3 0 s4] flow_step.Drain [of 0 s4 0 s5] flow_step.Drain [of 0 s5 0 s6]
    by (intro exI [of _ s2] exI [of _ s3] exI [of _ s4] exI [of _ s5] exI [of _ s6]) simp
qed

lemma bridge_client_setup0:
  "\<exists>br bus b. bridge_client_setup True 1 2 bridge_client_config0 = Inr (br, bus) \<and> bus_blocks bus 0 = Some b \<and>
     \<not> br_stopped br \<and> \<not> q_closed (br_outbound br) \<and> \<not> full_locked (br_outbound br)"
  by (simp add: bridge_client_setup_def topic_bus_new_def bridge_new_def default_bridge_options_def export_topic_def
      require_configurable_def client_topic_def create_subscription_def require_initialized_def subscribe_def
      validate_topic_def control_block_new_def subscribe_locked_def validate_type_def new_record_def default_options_def
      add_export_def start_tcp_client_def enter_mode_def ts_queue_new_def Let_def bridge_client_config0_def
      validate_reconnect_options_def default_reconnect_options_def full_locked_def)

text \<open>On a link that works, one message gets through.\<close>

lemma one_message_sent:
  fixes lk :: "'n link"
  assumes connect: "lk_connect lk n0 = (Inr (), n1)" and running: "\<And>n. lk_running lk n"
    and send: "\<And>m p f. exported p m f \<Longrightarrow> \<exists>n2. lk_send lk f n1 = (Inr (), n2)"
  obtains s f cs where "bc_reach lk wait 1 s" and "client_exit 1 (br_stats (bc_bridge s)) = 0"
    and "ct_at (bc_client s) = CBatch 63 cs" and "ct_wires (bc_client s) = [[f]]" and "bc_sent s = [f]"
    and "lk_send lk f n1 = (Inr (), ct_net (bc_client s))" and "length (bc_published s) = 1"
proof -
  obtain br bus b where made: "bridge_client_setup True 1 2 bridge_client_config0 = Inr (br, bus)" "bus_blocks bus 0 = Some b"
    and br: "\<not> br_stopped br" "\<not> q_closed (br_outbound br)" "\<not> full_locked (br_outbound br)" using bridge_client_setup0 by blast
  note facts = bridge_client_setup_facts [OF made]
  let ?m = "client_message 0 0" and ?reach = "bc_reach lk wait 1"
  let ?step = "client_thread_step lk wait default_reconnect_options"
  let ?t = "?step (?step (client_thread_new default_reconnect_options br n0 ()))"
  let ?cs = "\<lparr>cs_last_receive = lk_now lk n1, cs_next_heartbeat = lk_now lk n1 + 250000000, cs_heartbeat_sequence = 0,
    cs_healthy = False, cs_backoff = 50\<rparr>"
  let ?br = "br\<lparr>br_stats := zero_stats\<lparr>bs_connect_attempts := 1, bs_successful_connections := 1, bs_connected := True\<rparr>\<rparr>"
  have t: "?t = client_thread_at (CInner ?cs) 50 True ?br n1 () [[]] []"
    using facts(3) connect running by (simp add: client_thread_new_def thread_step_defs count_def zero_stats_def
        default_reconnect_options_def ms_def Let_def)
  obtain s2 s3 s4 s5 s6 where flow: "flow_step (flow_publish ?m (sub_start b)) Silent s2" "flow_step s2 Silent s3"
    "flow_step s3 Silent s4" "flow_step s4 Silent s5" "flow_step s5 (Handled ?m) s6"
    using flow_single [OF facts(1)] by blast
  let ?s = "\<lambda>sub t. \<lparr>bc_sub = sub, bc_client = t, bc_ready = True, bc_sequence = 1, bc_published = [?m]\<rparr>"
  have client: "?reach (s\<lparr>bc_client := ?step (bc_client s)\<rparr>)" if "?reach s" for s
    by (rule bc_reach.Step [OF that bc_step.Client])
  have "?reach (bclient_new br b n0 \<lparr>bc_client := ?t\<rparr>)"
    using client [OF client [OF bc_reach.Start [OF made]]] by (simp add: bclient_new_def)
  then have "?reach (bclient_new br b n0 \<lparr>bc_client := ?t, bc_ready := True\<rparr>)"
    by (rule bc_reach.Step) (use bc_step.Ready [of "bclient_new br b n0 \<lparr>bc_client := ?t\<rparr>"] t in \<open>simp add: bridge_is_connected_def\<close>)
  then have "?reach (?s (flow_publish ?m (sub_start b)) ?t)"
    by (rule bc_reach.Step)
      (use bc_step.Publish [of "bclient_new br b n0 \<lparr>bc_client := ?t, bc_ready := True\<rparr>" 1 ?m 0] in
        \<open>simp add: bclient_new_def publisher_idle_def sub_start_def\<close>)
  moreover have silent: "?reach (?s sub' t)" if "?reach (?s sub t)" "flow_step sub Silent sub'" for sub sub' t
    using bc_reach.Step [OF that(1) bc_step.Deliver [where ev = Silent and sub' = sub']] that(2) by simp
  ultimately have "?reach (?s s5 ?t)" using flow(1-4) by blast
  moreover obtain r br1 where export: "export_callback True 0 imu_traits client_topic ?m ?br = (r, br1)" by force
  ultimately have handled: "?reach (?s s6 (?t\<lparr>ct_bridge := br1\<rparr>))"
    using bc_reach.Step [OF _ bc_step.Deliver [where ev = "Handled ?m" and sub' = s6 and alloc = True and now = 0], of lk _ 1 "?s s5 ?t"] flow(5) t
    by simp
  obtain f where f: "make_frame imu_traits client_topic ?m (br_next_sequence br) (br_publisher_id br) 0 = Inr f"
    and exported: "exported (br_publisher_id br) ?m f"
    using exported_frame by blast
  have br1: "q_items (br_outbound br1) = [f]" "bs_frames_sent (br_stats br1) = 0" "bs_outbound_dropped (br_stats br1) = 0"
    using export f br facts(2)
    by (auto simp: export_callback_def Let_def emit_frame_def queue_ops count_def zero_stats_def full_locked_def exports_def)
  obtain n2 where sent: "lk_send lk f n1 = (Inr (), n2)" using send [OF exported] by blast
  let ?u = "?step (?step (?t\<lparr>ct_bridge := br1\<rparr>))"
  have u: "ct_at ?u = CBatch 63 ?cs" "ct_wires ?u = [[f]]" "ct_sent ?u = [f]" "ct_net ?u = n2"
    "bs_frames_sent (br_stats (ct_bridge ?u)) = 1" "bs_outbound_dropped (br_stats (ct_bridge ?u)) = 0"
    unfolding t using br1 sent running by (simp_all add: thread_step_defs try_pop_def pop_front_def count_def numeral_eq_Suc)
  have reach: "?reach (?s s6 ?u)" using client [OF client [OF handled]] by simp
  have "client_exit 1 (br_stats (bc_bridge (?s s6 ?u))) = 0" using u by (simp add: client_exit_def)
  then show thesis using that [OF reach] u sent by simp
qed

theorem bridge_client_exact_witness:
  "\<exists>s. bc_reach link_ok (\<lambda>d n. n) 1 s \<and> client_exit 1 (br_stats (bc_bridge s)) = 0 \<and> list_all2 carries (bc_published s) (bc_sent s) \<and>
     length (bc_published s) = 1"
proof -
  obtain s where run: "bc_reach link_ok (\<lambda>d n. n) 1 s" "client_exit 1 (br_stats (bc_bridge s)) = 0" "length (bc_published s) = 1"
    by (rule one_message_sent [of link_ok "()" "()" "\<lambda>d n. n"]) (auto simp: link_ok_def)
  show ?thesis using bridge_client_exact [OF run(1)] run by (intro exI [of _ s]) simp
qed

end
