(* ===== verification/Rml_Bridge_Stop.thy ===== *)
theory Rml_Bridge_Stop
  imports Rml_Prelude
begin

text \<open>
  Stopping a bridge while its TCP client runs (\<^verbatim>\<open>bridge/network_bridge.cpp\<close>): the worker thread of
  \<^verbatim>\<open>client_loop\<close> with its backoff wait, and a thread that calls \<^verbatim>\<open>stop\<close>, with what they share: the flags
  \<^verbatim>\<open>stopped_\<close> and \<^verbatim>\<open>running\<close>, the connection under \<^verbatim>\<open>connection_mutex\<close>, and the condition variable of the
  backoff wait. Every position is between two synchronisation operations. What happens inside a round is the
  subject of the client's own model; here a round is one step that ends well or not. Connections are numbered.
\<close>

section \<open>Positions and state\<close>

text \<open>\<open>WEnter\<close>: the wait's predicate was false, and the thread, holding \<^verbatim>\<open>wait_mutex\<close>, is about to sleep.\<close>

datatype client_pc =
    WTest
  | WConnect
  | WStore nat
  | WInner nat
  | WRound nat
  | WCleanup
  | WBackoff
  | WPredicate
  | WEnter
  | WSleep
  | WDone

datatype stop_pc =
    SIdle
  | SExchange
  | SCancel
  | SRunning
  | SNotify
  | SCloseQueue
  | STake
  | SInterrupt nat
  | SJoin "nat option"
  | SDone

record client_state =
  sp_stopped :: bool
  sp_running :: bool
  sp_connection :: "nat option"
  sp_next :: nat
  sp_interrupted :: "nat list"
  sp_queue_closed :: bool
  sp_worker :: client_pc
  sp_stopper :: stop_pc

definition client_state_new :: client_state where
  "client_state_new = \<lparr>sp_stopped = False, sp_running = True, sp_connection = None, sp_next = 0, sp_interrupted = [],
     sp_queue_closed = False, sp_worker = WTest, sp_stopper = SIdle\<rparr>"

definition keeps_running :: "client_state \<Rightarrow> bool" where
  "keeps_running s \<longleftrightarrow> sp_running s \<and> \<not> sp_stopped s"

section \<open>The worker\<close>

text \<open>\<^verbatim>\<open>wait_backoff\<close>: the predicate is tested before sleeping and after every wake-up; \<open>wake\<close> says whether a
  wake-up (from a notification, or spurious) or the end of the duration ends the sleep.\<close>

definition wait_backoff_step :: "bool \<Rightarrow> client_state \<Rightarrow> client_state option" where
  "wait_backoff_step wake s = (case sp_worker s of
       WPredicate \<Rightarrow> Some (s\<lparr>sp_worker := if keeps_running s then WEnter else WTest\<rparr>)
     | WEnter \<Rightarrow> Some (s\<lparr>sp_worker := WSleep\<rparr>)
     | WSleep \<Rightarrow> Some (s\<lparr>sp_worker := if wake then WPredicate else WTest\<rparr>)
     | _ \<Rightarrow> None)"

text \<open>The rest of \<^verbatim>\<open>client_loop\<close>; \<open>fine\<close> says whether the connection attempt or the round succeeds.\<close>

definition client_loop_step :: "bool \<Rightarrow> client_state \<Rightarrow> client_state option" where
  "client_loop_step fine s = (case sp_worker s of
       WTest \<Rightarrow> Some (s\<lparr>sp_worker := if keeps_running s then WConnect else WDone\<rparr>)
     | WConnect \<Rightarrow> Some (if fine then s\<lparr>sp_worker := WStore (sp_next s), sp_next := sp_next s + 1\<rparr>
         else s\<lparr>sp_worker := WCleanup\<rparr>)
     | WStore c \<Rightarrow> Some (s\<lparr>sp_connection := Some c, sp_worker := WInner c\<rparr>)
     | WInner c \<Rightarrow> Some (s\<lparr>sp_worker := if keeps_running s then WRound c else WCleanup\<rparr>)
     | WRound c \<Rightarrow> Some (s\<lparr>sp_worker := if fine then WInner c else WCleanup\<rparr>)
     | WCleanup \<Rightarrow> Some (s\<lparr>sp_connection := None, sp_worker := WBackoff\<rparr>)
     | WBackoff \<Rightarrow> Some (s\<lparr>sp_worker := if keeps_running s then WPredicate else WTest\<rparr>)
     | _ \<Rightarrow> None)"

section \<open>The call of stop\<close>

text \<open>A thread that is asleep when the notification is sent tests its predicate again; any other does not notice it.\<close>

definition notify_wait :: "client_state \<Rightarrow> client_state" where
  "notify_wait s = (if sp_worker s = WSleep then s\<lparr>sp_worker := WPredicate\<rparr> else s)"

text \<open>\<open>None\<close>: before the call, after it, or while the join has to wait.\<close>

definition stop_step :: "client_state \<Rightarrow> client_state option" where
  "stop_step s = (case sp_stopper s of
       SExchange \<Rightarrow> Some (s\<lparr>sp_stopped := True, sp_stopper := if sp_stopped s then STake else SCancel\<rparr>)
     | SCancel \<Rightarrow> Some (s\<lparr>sp_stopper := SRunning\<rparr>)
     | SRunning \<Rightarrow> Some (s\<lparr>sp_running := False, sp_stopper := SNotify\<rparr>)
     | SNotify \<Rightarrow> Some ((notify_wait s)\<lparr>sp_stopper := SCloseQueue\<rparr>)
     | SCloseQueue \<Rightarrow> Some (s\<lparr>sp_queue_closed := True, sp_stopper := STake\<rparr>)
     | STake \<Rightarrow> Some (s\<lparr>sp_stopper := case sp_connection s of None \<Rightarrow> SJoin None | Some c \<Rightarrow> SInterrupt c\<rparr>)
     | SInterrupt c \<Rightarrow> Some (s\<lparr>sp_interrupted := c # sp_interrupted s, sp_stopper := SJoin (Some c)\<rparr>)
     | SJoin c \<Rightarrow> (if sp_worker s = WDone then Some (s\<lparr>sp_stopper := SDone\<rparr>) else None)
     | _ \<Rightarrow> None)"

inductive stp_step :: "client_state \<Rightarrow> client_state \<Rightarrow> bool" where
  Worker: "client_loop_step fine s = Some s' \<Longrightarrow> stp_step s s'"
| Wait: "wait_backoff_step wake s = Some s' \<Longrightarrow> stp_step s s'"
| Stop: "stop_step s = Some s' \<Longrightarrow> stp_step s s'"
| Call: "sp_stopper s = SIdle \<Longrightarrow> stp_step s (s\<lparr>sp_stopper := SExchange\<rparr>)"

inductive stp_reach :: "client_state \<Rightarrow> bool" where
  Start: "stp_reach client_state_new"
| Step: "stp_reach s \<Longrightarrow> stp_step s s' \<Longrightarrow> stp_reach s'"

section \<open>Invariant\<close>

fun past_take :: "stop_pc \<Rightarrow> bool" where
  "past_take (SInterrupt c) = True"
| "past_take (SJoin c) = True"
| "past_take SDone = True"
| "past_take pc = False"

fun stop_early :: "stop_pc \<Rightarrow> bool" where
  "stop_early SIdle = True"
| "stop_early SExchange = True"
| "stop_early pc = False"

text \<open>A round runs on the connection that is stored, unless \<^verbatim>\<open>stop\<close> has already come by and seen it.\<close>

definition stp_ok :: "client_state \<Rightarrow> bool" where
  "stp_ok s \<longleftrightarrow> (sp_stopped s \<longleftrightarrow> \<not> stop_early (sp_stopper s)) \<and>
     (\<forall>c. sp_worker s = WInner c \<or> sp_worker s = WRound c \<longrightarrow> sp_connection s = Some c) \<and>
     (\<forall>c. sp_worker s = WRound c \<and> past_take (sp_stopper s) \<longrightarrow> sp_stopper s = SInterrupt c \<or> c \<in> set (sp_interrupted s)) \<and>
     (sp_stopper s = SDone \<longrightarrow> sp_worker s = WDone)"

lemma past_not_early [dest]: "past_take pc \<Longrightarrow> \<not> stop_early pc"
  by (cases pc) auto

lemmas stp_defs = client_loop_step_def wait_backoff_step_def stop_step_def notify_wait_def keeps_running_def

lemma stp_step_ok:
  assumes "stp_step s s'" and "stp_ok s"
  shows "stp_ok s'"
  using assms(1)
proof cases
  case (Worker fine)
  then show ?thesis using assms(2) by (cases "sp_worker s") (auto simp: stp_defs stp_ok_def split: if_splits)
next
  case (Wait wake)
  then show ?thesis using assms(2) by (cases "sp_worker s") (auto simp: stp_defs stp_ok_def split: if_splits)
next
  case Stop
  then show ?thesis using assms(2) by (cases "sp_stopper s") (auto simp: stp_defs stp_ok_def split: option.splits if_splits)
qed (use assms(2) in \<open>auto simp: stp_ok_def\<close>)

lemma stp_reach_ok: "stp_reach s \<Longrightarrow> stp_ok s"
proof (induction rule: stp_reach.induct)
  case Start
  then show ?case by (simp add: client_state_new_def stp_ok_def)
qed (rule stp_step_ok)

section \<open>Ending\<close>

text \<open>How many steps are left once \<^verbatim>\<open>stopped_\<close> is set.\<close>

fun worker_left :: "client_pc \<Rightarrow> nat" where
  "worker_left WConnect = 8"
| "worker_left (WStore c) = 7"
| "worker_left (WRound c) = 6"
| "worker_left (WInner c) = 5"
| "worker_left WCleanup = 4"
| "worker_left WEnter = 5"
| "worker_left WSleep = 4"
| "worker_left WBackoff = 3"
| "worker_left WPredicate = 3"
| "worker_left WTest = 1"
| "worker_left WDone = 0"

fun stop_left :: "stop_pc \<Rightarrow> nat" where
  "stop_left SIdle = 9"
| "stop_left SExchange = 8"
| "stop_left SCancel = 7"
| "stop_left SRunning = 6"
| "stop_left SNotify = 5"
| "stop_left SCloseQueue = 4"
| "stop_left STake = 3"
| "stop_left (SInterrupt c) = 2"
| "stop_left (SJoin c) = 1"
| "stop_left SDone = 0"

definition stp_left :: "client_state \<Rightarrow> nat" where
  "stp_left s = worker_left (sp_worker s) + stop_left (sp_stopper s)"

lemma stp_step_left:
  assumes "stp_step s s'" and "sp_stopped s" and "stp_ok s"
  shows "stp_left s' < stp_left s" and "sp_stopped s'"
proof -
  have "stp_left s' < stp_left s \<and> sp_stopped s'"
    using assms(1)
  proof cases
    case (Worker fine)
    then show ?thesis using assms(2) by (cases "sp_worker s") (auto simp: stp_defs stp_left_def split: if_splits)
  next
    case (Wait wake)
    then show ?thesis using assms(2) by (cases "sp_worker s") (auto simp: stp_defs stp_left_def split: if_splits)
  next
    case Stop
    then show ?thesis using assms(2)
      by (cases "sp_stopper s") (auto simp: stp_defs stp_left_def split: option.splits if_splits)
  qed (use assms(2,3) in \<open>simp add: stp_ok_def\<close>)
  then show "stp_left s' < stp_left s" and "sp_stopped s'" by simp_all
qed

lemma stp_steps_left:
  "(stp_step ^^ k) s s' \<Longrightarrow> sp_stopped s \<Longrightarrow> stp_reach s \<Longrightarrow> stp_reach s' \<and> sp_stopped s' \<and> k + stp_left s' \<le> stp_left s"
proof (induction k arbitrary: s')
  case (Suc k)
  then obtain s1 where s1: "(stp_step ^^ k) s s1" "stp_step s1 s'" by auto
  note IH = Suc.IH [OF s1(1) Suc.prems(2,3)]
  then show ?case using stp_step_left [OF s1(2)] stp_reach_ok stp_reach.Step [OF _ s1(2)] by fastforce
qed simp

lemma stp_bound: "stp_ok s \<Longrightarrow> sp_stopped s \<Longrightarrow> stp_left s \<le> 15"
  by (cases "sp_worker s"; cases "sp_stopper s") (simp_all add: stp_left_def stp_ok_def)

lemma stp_stuck:
  assumes "\<nexists>s'. stp_step s s'"
  shows "sp_worker s = WDone" and "sp_stopper s = SDone"
proof -
  have "client_loop_step True s = None" "wait_backoff_step True s = None" "stop_step s = None" "sp_stopper s \<noteq> SIdle"
    using assms stp_step.intros by (metis option.exhaust)+
  then show "sp_worker s = WDone" "sp_stopper s = SDone"
    by (cases "sp_worker s"; cases "sp_stopper s"; simp add: client_loop_step_def wait_backoff_step_def stop_step_def)+
qed

text \<open>C30: Stopping completes and does not leave the worker in input or output: from the moment the flag is set,
  however the two threads interleave and however connecting, sending, receiving and waiting end, at most
  fifteen steps remain; when none is possible the worker has exited and \<^verbatim>\<open>stop\<close> has returned; and while
  \<^verbatim>\<open>stop\<close> joins, a worker that is still in a round is in one on a connection that has been interrupted.\<close>

theorem bridge_stop_ends:
  assumes "stp_reach s" and "sp_stopped s"
  shows "\<forall>k s'. (stp_step ^^ k) s s' \<longrightarrow> k \<le> 15 \<and>
    ((\<nexists>s''. stp_step s' s'') \<longrightarrow> sp_worker s' = WDone \<and> sp_stopper s' = SDone) \<and>
    (\<forall>c d. sp_worker s' = WRound c \<and> sp_stopper s' = SJoin d \<longrightarrow> c \<in> set (sp_interrupted s'))"
proof (intro allI impI)
  fix k s' assume run: "(stp_step ^^ k) s s'"
  have reach: "stp_reach s'" and bound: "k + stp_left s' \<le> stp_left s"
    using stp_steps_left [OF run assms(2,1)] by simp_all
  have "k \<le> 15" using bound stp_bound [OF stp_reach_ok [OF assms(1)] assms(2)] by simp
  moreover have "stp_ok s'" using reach by (rule stp_reach_ok)
  ultimately show "k \<le> 15 \<and> ((\<nexists>s''. stp_step s' s'') \<longrightarrow> sp_worker s' = WDone \<and> sp_stopper s' = SDone) \<and>
      (\<forall>c d. sp_worker s' = WRound c \<and> sp_stopper s' = SJoin d \<longrightarrow> c \<in> set (sp_interrupted s'))"
    using stp_stuck [of s'] by (fastforce simp: stp_ok_def)
qed

section \<open>A lost wake-up\<close>

text \<open>A schedule: each element is a step of the worker (with its outcome) or of the caller of \<^verbatim>\<open>stop\<close>.\<close>

datatype stp_action = DoWork bool | DoWait bool | DoStop | DoCall

fun stp_act :: "stp_action \<Rightarrow> client_state \<Rightarrow> client_state option" where
  "stp_act (DoWork fine) s = client_loop_step fine s"
| "stp_act (DoWait wake) s = wait_backoff_step wake s"
| "stp_act DoStop s = stop_step s"
| "stp_act DoCall s = (if sp_stopper s = SIdle then Some (s\<lparr>sp_stopper := SExchange\<rparr>) else None)"

fun stp_run :: "stp_action list \<Rightarrow> client_state \<Rightarrow> client_state option" where
  "stp_run [] s = Some s"
| "stp_run (a # as) s = Option.bind (stp_act a s) (stp_run as)"

lemma stp_run_reach: "stp_run as s = Some s' \<Longrightarrow> stp_reach s \<Longrightarrow> stp_reach s'"
proof (induction as arbitrary: s)
  case (Cons a as)
  then obtain s1 where s1: "stp_act a s = Some s1" "stp_run as s1 = Some s'" by (auto simp: bind_eq_Some_conv)
  have "stp_step s s1" using s1(1) by (cases a) (auto intro: stp_step.intros split: if_splits)
  then show ?case using Cons.IH [OF s1(2)] stp_reach.Step [OF Cons.prems(2)] by blast
qed simp

definition lost_wakeup :: client_state where
  "lost_wakeup = client_state_new\<lparr>sp_stopped := True, sp_running := False, sp_queue_closed := True,
     sp_worker := WSleep, sp_stopper := SJoin None\<rparr>"

lemma lost_wakeup_reach: "stp_reach lost_wakeup"
proof -
  have "stp_run ([DoWork True, DoWork False, DoWork True, DoWork True, DoWait True, DoCall] @ replicate 5 DoStop @
      [DoWait True, DoStop]) client_state_new = Some lost_wakeup"
    by (simp add: stp_defs client_state_new_def lost_wakeup_def numeral_eq_Suc)
  then show ?thesis using stp_run_reach stp_reach.Start by blast
qed

text \<open>C31: \<^verbatim>\<open>stop\<close> sends its notification without holding \<^verbatim>\<open>wait_mutex\<close>. When it comes between the worker's test of the
  predicate and its sleep, it is lost: the worker sleeps, the notification has been sent, and
  \<^verbatim>\<open>stop\<close> cannot go on; only the end of the backoff (or a spurious wake-up) lets them continue.\<close>

theorem wakeup_can_be_lost:
  "stp_reach lost_wakeup \<and> stop_step lost_wakeup = None \<and> client_loop_step fine lost_wakeup = None \<and>
   \<not> keeps_running lost_wakeup \<and> {s'. stp_step lost_wakeup s'} = {s'. \<exists>wake. wait_backoff_step wake lost_wakeup = Some s'}"
proof -
  have "stop_step lost_wakeup = None" "client_loop_step f lost_wakeup = None" "\<not> keeps_running lost_wakeup"
    "sp_stopper lost_wakeup \<noteq> SIdle" for f by (simp_all add: stp_defs lost_wakeup_def)
  then show ?thesis using lost_wakeup_reach by (auto elim!: stp_step.cases intro: stp_step.Wait)
qed

text \<open>In that situation the call still returns, once the sleep is over.\<close>

lemma lost_wakeup_ends:
  "(stp_step ^^ 3) lost_wakeup (lost_wakeup\<lparr>sp_worker := WDone, sp_stopper := SDone\<rparr>)"
proof -
  have "stp_step lost_wakeup (lost_wakeup\<lparr>sp_worker := WTest\<rparr>)"
    by (rule stp_step.Wait [of False]) (simp add: stp_defs lost_wakeup_def)
  moreover have "stp_step (lost_wakeup\<lparr>sp_worker := WTest\<rparr>) (lost_wakeup\<lparr>sp_worker := WDone\<rparr>)"
    by (rule stp_step.Worker [of True]) (simp add: stp_defs lost_wakeup_def)
  moreover have "stp_step (lost_wakeup\<lparr>sp_worker := WDone\<rparr>) (lost_wakeup\<lparr>sp_worker := WDone, sp_stopper := SDone\<rparr>)"
    by (rule stp_step.Stop) (simp add: stp_defs lost_wakeup_def)
  ultimately show ?thesis unfolding numeral_3_eq_3 by (meson relpowp_0_I relpowp_Suc_I)
qed

theorem bridge_stop_ends_witness:
  "\<exists>s. (stp_step ^^ 3) lost_wakeup s \<and> (\<nexists>s'. stp_step s s') \<and> sp_worker s = WDone \<and> sp_stopper s = SDone"
proof -
  let ?s = "lost_wakeup\<lparr>sp_worker := WDone, sp_stopper := SDone\<rparr>"
  have final: "\<nexists>s'. stp_step ?s s'" by (auto elim!: stp_step.cases simp: stp_defs)
  moreover have "sp_stopped lost_wakeup" by (simp add: lost_wakeup_def)
  then have "sp_worker ?s = WDone \<and> sp_stopper ?s = SDone"
    using bridge_stop_ends [OF lost_wakeup_reach, THEN spec [of _ 3], THEN spec [of _ ?s]] lost_wakeup_ends final by blast
  ultimately show ?thesis using lost_wakeup_ends by blast
qed

end
