(* ===== verification/Rml_Bridge_Link.thy ===== *)
theory Rml_Bridge_Link
  imports Rml_Bridge_Client Rml_Bridge_Server Rml_Tcp
begin

text \<open>
  From bridge to bridge over a TCP connection: the thread of the bridge client works on a connection of
  \<open>Rml_Tcp\<close>, and what it writes to it is what the bridge server takes in. The thread only needs the contract of a
  link (\<open>frame_link\<close>); the lemmas on it are proved there, once.
\<close>

section \<open>What a client thread writes\<close>

fun in_session :: "client_at \<Rightarrow> bool" where
  "in_session (CInner cs) = True"
| "in_session (CBatch k cs) = True"
| "in_session (CReceive cs) = True"
| "in_session (CBeat now cs) = True"
| "in_session (CIdle now cs) = True"
| "in_session pc = False"

text \<open>The link of the thread is made of the calls of a channel.\<close>

definition link_of ::
  "('q \<Rightarrow> frame \<Rightarrow> 's \<Rightarrow> (unit result \<times> 's) option) \<Rightarrow> ('p \<Rightarrow> 's \<Rightarrow> (frame option result \<times> 's) option) \<Rightarrow>
   ('s \<Rightarrow> frame list \<Rightarrow> bool) \<Rightarrow> 's link \<Rightarrow> bool" where
  "link_of send receive written lk \<longleftrightarrow>
     (\<forall>f s r s'. lk_send lk f s = (r, s') \<longrightarrow> (\<exists>q. send q f s = Some (r, s'))) \<and>
     (\<forall>s r s'. lk_receive lk s = (r, s') \<longrightarrow> (\<exists>q. receive q s = Some (r, s'))) \<and>
     (\<forall>s s'. lk_connect lk s = (Inr (), s') \<longrightarrow> written s' [])"

text \<open>During a session, the frames recorded for the present connection are those written to it.\<close>

definition wire_ok :: "('s \<Rightarrow> frame list \<Rightarrow> bool) \<Rightarrow> ('s, 'w) client_thread \<Rightarrow> bool" where
  "wire_ok written t \<longleftrightarrow>
     (in_session (ct_at t) \<longrightarrow> (\<exists>wire wires. ct_wires t = wire # wires \<and> written (ct_net t) wire))"

context frame_link
begin

lemma link_calls:
  assumes "link_of send receive written lk"
  shows "written s fs \<Longrightarrow> lk_send lk f s = (Inr (), s') \<Longrightarrow> written s' (fs @ [f])"
    and "written s fs \<Longrightarrow> lk_receive lk s = (Inr fo, s') \<Longrightarrow> written s' fs"
    and "lk_connect lk s = (Inr (), s') \<Longrightarrow> written s' []"
  using assms send_appends receive_keeps unfolding link_of_def by metis+

lemma wire_ok_step:
  assumes lk: "link_of send receive written lk" and ok: "wire_ok written t"
  shows "wire_ok written (client_thread_step lk wait options t)"
proof (cases "ct_at t")
  case CConnect
  obtain r n1 where "lk_connect lk (ct_net t) = (r, n1)" by force
  then show ?thesis using CConnect link_calls(3) [OF lk]
    by (cases r) (auto simp: wire_ok_def thread_step_defs Let_def)
next
  case (CBatch k cs)
  then obtain wire wires where wire: "ct_wires t = wire # wires" "written (ct_net t) wire" using ok by (auto simp: wire_ok_def)
  show ?thesis
  proof (cases k)
    case 0
    then show ?thesis using CBatch wire by (simp add: wire_ok_def thread_step_defs)
  next
    case (Suc j)
    obtain fo q where pop: "try_pop (br_outbound (ct_bridge t)) = (fo, q)" by force
    show ?thesis
    proof (cases fo)
      case None
      then show ?thesis using CBatch Suc wire pop by (simp add: wire_ok_def thread_step_defs)
    next
      case (Some f)
      obtain r n1 where "lk_send lk f (ct_net t) = (r, n1)" by force
      then show ?thesis using CBatch Suc wire pop Some link_calls(1) [OF lk wire(2)]
        by (cases r) (auto simp: wire_ok_def thread_step_defs)
    qed
  qed
next
  case (CReceive cs)
  then obtain wire wires where wire: "ct_wires t = wire # wires" "written (ct_net t) wire" using ok by (auto simp: wire_ok_def)
  obtain r n1 where recv: "lk_receive lk (ct_net t) = (r, n1)" by force
  show ?thesis using CReceive wire recv link_calls(2) [OF lk wire(2)]
    by (cases r rule: result_option_cases) (auto simp: wire_ok_def thread_step_defs Let_def split: prod.splits sum.splits)
next
  case (CBeat now cs)
  then obtain wire wires where wire: "ct_wires t = wire # wires" "written (ct_net t) wire" using ok by (auto simp: wire_ok_def)
  let ?f = "make_heartbeat_frame (br_publisher_id (ct_bridge t)) (cs_heartbeat_sequence cs) (of_int (lk_now lk (ct_net t)))"
  obtain r n1 where "lk_send lk ?f (ct_net t) = (r, n1)" by force
  then show ?thesis using CBeat wire link_calls(1) [OF lk wire(2)]
    by (cases r) (auto simp: wire_ok_def thread_step_defs Let_def)
qed (use ok in \<open>auto simp: wire_ok_def thread_step_defs Let_def\<close>)

end

text \<open>What the history says about the frames themselves, whatever the link: besides the frames from the outbound
  queue, which are data, only heartbeats are written.\<close>

definition is_data :: "frame \<Rightarrow> bool" where
  "is_data f \<longleftrightarrow> \<not> has_heartbeat_flag f"

definition wires_ok :: "('n, 'w) client_thread \<Rightarrow> bool" where
  "wires_ok t \<longleftrightarrow> concat (map (filter is_data) (rev (ct_wires t))) = ct_sent t \<and>
     (\<forall>wire \<in> set (ct_wires t). \<forall>f \<in> set wire. is_data f \<or> is_heartbeat_frame f \<and> frame_ok f) \<and>
     (in_session (ct_at t) \<longrightarrow> ct_wires t \<noteq> [])"

lemma heartbeat_made:
  "is_heartbeat_frame (make_heartbeat_frame p q now)" "frame_ok (make_heartbeat_frame p q now)"
  "\<not> is_data (make_heartbeat_frame p q now)"
proof -
  show beat: "is_heartbeat_frame (make_heartbeat_frame p q now)"
    by (simp add: is_heartbeat_frame_def make_heartbeat_frame_def empty_frame_def)
  then show "\<not> is_data (make_heartbeat_frame p q now)" by (simp add: is_data_def is_heartbeat_has_flag)
  show "frame_ok (make_heartbeat_frame p q now)"
    by (simp add: frame_ok_def fits_def make_heartbeat_frame_def empty_frame_def kHeartbeatTopic_def)
qed

lemma wires_ok_step:
  assumes ok: "wires_ok t" and data: "\<forall>f \<in> set (q_items (br_outbound (ct_bridge t))). is_data f"
  shows "wires_ok (client_thread_step lk wait options t)"
proof (cases "ct_at t")
  case CConnect
  obtain r n1 where "lk_connect lk (ct_net t) = (r, n1)" by force
  then show ?thesis using CConnect ok by (cases r) (auto simp: wires_ok_def thread_step_defs Let_def)
next
  case (CBatch k cs)
  then obtain wire wires where wire: "ct_wires t = wire # wires" using ok by (cases "ct_wires t") (auto simp: wires_ok_def)
  show ?thesis
  proof (cases "\<exists>j f fs. k = Suc j \<and> q_items (br_outbound (ct_bridge t)) = f # fs")
    case False
    then show ?thesis using CBatch ok wire
      by (cases k; cases "q_items (br_outbound (ct_bridge t))") (auto simp: wires_ok_def thread_step_defs try_pop_def)
  next
    case True
    then obtain j f fs where k: "k = Suc j" "q_items (br_outbound (ct_bridge t)) = f # fs" by blast
    obtain r n1 where "lk_send lk f (ct_net t) = (r, n1)" by force
    then show ?thesis using CBatch k wire ok data
      by (cases r) (auto simp: wires_ok_def thread_step_defs try_pop_def pop_front_def)
  qed
next
  case (CReceive cs)
  obtain r n1 where recv: "lk_receive lk (ct_net t) = (r, n1)" by force
  show ?thesis using CReceive recv ok
    by (cases r rule: result_option_cases) (auto simp: wires_ok_def thread_step_defs Let_def split: prod.splits sum.splits)
next
  case (CBeat now cs)
  then obtain wire wires where wire: "ct_wires t = wire # wires" using ok by (cases "ct_wires t") (auto simp: wires_ok_def)
  let ?f = "make_heartbeat_frame (br_publisher_id (ct_bridge t)) (cs_heartbeat_sequence cs) (of_int (lk_now lk (ct_net t)))"
  obtain r n1 where "lk_send lk ?f (ct_net t) = (r, n1)" by force
  then show ?thesis using CBeat wire ok heartbeat_made [of "br_publisher_id (ct_bridge t)" "cs_heartbeat_sequence cs" "of_int (lk_now lk (ct_net t))"]
    by (cases r) (auto simp: wires_ok_def thread_step_defs Let_def)
qed (use ok in \<open>auto simp: wires_ok_def thread_step_defs Let_def\<close>)

section \<open>The client over TCP\<close>

text \<open>Connecting, as the thread does it: a client object for the address, its connection, and the send timeout; when
  setting that fails, the connection is closed with its object.\<close>

definition tcp_open ::
  "nat \<Rightarrow> 'n os \<Rightarrow> string \<Rightarrow> u16 \<Rightarrow> reconnect_options \<Rightarrow> tcp_connection \<times> 'n \<Rightarrow> (unit result \<times> tcp_connection \<times> 'n) option" where
  "tcp_open pf os host port options s =
     (case tcp_client_new host port default_limits of
        Inl e \<Rightarrow> Some (Inl e, s)
      | Inr client \<Rightarrow> (case tcp_connect pf os (ro_connect_timeout options) client (snd s) of
            None \<Rightarrow> None
          | Some (Inl e, n1) \<Rightarrow> Some (Inl e, fst s, n1)
          | Some (Inr c, n1) \<Rightarrow> (case set_send_timeout os (ro_send_timeout options) c n1 of
                (Inl e, n2) \<Rightarrow> Some (Inl e, fst s, snd (close_noexcept os c n2))
              | (Inr _, n2) \<Rightarrow> Some (Inr (), c, n2))))"

text \<open>The thread's link over TCP: a state is the connection and the platform. The calls return, with some bound.\<close>

definition link_over_tcp ::
  "'n os \<Rightarrow> string \<Rightarrow> u16 \<Rightarrow> reconnect_options \<Rightarrow> (tcp_connection \<times> 'n) link \<Rightarrow> bool" where
  "link_over_tcp os host port options lk \<longleftrightarrow>
     (\<forall>s. \<exists>pf. tcp_open pf os host port options s = Some (lk_connect lk s)) \<and>
     (\<forall>f s. \<exists>fuel. tcp_send os fuel f s = Some (lk_send lk f s)) \<and>
     (\<forall>s. \<exists>fuel pf. tcp_receive_frame fuel pf os (ro_io_poll_interval options) (fst s) (snd s) = Some (lk_receive lk s)) \<and>
     (\<forall>c n. lk_close lk (c, n) = tcp_close os c (interrupt os c n))"

lemma tcp_open_written:
  assumes out: "tcp_out os out" and run: "tcp_open pf os host port options s = Some (Inr (), s')"
  shows "tcp_written os out s' []"
proof -
  obtain client c n1 n2 where new: "tcp_client_new host port default_limits = Inr client"
    and connect: "tcp_connect pf os (ro_connect_timeout options) client (snd s) = Some (Inr c, n1)"
    and timeout: "set_send_timeout os (ro_send_timeout options) c n1 = (Inr (), n2)" and s': "s' = (c, n2)"
    using run by (auto simp: tcp_open_def split: sum.splits option.splits prod.splits)
  have "tcl_frame_limits client = default_limits" using new by (auto simp: tcp_client_new_def split: if_splits)
  moreover have "out (tc_socket_fd c) n2 = out (tc_socket_fd c) n1"
    using timeout
    by (auto simp: set_send_timeout_def Let_def split: if_splits prod.splits option.splits dest: tcp_outD(10) [OF out])
  ultimately show ?thesis using tcp_connect_out [OF out connect] out by (simp add: tcp_written_def s')
qed

lemma tcp_link_of:
  assumes "tcp_out os out" and "link_over_tcp os host port options lk"
  shows "link_of (tcp_send os) (tcp_source os) (tcp_written os out) lk"
proof -
  have "\<exists>q. tcp_send os q f s = Some (r, s')" if "lk_send lk f s = (r, s')" for f s r s'
    using assms(2) that unfolding link_over_tcp_def by metis
  moreover have "\<exists>q. tcp_source os q s = Some (r, s')" if recv: "lk_receive lk s = (r, s')" for s r s'
  proof -
    have "\<exists>fuel pf. tcp_receive_frame fuel pf os (ro_io_poll_interval options) (fst s) (snd s) = Some (lk_receive lk s)"
      using assms(2) unfolding link_over_tcp_def by blast
    then obtain fuel pf where "tcp_receive_frame fuel pf os (ro_io_poll_interval options) (fst s) (snd s) = Some (r, s')"
      using recv by auto
    then show ?thesis by (intro exI [of _ "(fuel, pf, ro_io_poll_interval options)"]) (simp add: tcp_source_def)
  qed
  moreover have "tcp_written os out s' []" if "lk_connect lk s = (Inr (), s')" for s s'
    using assms(2) that tcp_open_written [OF assms(1)] unfolding link_over_tcp_def by metis
  ultimately show ?thesis unfolding link_of_def by blast
qed

text \<open>The client program as a whole.\<close>

lemma exported_frame_facts:
  assumes "exported p m f"
  shows "fr_flags f = 0" "is_data f" "frame_ok f" "fr_topic f = client_topic" "fr_publisher_id f = p"
    "fr_type_id f = mt_type_id imu_traits" "fr_schema_hash f = mt_schema_hash imu_traits"
    "deserialize_frame imu_traits f client_topic = Inr m"
proof -
  obtain now where f: "make_frame imu_traits client_topic m (fr_sequence f) p now = Inr f" using assms by (auto simp: exported_def)
  note facts = make_frame_Inr(3) [OF f]
  show "fr_flags f = 0" by (subst facts) (simp add: empty_frame_def)
  then show "is_data f" by (simp add: is_data_def has_heartbeat_flag_zero)
  show "frame_ok f" by (rule imu.made_frame_fits_default_limits(1) [OF f fits_client_topic])
  show "fr_topic f = client_topic" "fr_publisher_id f = p" "fr_type_id f = mt_type_id imu_traits"
    "fr_schema_hash f = mt_schema_hash imu_traits"
    by (subst facts, simp)+
  show "deserialize_frame imu_traits f client_topic = Inr m" using imu.made_frame_deserializes [OF f] by blast
qed

lemma list_all2_right: "list_all2 P xs ys \<Longrightarrow> y \<in> set ys \<Longrightarrow> \<exists>x. P x y"
  by (induction rule: list_all2_induct) auto

lemma bc_ok_data:
  assumes "bc_ok p n handled kept s" and "f \<in> set (bc_sent s) \<union> set (q_items (br_outbound (bc_bridge s)))"
  shows "is_data f \<and> frame_ok f"
proof -
  have "list_all2 (exported p) kept (bc_sent s @ q_items (br_outbound (bc_bridge s)))"
    using assms(1) by (auto simp: bc_ok_def exports_def)
  then obtain m where "exported p m f"
    using assms(2) list_all2_right [of "exported p" kept "bc_sent s @ q_items (br_outbound (bc_bridge s))" f] by auto
  then show ?thesis using exported_frame_facts by blast
qed

lemma bc_reach_wires:
  assumes lk: "link_of (tcp_send os) (tcp_source os) (tcp_written os out) lk"
  shows "bc_reach lk wait n s \<Longrightarrow> wire_ok (tcp_written os out) (bc_client s) \<and> wires_ok (bc_client s)"
proof (induction rule: bc_reach.induct)
  case (Start spawn t h config br bus b net)
  show ?case by (simp add: bclient_new_def client_thread_new_def wire_ok_def wires_ok_def)
next
  case (Step s s')
  from Step.hyps(2) show ?case
  proof cases
    case (Deliver ev sub' alloc now)
    then show ?thesis using Step.IH by (cases ev) (simp_all add: wire_ok_def wires_ok_def)
  next
    case Client
    obtain p handled kept where "bc_ok p n handled kept s" using bc_reach_ok [OF Step.hyps(1)] by blast
    then have "\<forall>f \<in> set (q_items (br_outbound (bc_bridge s))). is_data f" using bc_ok_data by blast
    then have "wires_ok (client_thread_step lk wait default_reconnect_options (bc_client s))"
      using Step.IH by (intro wires_ok_step) simp_all
    moreover have "wire_ok (tcp_written os out) (client_thread_step lk wait default_reconnect_options (bc_client s))"
      using Step.IH by (intro tcp_link.wire_ok_step [OF lk]) simp
    ultimately show ?thesis using Client by simp
  qed (use Step.IH in simp_all)
qed

text \<open>In the first session, the bytes on the connection are the images of the frames of its history, and the data
  frames among them are what the client counts as sent.\<close>

lemma bc_first_session:
  assumes out: "tcp_out os out" and lk: "link_over_tcp os host port options lk" and reach: "bc_reach lk wait n s"
    and up: "in_session (ct_at (bc_client s))" and first: "ct_wires (bc_client s) = [wire]"
    and net: "ct_net (bc_client s) = (c, state)"
  shows "out (tc_socket_fd c) state = wire_image wire" and "\<forall>f \<in> set wire. sendable default_limits f"
    and "filter is_data wire = bc_sent s" and "\<forall>f \<in> set wire. is_data f \<or> is_heartbeat_frame f"
proof -
  obtain p handled kept where ok: "bc_ok p n handled kept s" using bc_reach_ok [OF reach] by blast
  have wires: "wire_ok (tcp_written os out) (bc_client s)" "wires_ok (bc_client s)"
    using bc_reach_wires [OF tcp_link_of [OF out lk] reach] by simp_all
  show data: "filter is_data wire = bc_sent s" and kinds: "\<forall>f \<in> set wire. is_data f \<or> is_heartbeat_frame f"
    using wires(2) first by (auto simp: wires_ok_def)
  have frame_ok: "\<forall>f \<in> set wire. frame_ok f"
  proof
    fix f
    assume f: "f \<in> set wire"
    show "frame_ok f"
    proof (cases "is_data f")
      case True
      then have "f \<in> set (bc_sent s)" using f by (simp flip: data)
      then show ?thesis using bc_ok_data [OF ok] by blast
    next
      case False
      then show ?thesis using wires(2) first f by (auto simp: wires_ok_def)
    qed
  qed
  have "tcp_written os out (c, state) wire" using wires(1) up first net by (auto simp: wire_ok_def)
  then show "out (tc_socket_fd c) state = wire_image wire" and "\<forall>f \<in> set wire. sendable default_limits f"
    using frame_ok by (auto simp: tcp_written_def sendable_def)
qed

section \<open>The server's intake\<close>

text \<open>The rounds of a session's loop on its connection, up to the one that ends it, if any; a state is the connection,
  the loop's variables, the statistics, the platform and the handler's world.\<close>

inductive session_run ::
  "'n os \<Rightarrow> session_options \<Rightarrow> 'w frame_handler \<Rightarrow> u64 \<Rightarrow> u64 \<Rightarrow>
   tcp_connection \<times> worker_locals \<times> session_stats \<times> 'n \<times> 'w \<Rightarrow>
   round_end result \<Rightarrow> tcp_connection \<times> worker_locals \<times> session_stats \<times> 'n \<times> 'w \<Rightarrow> bool"
  for os :: "'n os" and options and handler :: "'w frame_handler" and mid sid start where
  Begin: "session_run os options handler mid sid start (Inr Continue) start"
| Round: "session_run os options handler mid sid start (Inr Continue) (c, wl, st, n, w) \<Longrightarrow>
    session_round fuel pf os options handler mid sid c wl st n w = Some (r, s) \<Longrightarrow>
    session_run os options handler mid sid start r s"

text \<open>A connection used in both directions: sending does not touch what is to be read.\<close>

definition tcp_two_way :: "'n os \<Rightarrow> int \<Rightarrow> ('n \<Rightarrow> byte_buffer) \<Rightarrow> bool" where
  "tcp_two_way os fd incoming \<longleftrightarrow> tcp_stream os fd incoming \<and>
     (\<forall>data n. incoming (snd (os_send os fd data n)) = incoming n)"

lemma send_loop_incoming:
  assumes "tcp_two_way os fd incoming"
  shows "send_loop fuel os fd data offset n = Some (r, n') \<Longrightarrow> incoming n' = incoming n"
proof (induction fuel arbitrary: offset n)
  case (Suc fuel)
  let ?chunk = "take (min (length data - offset) ssize_max) (drop offset data)"
  obtain so n1 where send: "os_send os fd ?chunk n = (so, n1)" by force
  then have "incoming n1 = incoming n" using assms unfolding tcp_two_way_def by (metis snd_conv)
  then show ?case using Suc send by (cases so) (auto simp: Let_def split: if_splits)
qed (auto split: if_splits)

lemma session_keepalive_incoming:
  assumes two: "tcp_two_way os (tc_socket_fd c) incoming"
    and run: "session_keepalive fuel os options mid now c wl st n = Some (r, wl', st', n')"
  shows "incoming n' = incoming n" and "st_protocol_errors st' = st_protocol_errors st"
proof -
  have sent: "incoming n2 = incoming n1" if "tcp_send_frame fuel os f c n1 = Some (r', n2)" for f n1 r' n2
    using that send_loop_incoming [OF two] by (auto simp: tcp_send_frame_def send_all_def split: sum.splits if_splits)
  have now: "incoming n1 = incoming n" if "os_now os n = (t, n1)" for t n1
    using that two tcp_streamD(1) by (metis tcp_two_way_def)
  show "incoming n' = incoming n"
    using run by (auto simp: session_keepalive_def Let_def split: if_splits prod.splits option.splits sum.splits dest!: sent now)
  show "st_protocol_errors st' = st_protocol_errors st"
    using run by (auto simp: session_keepalive_def Let_def tick_def split: if_splits prod.splits option.splits sum.splits)
qed

text \<open>Frames of publisher \<open>p\<close> numbered from \<open>q\<close> on have not been seen.\<close>

definition unseen :: "u64 \<Rightarrow> nat \<Rightarrow> server_world \<Rightarrow> bool" where
  "unseen p q w \<longleftrightarrow> (\<forall>f found. fr_topic f = client_topic \<and> fr_publisher_id f = p \<and>
     map_of (br_highest_sequences (sw_bridge w)) (duplicate_key f) = Some found \<longrightarrow> unat (sq_highest found) < q)"

text \<open>What the server's subscription has in its mailbox, the messages in frames, and what taking in frames adds to the
  count of imported frames and to the mailbox: their messages are delivered to it one after the other.\<close>

definition server_mailbox :: "server_world \<Rightarrow> imu_msg control_block option" where
  "server_mailbox w = bus_blocks (sw_bus w) 0"

definition messages_of :: "frame list \<Rightarrow> imu_msg list" where
  "messages_of gs = map (\<lambda>f. projr (deserialize_frame imu_traits f imu_name)) (filter is_data gs)"

definition enqueue_all :: "(nat \<Rightarrow> bool result) \<Rightarrow> imu_msg list \<Rightarrow> imu_msg control_block \<Rightarrow> imu_msg control_block" where
  "enqueue_all posts msgs b = fold (\<lambda>msg b. snd (enqueue msg (posts 0) True b)) msgs b"

definition gained :: "(nat \<Rightarrow> bool result) \<Rightarrow> frame list \<Rightarrow> server_world \<Rightarrow> server_world \<Rightarrow> bool" where
  "gained posts gs w w' \<longleftrightarrow>
     bs_imported (br_stats (sw_bridge w')) = bs_imported (br_stats (sw_bridge w)) + of_nat (length (filter is_data gs)) \<and>
     server_mailbox w' = map_option (enqueue_all posts (messages_of gs)) (server_mailbox w)"

lemma gained_none [simp]: "\<forall>f \<in> set gs. \<not> is_data f \<Longrightarrow> gained posts gs w w"
proof -
  assume "\<forall>f \<in> set gs. \<not> is_data f"
  then have none: "filter is_data gs = []" by (simp add: filter_empty_conv)
  show ?thesis by (cases "server_mailbox w") (simp_all add: gained_def messages_of_def enqueue_all_def none)
qed

lemma gained_append: "gained posts gs w w1 \<Longrightarrow> gained posts hs w1 w2 \<Longrightarrow> gained posts (gs @ hs) w w2"
  by (cases "server_mailbox w") (simp_all add: gained_def messages_of_def enqueue_all_def)

text \<open>A data frame with a new number is imported, and its message published.\<close>

lemma server_intake_one:
  assumes ok: "srv_ok posts m w" and posts: "posts 0 = Inr posted" and f: "exported p msg f"
    and new: "unseen p (unat (fr_sequence f)) w"
  shows "\<exists>st' w'. session_incoming server_handler sid f (sm_stats m) w = (Inr (), st', w') \<and>
    srv_ok posts (m\<lparr>sm_stats := st'\<rparr>) w' \<and> unseen p (Suc (unat (fr_sequence f))) w' \<and> gained posts [f] w w'"
proof -
  note facts = exported_frame_facts [OF f]
  have no_beat: "\<not> has_heartbeat_flag f" using facts(2) by (simp add: is_data_def)
  obtain b where bus: "imu_bus b (sw_bus w)" and account: "mailbox_account (bs_imported (br_stats (sw_bridge w))) (sw_received w) b"
    using ok by (auto simp: srv_ok_def)
  obtain d b' where enq: "enqueue msg (posts 0) True b = (Inr d, b')" using mailbox_enqueue [where posts = posts, OF account posts] by blast
  obtain res s' where pub: "publish_remote posts imu_traits imu_type \<lparr>pub_bus = True, pub_topic = imu_name\<rparr> msg (sw_bus w) = (Inr res, s')"
    "imu_bus b' s'" using imu_bus_publish [where posts = posts, OF bus enq] by blast
  have fresh: "unat (sq_highest found) < unat (fr_sequence f)"
    if "map_of (br_highest_sequences (sw_bridge w)) (duplicate_key f) = Some found" for found
    using new facts(4,5) that by (auto simp: unseen_def)
  have "reserve (br_max_dedup_entries (sw_bridge w)) f (br_highest_sequences (sw_bridge w)) \<noteq> None"
    using fresh by (fastforce simp: reserve_def Let_def word_le_nat_alt split: option.splits)
  then obtain table where table: "reserve (br_max_dedup_entries (sw_bridge w)) f (br_highest_sequences (sw_bridge w)) = Some table"
    by auto
  have same_topic: "client_topic = imu_name" by (simp add: client_topic_def imu_name_def)
  let ?br = "count bs_imported_update ((sw_bridge w)\<lparr>br_highest_sequences := table\<rparr>)"
  have "bridge_receive f (sw_bridge w) (sw_bus w) = (True, ?br, s')"
    using ok facts no_beat table pub(1) same_topic
    by (simp add: bridge_receive_def srv_ok_def imu_route_def import_handler_def)
  then have handler: "server_handler sid f w = (Inr (), w\<lparr>sw_bridge := ?br, sw_bus := s'\<rparr>)" by (simp add: server_handler_def)
  let ?st = "tick st_frames_received_update (sm_stats m)"
  have "session_incoming server_handler sid f (sm_stats m) w = (Inr (), ?st, w\<lparr>sw_bridge := ?br, sw_bus := s'\<rparr>)"
    using no_beat facts(1) handler by (simp add: session_incoming_def)
  moreover have "srv_ok posts (m\<lparr>sm_stats := ?st\<rparr>) (w\<lparr>sw_bridge := ?br, sw_bus := s'\<rparr>)"
    by (rule server_handler_ok [OF ok posts no_beat facts(1) handler]) (simp add: intake_def tick_def)
  moreover have "unseen p (Suc (unat (fr_sequence f))) (w\<lparr>sw_bridge := ?br, sw_bus := s'\<rparr>)"
    using table new less_SucI
    by (fastforce simp: unseen_def reserve_def count_def Let_def update_conv' split: option.splits if_splits)
  moreover have "bs_imported (br_stats ?br) = bs_imported (br_stats (sw_bridge w)) + 1" by (simp add: count_def)
  moreover have "server_mailbox w = Some b" "server_mailbox (w\<lparr>sw_bridge := ?br, sw_bus := s'\<rparr>) = Some b'"
    using bus pub(2) by (simp_all add: server_mailbox_def imu_bus_def)
  moreover have "messages_of [f] = [msg]" using facts(8) facts(2) same_topic by (simp add: messages_of_def)
  ultimately show ?thesis using enq facts(2)
    by (intro exI [of _ ?st] exI [of _ "w\<lparr>sw_bridge := ?br, sw_bus := s'\<rparr>"]) (simp add: gained_def enqueue_all_def)
qed

text \<open>The invariant of such a session: \<open>fs\<close> are the frames still to be received, \<open>ms\<close> the messages imported so far.\<close>

definition run_ok ::
  "(nat \<Rightarrow> bool result) \<Rightarrow> session_manager \<Rightarrow> u64 \<Rightarrow> ('n \<Rightarrow> byte_buffer) \<Rightarrow> int \<Rightarrow> frame list \<Rightarrow>
   tcp_connection \<times> worker_locals \<times> session_stats \<times> 'n \<times> server_world \<Rightarrow> bool" where
  "run_ok posts m p incoming fd fs s \<longleftrightarrow> (case s of (c, wl, st, n, w) \<Rightarrow>
     tc_socket_fd c = fd \<and> srv_ok posts (m\<lparr>sm_stats := st\<rparr>) w \<and> tcp_holds incoming (c, n) fs \<and>
     (\<forall>f \<in> set (filter is_data fs). unseen p (unat (fr_sequence f)) w))"

lemma run_ok_stats:
  assumes "srv_ok posts (m\<lparr>sm_stats := st\<rparr>) w" and "intake st' = intake st"
  shows "srv_ok posts (m\<lparr>sm_stats := st'\<rparr>) w"
  using assms by (simp add: srv_ok_def)

lemma keepalive_run_ok:
  assumes two: "tcp_two_way os fd incoming" and now: "os_now os n1 = (t, n2)" and fd: "tc_socket_fd c = fd"
    and run: "session_keepalive fuel os options mid t c wl st n2 = Some (r, wl', st', n')"
    and ok: "run_ok posts m p incoming fd fs (c, wl0, st, n1, w)"
  shows "run_ok posts m p incoming fd fs (c, wl', st', n', w) \<and> st_protocol_errors st' = st_protocol_errors st"
proof -
  have "incoming n2 = incoming n1" using two now tcp_streamD(1) by (metis tcp_two_way_def)
  then have "incoming n' = incoming n1" using session_keepalive_incoming(1) [OF two [folded fd] run] by simp
  moreover have "srv_ok posts (m\<lparr>sm_stats := st'\<rparr>) w"
    using ok run_ok_stats session_keepalive_intake [OF run] by (auto simp: run_ok_def)
  ultimately show ?thesis
    using ok session_keepalive_incoming(2) [OF two [folded fd] run] by (auto simp: run_ok_def tcp_holds_def)
qed

lemma session_round_ok:
  assumes two: "tcp_two_way os fd incoming" and ok: "run_ok posts m p incoming fd fs (c, wl, st, n, w)"
    and posts: "posts 0 = Inr posted" and msgs: "list_all2 (exported p) msgs (filter is_data fs)"
    and kinds: "\<forall>f \<in> set fs. is_data f \<or> is_heartbeat_frame f"
    and sorted: "sorted_wrt (<) (map (unat \<circ> fr_sequence) (filter is_data fs))"
    and run: "session_round fuel pf os options server_handler mid sid c wl st n w = Some (r, c', wl', st', n', w')"
  shows "\<exists>gs rest. fs = gs @ rest \<and> st_protocol_errors st' = st_protocol_errors st \<and>
    srv_ok posts (m\<lparr>sm_stats := st'\<rparr>) w' \<and> gained posts gs w w' \<and>
    (is_ok r \<longrightarrow> run_ok posts m p incoming fd rest (c', wl', st', n', w'))"
proof -
  have fd: "tc_socket_fd c = fd" and srv: "srv_ok posts (m\<lparr>sm_stats := st\<rparr>) w" and holds: "tcp_holds incoming (c, n) fs"
    and unseen: "\<forall>f \<in> set (filter is_data fs). unseen p (unat (fr_sequence f)) w" using ok by (auto simp: run_ok_def)
  have stream: "tcp_stream os (tc_socket_fd c) incoming" using two fd by (simp add: tcp_two_way_def)
  obtain ri c1 n1 where recv: "tcp_receive_frame fuel pf os (sm_receive_poll_interval options) c n = Some (ri, c1, n1)"
    using run by (auto simp: session_round_def split: option.splits)
  obtain t n2 where now: "os_now os n1 = (t, n2)" by force
  show ?thesis
  proof (cases ri rule: result_option_cases)
    case (1 e)
    then show ?thesis using run recv srv by (intro exI [of _ "[]"] exI [of _ fs]) (auto simp: session_round_def)
  next
    case 2
    obtain wl1 st1 n3 where keep: "session_keepalive fuel os options mid t c1 wl st n2 = Some (r, wl1, st1, n3)"
      and res: "c' = c1" "wl' = wl1" "st' = st1" "n' = n3" "w' = w"
      using run recv 2 now by (auto simp: session_round_def split: option.splits)
    have got: "tc_socket_fd c1 = fd" "tcp_holds incoming (c1, n1) fs"
      using tcp_receive_holds [OF stream holds recv [unfolded 2]] fd by auto
    then have "run_ok posts m p incoming fd fs (c1, wl, st, n1, w)" using ok by (simp add: run_ok_def)
    from keepalive_run_ok [OF two now got(1) keep this] show ?thesis
      using res by (intro exI [of _ "[]"] exI [of _ fs]) (auto simp: run_ok_def)
  next
    case (3 f)
    obtain gs where fs: "fs = f # gs" and got: "tc_socket_fd c1 = fd" "tcp_holds incoming (c1, n1) gs"
      using tcp_receive_holds [OF stream holds recv [unfolded 3]] fd by auto
    have "\<exists>st1 w1. session_incoming server_handler sid f st w = (Inr (), st1, w1) \<and> st_protocol_errors st1 = st_protocol_errors st \<and>
        gained posts [f] w w1 \<and>
        run_ok posts m p incoming fd gs (c1, wl\<lparr>wl_last_receive := t\<rparr>, st1, n1, w1)"
    proof (cases "is_data f")
      case False
      then have "session_incoming server_handler sid f st w = (Inr (), tick st_heartbeats_received_update st, w)"
        using kinds fs by (simp add: session_incoming_def is_data_def)
      moreover have "srv_ok posts (m\<lparr>sm_stats := tick st_heartbeats_received_update st\<rparr>) w" by (rule run_ok_stats [OF srv]) simp
      ultimately show ?thesis using False fs got unseen by (simp add: run_ok_def) (simp add: tick_def)
    next
      case True
      then obtain msg where "exported p msg f" using msgs fs by (auto simp: list_all2_Cons2)
      then obtain st1 w1 where one: "session_incoming server_handler sid f st w = (Inr (), st1, w1)"
        "srv_ok posts (m\<lparr>sm_stats := st1\<rparr>) w1" "unseen p (Suc (unat (fr_sequence f))) w1"
        "gained posts [f] w w1"
        using server_intake_one [OF srv posts, of p msg f sid] unseen True fs by auto
      have "\<forall>g \<in> set (filter is_data gs). unseen p (unat (fr_sequence g)) w1"
      proof
        fix g
        assume "g \<in> set (filter is_data gs)"
        then have "Suc (unat (fr_sequence f)) \<le> unat (fr_sequence g)" using sorted True fs by (auto simp: Suc_le_eq)
        then show "unseen p (unat (fr_sequence g)) w1" using one(3) unfolding unseen_def by fastforce
      qed
      moreover have "st_protocol_errors st1 = st_protocol_errors st"
        using one(1) True by (auto simp: session_incoming_def tick_def is_data_def Let_def split: if_splits prod.splits sum.splits)
      ultimately show ?thesis using one got True by (simp add: run_ok_def)
    qed
    then obtain st1 w1 where incoming: "session_incoming server_handler sid f st w = (Inr (), st1, w1)"
      "st_protocol_errors st1 = st_protocol_errors st"
      "gained posts [f] w w1"
      "run_ok posts m p incoming fd gs (c1, wl\<lparr>wl_last_receive := t\<rparr>, st1, n1, w1)" by blast
    obtain wl1 st2 n3 where keep: "session_keepalive fuel os options mid t c1 (wl\<lparr>wl_last_receive := t\<rparr>) st1 n2 = Some (r, wl1, st2, n3)"
      and res: "c' = c1" "wl' = wl1" "st' = st2" "n' = n3" "w' = w1"
      using run recv 3 now incoming(1) by (auto simp: session_round_def Let_def split: option.splits)
    from keepalive_run_ok [OF two now got(1) keep incoming(4)] show ?thesis
      using res incoming(2,3) fs by (intro exI [of _ "[f]"] exI [of _ gs]) (auto simp: run_ok_def)
  qed
qed

definition run_done ::
  "(nat \<Rightarrow> bool result) \<Rightarrow> session_manager \<Rightarrow> u64 \<Rightarrow> ('n \<Rightarrow> byte_buffer) \<Rightarrow> int \<Rightarrow> session_stats \<Rightarrow> server_world \<Rightarrow> frame list \<Rightarrow>
   frame list \<Rightarrow> bool \<Rightarrow> tcp_connection \<times> worker_locals \<times> session_stats \<times> 'n \<times> server_world \<Rightarrow> bool" where
  "run_done posts m p incoming fd st0 w0 gs rest going s \<longleftrightarrow> (case s of (c, wl, st, n, w) \<Rightarrow>
     st_protocol_errors st = st_protocol_errors st0 \<and> srv_ok posts (m\<lparr>sm_stats := st\<rparr>) w \<and>
     gained posts gs w0 w \<and>
     (going \<longrightarrow> run_ok posts m p incoming fd rest s))"

lemma session_run_ok:
  assumes two: "tcp_two_way os fd incoming" and start: "run_ok posts m p incoming fd wire (c0, wl0, st0, n0, w0)"
    and posts: "posts 0 = Inr posted" and msgs: "list_all2 (exported p) msgs (filter is_data wire)"
    and kinds: "\<forall>f \<in> set wire. is_data f \<or> is_heartbeat_frame f"
    and sorted: "sorted_wrt (<) (map (unat \<circ> fr_sequence) (filter is_data wire))"
  shows "session_run os options server_handler mid sid (c0, wl0, st0, n0, w0) r s \<Longrightarrow>
    \<exists>gs rest. wire = gs @ rest \<and> run_done posts m p incoming fd st0 w0 gs rest (r = Inr Continue) s"
proof (induction rule: session_run.induct)
  case Begin
  show ?case using start by (intro exI [of _ "[]"] exI [of _ wire]) (auto simp: run_done_def run_ok_def)
next
  case (Round c wl st n w fuel pf r s)
  then obtain gs rest where wire: "wire = gs @ rest"
    and sofar: "run_done posts m p incoming fd st0 w0 gs rest True (c, wl, st, n, w)" by auto
  obtain c' wl' st' n' w' where s: "s = (c', wl', st', n', w')" by (metis prod_cases5)
  obtain msgs2 where msgs2: "list_all2 (exported p) msgs2 (filter is_data rest)"
    using msgs wire by (auto simp: list_all2_append2)
  have sorted2: "sorted_wrt (<) (map (unat \<circ> fr_sequence) (filter is_data rest))" using sorted wire by (simp add: sorted_wrt_append)
  have kinds2: "\<forall>f \<in> set rest. is_data f \<or> is_heartbeat_frame f" using kinds wire by simp
  have "run_ok posts m p incoming fd rest (c, wl, st, n, w)" using sofar by (simp add: run_done_def)
  from session_round_ok [OF two this posts msgs2 kinds2 sorted2 Round.hyps(2) [unfolded s]]
  obtain hs rest' where "rest = hs @ rest'" "st_protocol_errors st' = st_protocol_errors st"
    "srv_ok posts (m\<lparr>sm_stats := st'\<rparr>) w'"
    "gained posts hs w w'"
    "is_ok r \<longrightarrow> run_ok posts m p incoming fd rest' (c', wl', st', n', w')"
    by blast
  then show ?case using wire sofar s
    by (intro exI [of _ "gs @ hs"] exI [of _ rest']) (auto simp: run_done_def intro: gained_append)
qed

section \<open>From the publisher to the other side's bus\<close>

text \<open>The mailbox of the default options keeps the newest ten messages, as long as the executor accepts the drain.\<close>

lemma enqueue_all_newest:
  assumes "posts 0 = Inr True" and "cb_active b" "cb_options b = default_options" "length (cb_pending b) \<le> 10"
  shows "cb_pending (enqueue_all posts msgs b) = drop (length (cb_pending b @ msgs) - 10) (cb_pending b @ msgs)"
  using assms(2-4)
proof (induction msgs arbitrary: b)
  case (Cons msg msgs)
  let ?b = "snd (enqueue msg (posts 0) True b)"
  have one: "cb_pending ?b = drop (length (cb_pending b @ [msg]) - 10) (cb_pending b @ [msg])" "cb_active ?b"
    "cb_options ?b = default_options"
    using Cons.prems assms(1) by (auto simp: enqueue_def block_ops default_options_def drop_Suc split: if_splits)
  then have "length (cb_pending ?b) \<le> 10" by simp
  note rest = Cons.IH [OF one(2,3) this]
  have "enqueue_all posts (msg # msgs) b = enqueue_all posts msgs ?b" by (simp add: enqueue_all_def)
  then show ?case using rest one(1) Cons.prems(3) by (cases "length (cb_pending b) \<le> 9") (auto simp: not_le le_Suc_eq add.commute)
qed (simp add: enqueue_all_def)

text \<open>C7: Bridge to bridge: let a session of a bridge server read the bytes a bridge client has put on its connection,
  in pieces of any size and with any timeouts in between. At any time, and also when the session ends, what it has taken
  from the stream are the first of the client's frames; no protocol or callback error has been counted for them; every data frame
  among them has been imported, and the messages in them, which are messages that were published on the client's side, in
  order and each once, have been delivered to the server's subscription, one after the other and unchanged: with the
  default options and an executor that works its mailbox holds the newest ten. When the client exits
  with status 0 and the session has read everything, they are all the messages published, as many as were asked for.\<close>

theorem bridged_messages_arrive:
  assumes "tcp_out os1 out" and "link_over_tcp os1 host port default_reconnect_options lk"
    and "bc_reach lk wait message_count s" and "in_session (ct_at (bc_client s))"
    and "ct_wires (bc_client s) = [wire]" and "ct_net (bc_client s) = (c1, n1)"
    and "srv_reach os2 posts (m, n, w)" and "posts 0 = Inr posted" and "unseen (br_publisher_id (bc_bridge s)) 0 w"
    and "tcp_two_way os2 (tc_socket_fd c2) incoming" and "tc_limits c2 = default_limits" and "tc_receive_buffer c2 = []"
    and "incoming n2 = out (tc_socket_fd c1) n1"
    and "session_run os2 options server_handler mid sid (c2, wl, sm_stats m, n2, w) r (c3, wl', st', n3, w')"
  shows "\<exists>gs rest msgs. wire = gs @ rest \<and> (r = Inr Continue \<longrightarrow> tc_receive_buffer c3 @ incoming n3 = wire_image rest) \<and>
    st_protocol_errors st' = st_protocol_errors (sm_stats m) \<and> st_callback_errors st' = 0 \<and>
    bs_imported (br_stats (sw_bridge w')) = bs_imported (br_stats (sw_bridge w)) + of_nat (length msgs) \<and>
    list_all2 (\<lambda>msg f. deserialize_frame imu_traits f imu_name = Inr msg) msgs (filter is_data gs) \<and>
    subseq msgs (bc_published s) \<and>
    (\<exists>b b'. server_mailbox w = Some b \<and> server_mailbox w' = Some b' \<and> b' = enqueue_all posts msgs b \<and>
       (posted \<longrightarrow> cb_pending b' = drop (length (cb_pending b @ msgs) - 10) (cb_pending b @ msgs))) \<and>
    (client_exit message_count (br_stats (bc_bridge s)) = 0 \<and> r = Inr Continue \<and> tc_receive_buffer c3 = [] \<and> incoming n3 = [] \<longrightarrow>
       msgs = bc_published s \<and> length msgs = unat message_count)"
proof -
  note session = bc_first_session [OF assms(1-6)]
  let ?p = "br_publisher_id (bc_bridge s)"
  obtain p handled kept where ok: "bc_ok p message_count handled kept s" using bc_reach_ok [OF assms(3)] by blast
  then have p: "p = ?p" by (auto simp: bc_ok_def exports_def)
  obtain sent where sent: "subseq sent (bc_published s)" "list_all2 (exported ?p) sent (filter is_data wire)"
    "sorted_wrt (<) (map (unat \<circ> fr_sequence) (filter is_data wire))"
    "client_exit message_count (br_stats (bc_bridge s)) = 0 \<Longrightarrow> sent = bc_published s \<and> length (bc_published s) = unat message_count"
    using bc_ok_exit [OF ok] p session(3) by metis
  have srv: "srv_ok posts m w" using srv_reach_ok [OF assms(8,7)] by simp
  moreover have "tcp_holds incoming (c2, n2) wire"
    using assms(11-13) session(1,2) by (auto simp: tcp_holds_def split: list.splits)
  moreover have "unseen ?p k w" for k using assms(9) by (auto simp: unseen_def)
  ultimately have "run_ok posts m ?p incoming (tc_socket_fd c2) wire (c2, wl, sm_stats m, n2, w)" by (simp add: run_ok_def)
  from session_run_ok [OF assms(10) this assms(8) sent(2) session(4) sent(3) assms(14)] obtain gs rest where
    wire: "wire = gs @ rest" and run: "run_done posts m ?p incoming (tc_socket_fd c2) (sm_stats m) w gs rest (r = Inr Continue)
      (c3, wl', st', n3, w')" by blast
  obtain msgs others where msgs: "sent = msgs @ others" "list_all2 (exported ?p) msgs (filter is_data gs)"
    "list_all2 (exported ?p) others (filter is_data rest)"
    using sent(2) wire by (auto simp: list_all2_append2)
  have "client_topic = imu_name" by (simp add: client_topic_def imu_name_def)
  then have decoded: "list_all2 (\<lambda>msg f. deserialize_frame imu_traits f imu_name = Inr msg) msgs (filter is_data gs)"
    using msgs(2) by (elim list_all2_mono) (auto dest: exported_frame_facts(8))
  moreover note decoded
  moreover have "subseq msgs (bc_published s)" using sent(1) msgs(1) subseq_left by blast
  moreover have left: "tc_receive_buffer c3 @ incoming n3 = wire_image rest" if "r = Inr Continue"
    using run that by (simp add: run_done_def run_ok_def tcp_holds_def)
  moreover have "msgs = bc_published s \<and> length msgs = unat message_count"
    if "client_exit message_count (br_stats (bc_bridge s)) = 0" "r = Inr Continue" "tc_receive_buffer c3 = []" "incoming n3 = []"
  proof -
    have "wire_image rest = []" using left [OF that(2)] that(3,4) by simp
    moreover have "56 \<le> length (frame_image f)" if "f \<in> set rest" for f
      using sendable_image_size(2) session(2) wire that by auto
    ultimately have "rest = []" by (cases rest) fastforce+
    then show ?thesis using sent(4) [OF that(1)] msgs by simp
  qed
  moreover have "length msgs = length (filter is_data gs)" using msgs(2) by (rule list_all2_lengthD)
  moreover have "\<exists>b b'. server_mailbox w = Some b \<and> server_mailbox w' = Some b' \<and> b' = enqueue_all posts msgs b \<and>
       (posted \<longrightarrow> cb_pending b' = drop (length (cb_pending b @ msgs) - 10) (cb_pending b @ msgs))"
  proof -
    have same: "msgs = messages_of gs"
      using decoded by (auto simp: messages_of_def list_all2_conv_all_nth intro!: nth_equalityI)
    obtain b where b: "server_mailbox w = Some b" "cb_active b" "cb_options b = default_options" "length (cb_pending b) \<le> 10"
      using srv by (auto simp: srv_ok_def imu_bus_def mailbox_account_def server_mailbox_def)
    have "server_mailbox w' = Some (enqueue_all posts msgs b)" using run b(1) by (simp add: run_done_def gained_def same)
    then show ?thesis using b(1) enqueue_all_newest [OF _ b(2-4), of posts msgs] assms(8) by auto
  qed
  ultimately show ?thesis using wire run
    by (intro exI [of _ gs] exI [of _ rest] exI [of _ msgs]) (auto simp: run_done_def gained_def srv_ok_def intake_def)
qed

section \<open>A concrete pair of programs\<close>

definition host_link :: "(tcp_connection \<times> byte_buffer \<times> byte_buffer) link" where
  "host_link = \<lparr>lk_connect = (\<lambda>s. the (tcp_open 1 reachable_host ''server'' 7600 default_reconnect_options s)),
     lk_send = (\<lambda>f s. the (tcp_send reachable_host
       (case encode_frame f (tc_limits (fst s)) of Inl e \<Rightarrow> 0 | Inr bs \<Rightarrow> length bs) f s)),
     lk_receive = (\<lambda>s. the (tcp_receive_frame (2 ^ 64) 1 reachable_host (ro_io_poll_interval default_reconnect_options)
       (fst s) (snd s))),
     lk_close = (\<lambda>s. tcp_close reachable_host (fst s) (interrupt reachable_host (fst s) (snd s))),
     lk_now = (\<lambda>s. 0), lk_running = (\<lambda>s. True)\<rparr>"

lemma host_open:
  "tcp_open (Suc 0) reachable_host ''server'' 7600 default_reconnect_options s =
     Some (Inr (), tcp_connection_new 4 default_limits, fst (snd s), [])"
  by (simp add: tcp_open_def tcp_client_new_def tcp_connect_def deadline_after_def try_address_def finish_connect_def
      set_send_timeout_def tcp_connection_new_def reachable_host_def piecemeal_def default_reconnect_options_def Let_def
      split: prod.splits)

lemma host_send:
  "\<exists>r. tcp_send reachable_host (case encode_frame f (tc_limits (fst s)) of Inl e \<Rightarrow> 0 | Inr bs \<Rightarrow> length bs) f s = Some r \<and>
     (is_ok (encode_frame f (tc_limits (fst s))) \<and> 0 \<le> tc_socket_fd (fst s) \<longrightarrow> fst r = Inr ())"
proof (cases "encode_frame f (tc_limits (fst s))")
  case (Inl e)
  then show ?thesis by (cases s) (simp add: tcp_send_def tcp_send_frame_def)
next
  case (Inr bs)
  have "\<exists>n'. send_loop (length bs) reachable_host (tc_socket_fd (fst s)) bs 0 (snd s) = Some (Inr (), n')"
    by (rule send_loop_succeeds [OF reachable_host_takes]) simp_all
  then obtain n' where "send_loop (length bs) reachable_host (tc_socket_fd (fst s)) bs 0 (snd s) = Some (Inr (), n')" ..
  then show ?thesis using Inr by (cases s) (simp add: tcp_send_def tcp_send_frame_def send_all_def)
qed

lemma host_link_over_tcp: "link_over_tcp reachable_host ''server'' 7600 default_reconnect_options host_link"
proof -
  have "\<exists>pf. tcp_open pf reachable_host ''server'' 7600 default_reconnect_options s = Some (lk_connect host_link s)" for s
    by (rule exI [of _ 1]) (simp add: host_link_def host_open)
  moreover have "\<exists>fuel. tcp_send reachable_host fuel f s = Some (lk_send host_link f s)" for f s
    using host_send [of f s] by (auto simp: host_link_def)
  moreover have "\<exists>fuel pf. tcp_receive_frame fuel pf reachable_host (ro_io_poll_interval default_reconnect_options) (fst s) (snd s) =
      Some (lk_receive host_link s)" for s
    using reachable_host_receive [of "ro_io_poll_interval default_reconnect_options" "fst s" "snd s"]
    by (intro exI [of _ "2 ^ 64"] exI [of _ 1]) (auto simp: host_link_def)
  moreover have "lk_close host_link (c, n) = tcp_close reachable_host c (interrupt reachable_host c n)" for c n
    by (simp add: host_link_def)
  ultimately show ?thesis unfolding link_over_tcp_def by blast
qed

lemma host_server:
  "\<exists>m n w. srv_reach reachable_host (\<lambda>h. Inr True) (m, n, w) \<and> br_highest_sequences (sw_bridge w) = [] \<and>
     bs_imported (br_stats (sw_bridge w)) = 0 \<and> (\<exists>b. server_mailbox w = Some b \<and> cb_pending b = [])"
proof -
  have manager: "session_manager_new reachable_host ''127.0.0.1'' 7600 True default_session_options ([], []) =
      (Inr (manager0\<lparr>sm_tcp_server := \<lparr>ts_socket_fd = 4, ts_options = default_server_options\<rparr>\<rparr>), ([], []))"
    by (simp add: session_manager_new_def tcp_server_new_def validate_session_options_def tcp_server_local_port_def
        socket_local_port_def manager_eval reachable_host_def piecemeal_def)
  obtain m where started: "session_start reachable_host False True
      (manager0\<lparr>sm_tcp_server := \<lparr>ts_socket_fd = 4, ts_options = default_server_options\<rparr>\<rparr>) ([], []) = Some (Inr (), m, [], [])"
    by (simp add: session_start_def finish_stop_locked_def manager_eval)
  obtain w where "bridge_server_setup reachable_host (\<lambda>h. Inr True) (True, True) 1 2 bridge_server_config0 ([], []) =
      Some (Inr (m, ([], []), w))" "br_highest_sequences (sw_bridge w) = []" "bs_imported (br_stats (sw_bridge w)) = 0"
    "\<exists>b. server_mailbox w = Some b \<and> cb_pending b = []"
    using bridge_server_setup_from [OF manager started] unfolding server_mailbox_def by blast
  then show ?thesis using srv_reach.Start by metis
qed

lemma host_two_way: "tcp_two_way reachable_host fd fst"
  using reachable_host_ready by (auto simp: tcp_two_way_def tcp_ready_def) (simp add: reachable_host_def piecemeal_def)

lemma host_round:
  assumes f: "sendable default_limits f" "is_data f" "fr_flags f = 0" and c: "c = tcp_connection_new 4 default_limits"
  shows "\<exists>fuel st' n' w'. session_round fuel 1 reachable_host default_session_options server_handler mid sid c
      \<lparr>wl_last_receive = 0, wl_next_heartbeat = 1, wl_heartbeat_sequence = 0\<rparr> st (frame_image f, []) w =
      Some (Inr Continue, c, \<lparr>wl_last_receive = 0, wl_next_heartbeat = 1, wl_heartbeat_sequence = 0\<rparr>, st', n', w') \<and> fst n' = []"
proof -
  let ?u = "frame_image f" and ?wl = "\<lparr>wl_last_receive = 0, wl_next_heartbeat = 1, wl_heartbeat_sequence = 0\<rparr>"
  obtain n3 where recv: "tcp_receive_frame (length ?u) 1 reachable_host 50 c (?u, []) = Some (Inr (Some f), c, n3)" "fst n3 = []"
    using tcp_receive_ready [OF reachable_host_ready, of c ?u "(?u, [])" "[]" "length ?u" 1 50] sendable_stream_unit [OF f(1)]
      sendable_decodes [OF f(1)] c
    by (auto simp: tcp_connection_new_def unit_result_def)
  have now: "os_now reachable_host n3 = (0, n3)" by (simp add: reachable_host_def piecemeal_def)
  obtain st1 w1 where incoming: "session_incoming server_handler sid f st w = (Inr (), st1, w1)"
    using f(2,3) by (cases "server_handler sid f w"; cases "fst (server_handler sid f w)")
      (auto simp: session_incoming_def is_data_def)
  have "session_keepalive (length ?u) reachable_host default_session_options mid 0 c ?wl st1 n3 = Some (Inr Continue, ?wl, st1, n3)"
    by (simp add: session_keepalive_def default_session_options_def)
  then have "session_round (length ?u) 1 reachable_host default_session_options server_handler mid sid c ?wl st (?u, []) w =
      Some (Inr Continue, c, ?wl, st1, n3, w1)"
    using recv(1) now incoming by (simp add: session_round_def default_session_options_def)
  then show ?thesis using recv(2) by blast
qed

theorem bridged_messages_arrive_witness:
  "\<exists>s (m :: session_manager) w c2 wl n2 c3 wl' st' n3 w'. bc_reach host_link (\<lambda>d n. n) 1 s \<and> length (bc_published s) = 1 \<and>
     session_run reachable_host default_session_options server_handler 7 1 (c2, wl, sm_stats m, n2, w) (Inr Continue) (c3, wl', st', n3, w') \<and>
     bs_imported (br_stats (sw_bridge w)) = 0 \<and> bs_imported (br_stats (sw_bridge w')) = 1 \<and>
     (\<exists>b. server_mailbox w' = Some b \<and> cb_pending b = bc_published s)"
proof -
  let ?c = "tcp_connection_new 4 default_limits"
    and ?wl = "\<lparr>wl_last_receive = 0, wl_next_heartbeat = 1, wl_heartbeat_sequence = 0\<rparr>"
  have connect: "lk_connect host_link (?c, [], []) = (Inr (), ?c, [], [])" by (simp add: host_link_def host_open)
  have send: "\<exists>n2. lk_send host_link f (?c, [], []) = (Inr (), n2)" if "exported p msg f" for msg p f
  proof -
    obtain now where "make_frame imu_traits client_topic msg (fr_sequence f) p now = Inr f" using \<open>exported p msg f\<close> by (auto simp: exported_def)
    then have "is_ok (encode_frame f default_limits)"
      using imu.made_frame_fits_default_limits(2) [OF _ fits_client_topic] by simp
    then show ?thesis using host_send [of f "(?c, [], [])"] by (auto simp: host_link_def tcp_connection_new_def)
  qed
  obtain s f cs where reach: "bc_reach host_link (\<lambda>d n. n) 1 s" and exit: "client_exit 1 (br_stats (bc_bridge s)) = 0"
    and at: "ct_at (bc_client s) = CBatch 63 cs" "ct_wires (bc_client s) = [[f]]" "bc_sent s = [f]" "length (bc_published s) = 1"
    by (rule one_message_sent [OF connect _ send, where wait = "\<lambda>d n. n"]) (simp add: host_link_def)
  obtain c1 n1 where net: "ct_net (bc_client s) = (c1, n1)" by (rule prod.exhaust)
  have up: "in_session (ct_at (bc_client s))" using at(1) by simp
  note session = bc_first_session [OF reachable_host_out host_link_over_tcp reach up at(2) net]
  obtain p handled kept where "bc_ok p 1 handled kept s" using bc_reach_ok [OF reach] by blast
  then obtain msg where msg: "exported p msg f" using bc_ok_exit at(3) by (metis list_all2_right list.set_intros(1))
  obtain m n w where server: "srv_reach reachable_host (\<lambda>h. Inr True) (m, n, w)" "br_highest_sequences (sw_bridge w) = []"
    "bs_imported (br_stats (sw_bridge w)) = 0" "\<exists>b. server_mailbox w = Some b \<and> cb_pending b = []" using host_server by blast
  have unseen: "unseen p 0 w" for p using server(2) by (simp add: unseen_def)
  have f: "sendable default_limits f" using session(2) by simp
  obtain fuel st' n3 w' where round: "session_round fuel 1 reachable_host default_session_options server_handler 7 1 ?c ?wl (sm_stats m)
      (frame_image f, []) w = Some (Inr Continue, ?c, ?wl, st', n3, w')" "fst n3 = []"
    using host_round [OF f exported_frame_facts(2,1) [OF msg] refl] by blast
  have run: "session_run reachable_host default_session_options server_handler 7 1 (?c, ?wl, sm_stats m, (frame_image f, []), w)
      (Inr Continue) (?c, ?wl, st', n3, w')"
    by (rule session_run.Round [OF session_run.Begin round(1)])
  have wire: "fst (frame_image f, [] :: byte_buffer) = snd n1" using session(1) by simp
  have arrived: "bs_imported (br_stats (sw_bridge w')) = 1 \<and> (\<exists>b. server_mailbox w' = Some b \<and> cb_pending b = bc_published s)"
    using bridged_messages_arrive [OF reachable_host_out host_link_over_tcp reach up at(2) net server(1) refl unseen
        host_two_way _ _ wire run] exit round(2) server(3,4) at(4) by (auto simp: tcp_connection_new_def)
  then show ?thesis using reach at(4) run server(3) by blast
qed

end
