(* ===== verification/Rml_Bridge_Echo.thy ===== *)
theory Rml_Bridge_Echo
  imports Rml_Bridge
begin

text \<open>
  What an exported subscription gets to see: the bus from the moment of \<^verbatim>\<open>export_topic\<close> on, with every call of
  its interface, local publishers, the import handlers of any bridges, and the drains of the subscriptions. The
  theorem says that nothing that was published as remote ever gets to the export's callback.
\<close>

section \<open>The bus after an export\<close>

text \<open>
  A run of the bus from the state \<open>start\<close>. \<open>handlers i\<close> is the handler of an imported topic. Two lists are history: the messages
  that local publishers have published, on any topic, and those that drains have taken out of the mailbox at address
  \<open>h\<close> for its callback.
\<close>

inductive export_run ::
  "(nat \<Rightarrow> frame \<Rightarrow> 'm topic_bus \<Rightarrow> unit result \<times> 'm topic_bus) \<Rightarrow> nat \<Rightarrow> 'm topic_bus \<Rightarrow>
   'm list \<Rightarrow> 'm list \<Rightarrow> 'm topic_bus \<Rightarrow> bool"
  for handlers :: "nat \<Rightarrow> frame \<Rightarrow> 'm topic_bus \<Rightarrow> unit result \<times> 'm topic_bus" and h start where
  Begin: "export_run handlers h start [] [] start"
| Local: "export_run handlers h start locals exported s \<Longrightarrow>
    export_run handlers h start (locals @ [m]) exported (snd (publish posts topic ti sh lt m False s))"
| Remote: "export_run handlers h start locals exported s \<Longrightarrow>
    export_run handlers h start locals exported (snd (publish posts topic ti sh lt m True s))"
| Import: "export_run handlers h start locals exported s \<Longrightarrow> export_run handlers h start locals exported (snd (handlers i f s))"
| Advertise: "export_run handlers h start locals exported s \<Longrightarrow>
    export_run handlers h start locals exported (snd (advertise topic ti sh lt s))"
| Subscribe: "export_run handlers h start locals exported s \<Longrightarrow> unat (bus_next_id s) + 1 < 2 ^ 64 \<Longrightarrow>
    export_run handlers h start locals exported (snd (subscribe topic ti sh lt options cb s))"
| Unsubscribe: "export_run handlers h start locals exported s \<Longrightarrow>
    export_run handlers h start locals exported (unsubscribe topic sid s)"
| CancelHandle: "export_run handlers h start locals exported s \<Longrightarrow>
    export_run handlers h start locals exported (snd (subscription_cancel handle s))"
| Stop: "export_run handlers h start locals exported s \<Longrightarrow> export_run handlers h start locals exported (stop s)"
| DrainBegin: "export_run handlers h start locals exported s \<Longrightarrow> bus_blocks s k = Some b \<Longrightarrow>
    drain_begin tid b = (got, b') \<Longrightarrow>
    export_run handlers h start locals (exported @ (case got of Some m \<Rightarrow> if k = h then [m] else [] | None \<Rightarrow> []))
      (s\<lparr>bus_blocks := (bus_blocks s)(k \<mapsto> b')\<rparr>)"
| DrainEnd: "export_run handlers h start locals exported s \<Longrightarrow> bus_blocks s k = Some b \<Longrightarrow>
    export_run handlers h start locals exported (s\<lparr>bus_blocks := (bus_blocks s)(k \<mapsto> drain_end failed b)\<rparr>)"

section \<open>The invariant\<close>

definition export_ok :: "nat \<Rightarrow> 'm list \<Rightarrow> 'm list \<Rightarrow> 'm topic_bus \<Rightarrow> bool" where
  "export_ok h locals exported s \<longleftrightarrow> bus_ok s \<and> h < bus_next_block s \<and> subseq exported locals \<and>
     (\<forall>b. bus_blocks s h = Some b \<longrightarrow> \<not> receive_remote (cb_options b) \<and> subseq (exported @ cb_pending b) locals)"

text \<open>A step that keeps the mailbox, or clears it, or removes it.\<close>

definition sheds :: "'m control_block \<Rightarrow> 'm control_block option \<Rightarrow> bool" where
  "sheds b x \<longleftrightarrow> (case x of None \<Rightarrow> True | Some b' \<Rightarrow> cb_options b' = cb_options b \<and> (cb_pending b' = cb_pending b \<or> cb_pending b' = []))"

lemma sheds_simps [simp]: "sheds b None" "sheds b (Some b)" "sheds b (Some (cancel b))" "sheds b (Some (drain_end failed b))"
  by (simp_all add: sheds_def cancel_def drain_end_def)

lemma export_ok_sheds:
  assumes ok: "export_ok h locals exported s" and "bus_ok s'" and "bus_next_block s \<le> bus_next_block s'"
    and shed: "\<And>b'. bus_blocks s' h = Some b' \<Longrightarrow> \<exists>b. bus_blocks s h = Some b \<and> sheds b (Some b')"
  shows "export_ok h locals exported s'"
proof -
  have "\<not> receive_remote (cb_options b') \<and> subseq (exported @ cb_pending b') locals" if b': "bus_blocks s' h = Some b'" for b'
  proof -
    obtain b where "bus_blocks s h = Some b" "sheds b (Some b')" using shed [OF b'] by blast
    then show ?thesis using ok by (auto simp: export_ok_def sheds_def)
  qed
  then show ?thesis using assms(1-3) by (auto simp: export_ok_def)
qed

lemma export_ok_unchanged:
  assumes "export_ok h locals exported s" and "bus_ok s'" and "bus_next_block s \<le> bus_next_block s'"
    and "bus_blocks s' h = bus_blocks s h"
  shows "export_ok h locals exported s'"
  using assms by (auto simp: export_ok_def)

text \<open>A delivery only adds its message at the end.\<close>

lemma enqueue_adds:
  "cb_options (snd (enqueue m posted r b)) = cb_options b \<and> subseq (cb_pending (snd (enqueue m posted r b))) (cb_pending b @ [m])"
proof -
  have tl: "subseq (tl xs @ [m]) (xs @ [m])" for xs by (cases xs) auto
  show ?thesis
    by (cases posted; cases "projr posted") (auto simp: enqueue_def block_ops tl split: bool.splits sum.splits)
qed

text \<open>A fan-out over different addresses delivers to a block once or not at all.\<close>

lemma fan_out_other: "h \<notin> set hs \<Longrightarrow> snd (fan_out deliver hs res st) h = st h"
proof (induction hs arbitrary: res st)
  case (Cons k hs)
  show ?case
  proof (cases "st k")
    case (Some c)
    then show ?thesis using Cons by (cases "deliver k c"; cases "fst (deliver k c)") auto
  qed (use Cons in simp)
qed simp

lemma fan_out_once:
  "distinct hs \<Longrightarrow> st h = Some b \<Longrightarrow>
     snd (fan_out deliver hs res st) h = Some b \<or> snd (fan_out deliver hs res st) h = Some (snd (deliver h b))"
proof (induction hs arbitrary: res st)
  case (Cons k hs)
  show ?case
  proof (cases "st k")
    case (Some c)
    let ?st = "st(k := Some (snd (deliver k c)))"
    have rest: "snd (fan_out deliver hs res' ?st) h = Some b \<or> snd (fan_out deliver hs res' ?st) h = Some (snd (deliver h b))" for res'
    proof (cases "k = h")
      case True
      have other: "snd (fan_out deliver hs res' ?st) h = ?st h" using Cons.prems(1) True by (intro fan_out_other) simp
      then show ?thesis using Some True Cons.prems(2) by simp
    next
      case False
      then have "?st h = Some b" using Cons.prems(2) by simp
      then show ?thesis using Cons.prems(1) by (intro Cons.IH) simp_all
    qed
    have "?st h = Some b \<or> ?st h = Some (snd (deliver h b))" using Some Cons.prems(2) by auto
    then show ?thesis using Some rest by (cases "deliver k c"; cases "fst (deliver k c)") auto
  qed (use Cons in simp)
qed simp

lemma publish_local_ok:
  assumes ok: "export_ok h locals exported s"
  shows "export_ok h (locals @ [m]) exported (snd (publish posts topic ti sh lt m False s))"
proof -
  let ?s' = "snd (publish posts topic ti sh lt m False s)"
  have bus: "bus_ok s" using ok by (simp add: export_ok_def)
  have weak: "subseq xs (locals @ [m])" if "subseq xs locals" for xs using that by (simp add: subseq_rev_drop_many)
  have next_block: "bus_next_block ?s' = bus_next_block s"
    by (cases rule: publish_cases [of posts topic ti sh lt m False s]) (auto split: prod.split)
  have "\<not> receive_remote (cb_options b') \<and> subseq (exported @ cb_pending b') (locals @ [m])" if b': "bus_blocks ?s' h = Some b'" for b'
  proof (cases rule: publish_cases [of posts topic ti sh lt m False s])
    case (Rejected e)
    then show ?thesis using ok b' weak by (simp add: export_ok_def)
  next
    case (Sent r live)
    let ?fan = "snd (fan_out (\<lambda>h. enqueue m (posts h) False) (map snd live) (no_result (length live)) (bus_blocks s))"
    have at: "?fan h = Some b'" using b' Sent(5) by (simp add: case_prod_beta)
    then obtain b where b: "bus_blocks s h = Some b" by (metis fan_out_domain not_Some_eq)
    have old: "\<not> receive_remote (cb_options b)" "subseq (exported @ cb_pending b) locals" using ok b by (auto simp: export_ok_def)
    have "b' = b \<or> b' = snd (enqueue m (posts h) False b)"
      using fan_out_once [where st = "bus_blocks s" and h = h and deliver = "\<lambda>h. enqueue m (posts h) False" and
          res = "no_result (length live)", OF live_snapshot(1) [OF bus Sent(2), folded Sent(4)] b] at by auto
    then show ?thesis
    proof
      assume "b' = b"
      then show ?thesis using old weak by simp
    next
      assume b': "b' = snd (enqueue m (posts h) False b)"
      have "subseq (exported @ cb_pending b') (exported @ cb_pending b @ [m])"
        using enqueue_adds [of m "posts h" False b] by (simp add: b' subseq_append')
      moreover have "subseq (exported @ cb_pending b @ [m]) (locals @ [m])" using old(2) by (simp flip: append_assoc)
      ultimately show ?thesis using old(1) enqueue_adds [of m "posts h" False b] by (auto simp: b' intro: subseq_order.order_trans)
    qed
  qed
  then show ?thesis using ok weak bus_ok_publish [OF bus] next_block by (simp add: export_ok_def)
qed

lemma publish_remote_ok:
  assumes ok: "export_ok h locals exported s"
  shows "export_ok h locals exported (snd (publish posts topic ti sh lt m True s))"
proof (rule export_ok_sheds [OF ok])
  let ?s' = "snd (publish posts topic ti sh lt m True s)"
  show "bus_ok ?s'" using ok by (simp add: export_ok_def bus_ok_publish)
  show "bus_next_block s \<le> bus_next_block ?s'"
    by (cases rule: publish_cases [of posts topic ti sh lt m True s]) (auto split: prod.split)
  fix b'
  assume b': "bus_blocks ?s' h = Some b'"
  then obtain b where b: "bus_blocks s h = Some b"
    by (cases rule: publish_cases [of posts topic ti sh lt m True s])
      (auto simp: case_prod_beta, metis fan_out_domain not_Some_eq)
  then have "bus_blocks ?s' h = Some b" using ok publish_filtered [OF b] by (auto simp: export_ok_def)
  then show "\<exists>b. bus_blocks s h = Some b \<and> sheds b (Some b')" using b b' by simp
qed

lemma import_ok:
  assumes "export_ok h locals exported s"
  shows "export_ok h locals exported (snd (import_handler posts inject tr lt p topic f s))"
proof (cases "deserialize_frame tr f topic")
  case (Inr m)
  have "export_ok h locals exported (snd (publish_remote posts tr lt p (inject m) s))"
    using publish_remote_ok [OF assms] assms by (simp add: publish_remote_def publish_shared_def)
  then show ?thesis using Inr by (cases "publish_remote posts tr lt p (inject m) s"; cases "fst (publish_remote posts tr lt p (inject m) s)")
    (auto simp: import_handler_def)
qed (use assms in \<open>simp add: import_handler_def\<close>)

lemma subscribe_keeps:
  assumes ok: "export_ok h locals exported s" and "unat (bus_next_id s) + 1 < 2 ^ 64"
  shows "export_ok h locals exported (snd (subscribe topic ti sh lt options cb s))"
proof (cases "snd (subscribe topic ti sh lt options cb s) = s")
  case False
  then obtain b sid k where b: "control_block_new options cb = Inr b"
    and sub: "subscribe_locked topic ti sh lt b s = (Inr (sid, k), snd (subscribe topic ti sh lt options cb s))"
    using subscribe_cases by blast
  have bus: "bus_ok s" and h: "h < bus_next_block s" using ok by (simp_all add: export_ok_def)
  have "bus_blocks (snd (subscribe topic ti sh lt options cb s)) h = bus_blocks s h"
    "bus_next_block (snd (subscribe topic ti sh lt options cb s)) = Suc (bus_next_block s)"
    using h by (rule_tac subscribe_locked_cases [OF sub], simp)+
  moreover have "bus_ok (snd (subscribe topic ti sh lt options cb s))"
    using bus_ok_subscribe [OF bus sub _ assms(2)] control_block_new_ok [OF b] by blast
  ultimately show ?thesis by (intro export_ok_unchanged [OF ok]) simp_all
qed (use ok in simp)

lemma export_run_ok:
  assumes run: "export_run handlers h start locals exported s" and start: "export_ok h [] [] start"
    and imports_only: "\<forall>i. \<exists>posts inject tr lt p topic. handlers i = import_handler posts inject (tr :: 'a message_traits) lt p topic"
  shows "export_ok h locals exported s"
  using run
proof (induction rule: export_run.induct)
  case (Import locals exported s i f)
  then show ?case using imports_only import_ok by metis
next
  case (Advertise locals exported s topic ti sh lt)
  have "bus_ok (snd (advertise topic ti sh lt s))" using Advertise.IH by (auto simp: export_ok_def intro: bus_ok_advertise)
  moreover have "bus_blocks (snd (advertise topic ti sh lt s)) = bus_blocks s"
    "bus_next_block (snd (advertise topic ti sh lt s)) = bus_next_block s"
    by (simp_all add: advertise_def split: sum.split option.split)
  ultimately show ?case by (intro export_ok_unchanged [OF Advertise.IH]) simp_all
next
  case (Unsubscribe locals exported s topic sid)
  have "bus_ok (unsubscribe topic sid s)" using Unsubscribe.IH by (auto simp: export_ok_def intro: bus_ok_unsubscribe)
  moreover have "bus_blocks (unsubscribe topic sid s) = bus_blocks s" "bus_next_block (unsubscribe topic sid s) = bus_next_block s"
    by (simp_all add: unsubscribe_def split: option.split)
  ultimately show ?case by (intro export_ok_unchanged [OF Unsubscribe.IH]) simp_all
next
  case (CancelHandle locals exported s handle)
  let ?s' = "snd (subscription_cancel handle s)"
  have "bus_ok ?s'" using CancelHandle.IH by (auto simp: export_ok_def intro: bus_ok_cancel)
  moreover have blocks: "bus_blocks (unsubscribe t i x) = bus_blocks x" "bus_next_block (unsubscribe t i x) = bus_next_block x"
    for t i and x :: "'b topic_bus" by (simp_all add: unsubscribe_def split: option.split)
  moreover have "bus_next_block s \<le> bus_next_block ?s'"
    by (cases "sh_block handle") (simp_all add: subscription_cancel_def Let_def blocks)
  moreover have "\<exists>b. bus_blocks s h = Some b \<and> sheds b (Some b')" if "bus_blocks ?s' h = Some b'" for b'
  proof (cases "sh_block handle")
    case None
    then show ?thesis using that by (simp add: subscription_cancel_def)
  next
    case (Some k)
    then have "release k (cancel_block k (bus_blocks s)) h = Some b'" using that by (simp add: subscription_cancel_def Let_def blocks split: if_splits)
    from release_sub [OF this] show ?thesis by (auto simp: cancel_block_cases split: if_splits)
  qed
  ultimately show ?case by (intro export_ok_sheds [OF CancelHandle.IH]) auto
next
  case (Stop locals exported s)
  have "\<exists>b. bus_blocks s h = Some b \<and> sheds b (Some b')" if "bus_blocks (stop s) h = Some b'" for b'
    using that by (auto simp: stop_def Let_def fold_cancel_block split: if_splits)
  moreover have "bus_ok (stop s)" using Stop.IH by (auto simp: export_ok_def intro: bus_ok_stop)
  moreover have "bus_next_block s \<le> bus_next_block (stop s)" by (simp add: stop_def Let_def)
  ultimately show ?case by (intro export_ok_sheds [OF Stop.IH]) auto
next
  case (DrainBegin locals exported s k b tid got b')
  have bus: "bus_ok (s\<lparr>bus_blocks := (bus_blocks s)(k \<mapsto> b')\<rparr>)"
    using DrainBegin.IH DrainBegin.hyps(2) block_ok_other(4) [OF _ DrainBegin.hyps(3)]
    by (intro bus_ok_blocks) (auto simp: export_ok_def bus_ok_def split: if_splits)
  have got: "(got = None \<and> cb_pending b' = [] \<or> (\<exists>m. got = Some m \<and> cb_pending b = m # cb_pending b')) \<and> cb_options b' = cb_options b"
    using DrainBegin.hyps(3) by (auto simp: drain_begin_def split: if_splits list.splits)
  show ?case
  proof (cases "k = h")
    case False
    then show ?thesis using DrainBegin.IH bus by (auto simp: export_ok_def split: option.split)
  next
    case True
    then have old: "\<not> receive_remote (cb_options b)" "subseq (exported @ cb_pending b) locals" "subseq exported locals" "h < bus_next_block s"
      using DrainBegin.IH DrainBegin.hyps(2) by (auto simp: export_ok_def)
    have "subseq (exported @ [m]) locals" if "cb_pending b = m # cb_pending b'" for m
      using old(2) that subseq_rev_drop_many [OF subseq_order.order_refl, of "exported @ [m]" "cb_pending b'"]
      by (auto intro: subseq_order.order_trans)
    then show ?thesis using True old got bus by (auto simp: export_ok_def)
  qed
next
  case (DrainEnd locals exported s k b failed)
  have "bus_ok (s\<lparr>bus_blocks := (bus_blocks s)(k \<mapsto> drain_end failed b)\<rparr>)"
    using DrainEnd.IH DrainEnd.hyps(2) block_ok_other(3) [of b failed]
    by (intro bus_ok_blocks) (auto simp: export_ok_def bus_ok_def split: if_splits)
  then show ?case
    using DrainEnd.hyps(2) by (intro export_ok_sheds [OF DrainEnd.IH]) (auto split: if_splits)
next
  case Begin
  show ?case by (rule start)
next
  case Local
  from Local.IH show ?case by (rule publish_local_ok)
next
  case Remote
  from Remote.IH show ?case by (rule publish_remote_ok)
next
  case Subscribe
  from Subscribe.IH Subscribe.hyps(2) show ?case by (rule subscribe_keeps)
qed

section \<open>The property\<close>

text \<open>C29: No loops between bridges: from the moment a topic is exported, whatever is published, imported, subscribed,
  cancelled and drained in whatever order, the messages the export's subscription hands to its callback, and those that
  wait for it, are messages published by local publishers, in order and each at most once. What an import handler
  publishes never reaches it: the handler leaves its mailbox as it is, in every state.\<close>

theorem bridge_no_echo:
  assumes "bus_reach s" and "unat (bus_next_id s) + 1 < 2 ^ 64"
    and "export_topic alloc tr lt n local_topic remote_topic options br s = (Inr (), br1, s1)"
    and "sh_block (last (br_export_cancellers br1)) = Some h"
    and "\<forall>i. \<exists>posts inject tr lt p topic. handlers i = import_handler posts inject (tr :: 'a message_traits) lt p topic"
    and "export_run handlers h s1 locals exported s2"
  shows "(\<exists>b. bus_blocks s1 h = Some b \<and> cb_active b) \<and> subseq exported locals \<and>
    (\<forall>b. bus_blocks s2 h = Some b \<longrightarrow> subseq (exported @ cb_pending b) locals) \<and>
    bus_blocks (snd (handlers i f s2)) h = bus_blocks s2 h"
proof -
  obtain handle where sub: "create_subscription tr lt n local_topic (options\<lparr>receive_remote := False\<rparr>) s = (Inr handle, s1)"
    and add: "add_export alloc (if remote_topic = [] then local_topic else remote_topic) handle br = (Inr (), br1)"
    using assms(3) by (auto simp: export_topic_def Let_def split: sum.splits if_splits prod.splits)
  obtain sid k where subscribed: "subscribe local_topic (mt_type_id tr) (mt_schema_hash tr) lt (options\<lparr>receive_remote := False\<rparr>) True s =
      (Inr (sid, k), s1)" "sh_block handle = Some k"
    using sub by (auto simp: create_subscription_def split: sum.splits prod.splits)
  then obtain b where b: "control_block_new (options\<lparr>receive_remote := False\<rparr>) True = Inr b"
    and locked: "subscribe_locked local_topic (mt_type_id tr) (mt_schema_hash tr) lt b s = (Inr (sid, k), s1)"
    by (auto simp: subscribe_def split: sum.splits)
  have h: "k = h" using add assms(4) subscribed(2) by (auto simp: add_export_def split: if_splits)
  have at: "bus_blocks s1 h = Some b" using locked h by (auto elim: subscribe_locked_cases)
  have fresh: "cb_pending b = []" "cb_active b" "\<not> receive_remote (cb_options b)"
    using b by (auto simp: control_block_new_def split: if_splits)
  have "bus_ok s1" using bus_ok_subscribe [OF bus_reach_ok [OF assms(1)] locked _ assms(2)] control_block_new_ok [OF b] by blast
  then have "export_ok h [] [] s1" using at fresh by (auto simp: export_ok_def bus_ok_def)
  from export_run_ok [OF assms(6) this assms(5)] have ok: "export_ok h locals exported s2" .
  obtain posts inject lt' p topic and tr' :: "'a message_traits" where handler: "handlers i = import_handler posts inject tr' lt' p topic"
    using assms(5) by blast
  have "bus_blocks (snd (handlers i f s2)) h = bus_blocks s2 h"
  proof (cases "bus_blocks s2 h")
    case (Some c)
    then have "\<not> receive_remote (cb_options c)" using ok by (simp add: export_ok_def)
    then show ?thesis using import_handler_filtered [OF Some] Some by (simp add: handler)
  next
    case None
    have "bus_blocks (snd (publish posts t ti sh l m True s2)) h = None" for t ti sh l m
      by (cases rule: publish_cases [of posts t ti sh l m True s2]) (use None in \<open>simp_all add: case_prod_beta fan_out_domain\<close>)
    then have "bus_blocks (snd (publish_remote posts tr' lt' p m s2)) h = None" for m
      using None by (simp add: publish_remote_def publish_shared_def)
    then show ?thesis
      using None by (auto simp: handler import_handler_def split: sum.split prod.split) (metis snd_conv)+
  qed
  then show ?thesis using ok at fresh(2) by (auto simp: export_ok_def)
qed

text \<open>A topic is exported; a local message is published on it, a frame is imported, and the mailbox drained.\<close>

theorem bridge_no_echo_witness:
  "\<exists>br1 s1 h s2. export_topic True imu_traits ''ImuMsg'' node0 ''imu'' ''net'' default_options (bridge0 :: nat bridge) bus0 =
       (Inr (), br1, s1) \<and> sh_block (last (br_export_cancellers br1)) = Some h \<and>
     export_run (\<lambda>i. import_handler (\<lambda>h. Inr True) (\<lambda>m. 7) imu_traits ''ImuMsg'' \<lparr>pub_bus = True, pub_topic = ''imu''\<rparr> ''net'')
       h s1 [5] [5] s2 \<and> (\<forall>b. bus_blocks s2 h = Some b \<longrightarrow> cb_pending b = [])"
proof -
  let ?posts = "\<lambda>h. Inr True :: bool result"
  let ?import = "import_handler ?posts (\<lambda>m. 7) imu_traits ''ImuMsg'' \<lparr>pub_bus = True, pub_topic = ''imu''\<rparr> ''net''"
  let ?publish = "publish ?posts ''imu'' (mt_type_id imu_traits) (mt_schema_hash imu_traits) ''ImuMsg'' 5 False"
  obtain br1 s1 where e: "export_topic True imu_traits ''ImuMsg'' node0 ''imu'' ''net'' default_options
       (bridge0 :: nat bridge) bus0 = (Inr (), br1, s1)" "sh_block (last (br_export_cancellers br1)) = Some 0"
    and s1: "\<exists>b. bus_blocks (snd (?publish s1)) 0 = Some b \<and> cb_pending b = [5] \<and> cb_active b"
    by (simp add: export_topic_def require_configurable_def create_subscription_def require_initialized_def node0_def
        add_export_def bridge_eval bus_eval imu_traits_def publish_def live_subscriptions_def no_result_def enqueue_def block_ops
        add_outcome_def)
  let ?run = "export_run (\<lambda>i. ?import) 0 s1"
  let ?s = "snd (?import (frame0 0) (snd (?publish s1)))"
  have reach: "bus_reach (bus0 :: nat topic_bus)" "unat (bus_next_id (bus0 :: nat topic_bus)) + 1 < 2 ^ 64"
    using bus0_reach by (simp_all add: bus0_def)
  have only: "\<forall>i :: nat. \<exists>posts inject tr lt p topic. ?import = import_handler posts inject (tr :: imu_msg message_traits) lt p topic"
    by blast
  have local: "?run [5] [] (snd (?publish s1))" using export_run.Local [OF export_run.Begin, of "\<lambda>i. ?import" 0 s1 5] by simp
  then have imported: "?run [5] [] ?s" by (rule export_run.Import)
  have "bus_blocks ?s 0 = bus_blocks (snd (?publish s1)) 0"
    using bridge_no_echo [OF reach e only local] by blast
  then obtain b where b: "bus_blocks ?s 0 = Some b" "cb_pending b = [5]" "cb_active b" using s1 by metis
  then obtain b' where drain: "drain_begin 1 b = (Some 5, b')" by (simp add: drain_begin_def)
  have drained: "?run [5] [5] (?s\<lparr>bus_blocks := (bus_blocks ?s)(0 \<mapsto> b')\<rparr>)"
    using export_run.DrainBegin [OF imported b(1) drain] by simp
  have "cb_pending b' = []" using drain b by (auto simp: drain_begin_def)
  then show ?thesis using e drained by (intro exI [of _ br1] exI [of _ s1] exI [of _ 0] exI) auto
qed

end
