(* ===== verification/Spec2Isabelle.thy ===== *)
theory Spec2Isabelle
  imports Rml_Network_Message Rml_Runtime Rml_Bridge Rml_Udp Rml_Session Rml_Control_Demo Rml_Udp_Demo
    Rml_Process_Metrics Rml_Benchmark Rml_Inprocess_Demo Rml_Bridge_Server Rml_Bridge_Client Rml_Bridge_Stop
    Rml_Bridge_Link Rml_Bridge_Echo
begin

text \<open>
  \<^bold>\<open>Verification of Robot Middleware Lite\<close>

  Robot Middleware Lite is a small publish-subscribe middleware for robots in C++17. Inside a process,
  nodes publish typed messages on topics of a bus, which delivers them to bounded mailboxes drained by
  a thread pool. Between processes, messages are framed, sent over TCP or UDP and published again
  by a bridge on the other side. This development models the library under
  \<^verbatim>\<open>src/include/robot_middleware\<close> and \<^verbatim>\<open>src/src\<close>, its benchmark program
  (\<^verbatim>\<open>src/benchmark\<close>) and its demonstrations (\<^verbatim>\<open>src/demo\<close>), from their arguments to their exit codes.

  \<^bold>\<open>Parts, theories and sources.\<close> Each theory follows the order of its source; the names of definitions are
  those of the functions they translate.

  \<^item> \<open>Rml_Prelude\<close>: machine integers (\<open>u8\<close> to \<open>u64\<close>, \<open>size_t\<close> are words), exceptions as values of a sum type,
    strings, byte strings and counting lemmas.
  \<^item> \<open>Rml_Bytes\<close> (\<^verbatim>\<open>serialization/binary_codec.hpp\<close>): writer and reader of big-endian fields; the locale
    \<open>byte_source\<close> is what the codecs need of a reader.
  \<^item> \<open>Rml_Message\<close> (\<^verbatim>\<open>core/message.hpp\<close>, \<^verbatim>\<open>serialization/message_codec\<close>): the three messages, their schema
    hashes and codecs; the locale \<open>wire_message\<close> is the contract of a message type.
  \<^item> \<open>Rml_Crc\<close>, \<open>Rml_Frame\<close> (\<^verbatim>\<open>transport/frame\<close>): the checksum loop, linear and invertible, and the 56-byte header
    with its limits, encoding and decoding on real byte buffers.
  \<^item> \<open>Rml_Network_Message\<close> (\<^verbatim>\<open>serialization/network_message.hpp\<close>, \<^verbatim>\<open>transport/heartbeat.hpp\<close>): typed frames and heartbeats.
  \<^item> \<open>Rml_Queue\<close> (\<^verbatim>\<open>core/thread_safe_queue.hpp\<close>): every operation as a critical section, and the monitor with its
    two condition variables as a step relation with spurious wake-ups, timeouts and failing allocations.
  \<^item> \<open>Rml_Thread_Pool\<close> (\<^verbatim>\<open>executor\<close>): workers, posts and shutdown calls as interleaved threads over the queue.
  \<^item> \<open>Rml_Subscription\<close>, \<open>Rml_Topic_Bus\<close>, \<open>Rml_Runtime\<close> (\<^verbatim>\<open>core/runtime\<close>): the control block of a subscription with its
    mailbox and serial drain; the registry, fan-out, handles, publishers and nodes over a store of
    control blocks; construction and ordered shutdown.
  \<^item> \<open>Rml_Bridge\<close> (\<^verbatim>\<open>bridge/network_bridge\<close>): export with a bounded queue, deduplicated import, the TCP client with
    heartbeats, idle detection and backoff, stop. The connection is an argument of the client here.
  \<^item> \<open>Rml_Bridge_Echo\<close>: every run of the bus after an export; no message a bridge imports reaches an exported
    subscription.
  \<^item> \<open>Rml_Bridge_Thread\<close>: the thread of that client in the steps in which it interleaves with others, shown to compose to
    the loop of \<open>Rml_Bridge\<close>.
  \<^item> \<open>Rml_Socket\<close>: the system calls, a record \<open>os\<close> of functions on a state of the machine and the network. It is a
    parameter of all transports, and a call may have any of its documented outcomes.
  \<^item> \<open>Rml_Channel\<close>: the locales \<open>frame_source\<close>, \<open>frame_sink\<close> and \<open>frame_link\<close>, the abstract channel both transports
    implement.
  \<^item> \<open>Rml_Tcp\<close>, \<open>Rml_Descriptors\<close> (\<^verbatim>\<open>transport/tcp_transport\<close>): connection, server and client; who owns which descriptor.
  \<^item> \<open>Rml_Udp\<close> (\<^verbatim>\<open>transport/udp_transport\<close>): sender and receiver of datagrams.
  \<^item> \<open>Rml_Session\<close> (\<^verbatim>\<open>transport/session_manager\<close>): the accept loop, the session loops and the interface calls of the TCP
    server, interleaved.
  \<^item> \<open>Rml_Statistics\<close> (\<^verbatim>\<open>benchmark/statistics\<close>): percentiles with the rounding of doubles, and the tracker of sequence numbers.
  \<^item> \<open>Rml_Double\<close>, \<open>Rml_Process_Metrics\<close> (\<^verbatim>\<open>benchmark/process_metrics.hpp\<close>): the numbers doubles stand for, and the samples of
    processor time and memory the benchmark takes, with parsing, conversion and every error.
  \<^item> \<open>Rml_Bridge_Stop\<close>: the sender thread of the bridge's TCP client against a concurrent \<open>stop\<close>, down to the single
    accesses of \<open>running\<close>, of the wait mutex and of the condition variable.
  \<^item> \<open>Rml_Flow\<close>: the subscription as a flow (what is published, handled and lost), the shape in which the programs
    below use it.
  \<^item> \<open>Rml_Arguments\<close>: the command line of the programs (every program has its own copy of these helpers).
  \<^item> \<open>Rml_Control_Demo\<close> (\<^verbatim>\<open>demo/tcp_control_client.cpp\<close>, \<^verbatim>\<open>demo/tcp_control_server.cpp\<close>), \<open>Rml_Udp_Demo\<close>
    (\<^verbatim>\<open>demo/udp_sensor.cpp\<close>, \<^verbatim>\<open>demo/udp_control.cpp\<close>): the two pairs of programs over the transports.
  \<^item> \<open>Rml_Inprocess_Demo\<close> (\<^verbatim>\<open>demo/inprocess_demo.cpp\<close>): sensor, controller and actuator as two subscriptions that the
    controller's callback connects.
  \<^item> \<open>Rml_Bridge_Server\<close>, \<open>Rml_Bridge_Client\<close> (\<^verbatim>\<open>demo/bridge_server.cpp\<close>, \<^verbatim>\<open>demo/bridge_client.cpp\<close>): session manager, bridge,
    bus and subscription in one program; and publisher, subscription, bridge and client thread in the other.
  \<^item> \<open>Rml_Bridge_Link\<close>: the two programs together: the client thread over a TCP connection, and what a session of the
    server makes of the bytes.
  \<^item> \<open>Rml_Benchmark\<close> (\<^verbatim>\<open>benchmark/middleware_benchmark.cpp\<close>): command line, the two benchmarks with their threads, and the
    figures reported.

  \<^bold>\<open>State and effects.\<close> A class is a record of its fields, an operation takes the record and returns it updated,
  an exception is \<open>Inl\<close>. Objects shared between threads are one record, and a step relation
  interleaves the threads: one step is one critical section or one atomic access in the queue, the
  pool and the subscription, and one round of a loop in the session manager. Atomics are taken to be
  sequentially consistent. History fields (tasks started, messages delivered) record what
  the theorems speak about and influence nothing. Clock readings, thread creation, allocation failures
  and user callbacks are arguments.

  \<^bold>\<open>What is shown.\<close>

  \<^item> Wire format: encoding and decoding of messages and frames are inverse to each other, accepted frames obey
    the limits before anything is allocated for them, and damage that the checksum must find is found.
  \<^item> Queue and pool: first in, first out over any history; no consumer or producer sleeps for ever while it could
    go on (with one exception, an allocation failure, which is shown to lose a wake-up); counters
    are exact; a shutdown ends, runs what was accepted and accepts nothing more.
  \<^item> Subscriptions and bus: serial delivery in order, conservation of messages under both overflow policies, nothing
    delivered after a cancellation, the type contract of a topic, exact fan-out, shutdown of all parts.
  \<^item> Transports: TCP and UDP refine the abstract frame channel, for every way of cutting the stream into pieces;
    whole frames are sent; a damaged frame does not cost the next one; descriptors are balanced on every
    error path but one, which is shown to leak.
  \<^item> Session manager and bridge: active clients are counted exactly and within the limit in every reachable
    state; stopping, called in any of these states, shuts every connection down and completes with rounds and an accept
    in progress; a frame is imported at most once within a life of its publisher (as long as
    the table has room for all pairs of topic and publisher; the two situations in which it is imported again are
    stated), is not echoed in any later state, and arrives unchanged.
  \<^item> Statistics: percentiles and counters are those of their set-based reference definitions, in spite of rounding.
  \<^item> Programs: their reports and exit codes mean what they say. The bridge server's count is that of the messages
    delivered; exit status 0 of the bridge client means that every message went out, in order; the UDP report
    (packets, malformed datagrams, latencies, throughput) is that of the reference definitions for any sequence of datagrams; in the in-process demonstration no sample is lost
    unaccounted; both benchmarks get to the end with every message received under any scheduling.
  \<^item> Process metrics: wall time, processor times, load and memory are those of the two readings of the system, up to
    the stated roundings.
  \<^item> Stopping a bridge ends under any scheduling; the notification it sends can be lost, which delays it by the whole
    waiting time.
  \<^item> From bridge to bridge: the messages published on one side are delivered to the mailbox on the other, unchanged, in
    order and each once.
  \<^item> End to end, below: all commands of the demonstration client arrive at the server, which reports no loss.

  \<^bold>\<open>Bounds.\<close> A loop that the platform can prolong at will (a call interrupted by a signal is repeated) takes a bound
  on its rounds and is \<open>None\<close> when the bound is reached. How much is enough is part of the theorems: one
  round per byte of a frame for sending and receiving on a socket that has room or data, one
  round of \<open>poll\<close>. Safety theorems hold for every bound. The rank of a percentile is exact for fewer
  than \<open>2 ^ 40\<close> samples; counters of statistics wrap as 64-bit words.

  \<^bold>\<open>Not modelled.\<close> The operating system, as said, is a parameter, and so are clock readings. Output to the
  console, memory order weaker than sequential consistency, the interleaving inside a round of a
  session loop, and the Python and shell tools are left out. In the stopping of the session manager a round may
  begin before the stop and end after it. In a run of the bridge server every executor has one answer to posted tasks
  (it accepts, refuses or throws) for the whole run. The helpers repeated in several files
  (error messages and the conversion of timeouts in \<^verbatim>\<open>udp_transport.cpp\<close>, the parsing of arguments in each program)
  are modelled once.
\<close>

section \<open>Across components\<close>

text \<open>C6: The control demonstration works as a whole: when the client has sent its commands and the server reads
  the stream they make up, in pieces of any size, the server receives every one of them, accepts each as
  a control message of its topic, reports no loss, no duplicate and none out of order, and exits
  with code 0. Codec, frame, stream and statistics are all those of the library.\<close>

theorem control_commands_arrive:
  assumes "tcp_sink os1 (tc_socket_fd c1) outgoing" and "0 \<le> tc_socket_fd c1" and "tc_limits c1 = default_limits"
    and "\<forall>n. outgoing (snd (os_now os1 n)) = outgoing n" and "\<forall>t n. outgoing (sleep t n) = outgoing n"
    and "outgoing n1 = []"
    and "command_rounds (unat num_commands) fuel1 os1 sleep publisher_id period c1 0 next_send n1 = Some (Inr (), n1')"
    and "tcp_ready os2 (tc_socket_fd c2) incoming" and "0 \<le> tc_socket_fd c2" and "tc_limits c2 = default_limits"
    and "tc_receive_buffer c2 = []" and "incoming n2 = outgoing n1'" and "96 \<le> fuel2" and "0 < pf"
  shows "\<exists>st n2'. server_rounds (unat num_commands) fuel2 pf os2 c2 server_state_new n2 = Some (Inr st, c2, n2') \<and>
    server_exit num_commands st = 0 \<and>
    sequence_summary_of num_commands (sv_sequences st) =
      \<lparr>sq_expected = num_commands, sq_unique_received = num_commands, sq_lost = 0, sq_duplicates = 0, sq_out_of_order = 0,
       sq_loss_rate = 0\<rparr>"
proof -
  obtain ts where ts: "length ts = unat num_commands" "outgoing n1' = outgoing n1 @ wire_image (commands publisher_id 0 ts)"
    using command_rounds_wire [OF assms(1-3) _ _ assms(7)] assms(4,5) by blast
  then have "incoming n2 = wire_image (commands publisher_id 0 ts)" using assms(6,12) by simp
  from server_rounds_stream [OF assms(8-11,13,14) this, of server_state_new] obtain st n2' where
    run: "server_rounds (unat num_commands) fuel2 pf os2 c2 server_state_new n2 = Some (Inr st, c2, n2')"
    and st: "sv_received st = num_commands"
      "sv_sequences st = fold observe (map of_nat [0..<unat num_commands]) sequence_tracker_new"
    using ts(1) by (auto simp: server_state_new_def commands_sequences)
  have "unat num_commands < 2 ^ 64" using unsigned_less [of num_commands, where 'a = nat] by simp
  from in_order_summary [OF this] show ?thesis using run st by (simp add: server_exit_def)
qed

theorem control_commands_arrive_witness:
  "\<exists>n1 st n2. command_rounds 2 96 piecemeal (\<lambda>t n. n) 7 20000000 conn0 0 0 ([], []) = Some (Inr (), n1) \<and>
     server_rounds 2 96 1 piecemeal conn0 server_state_new (snd n1, []) = Some (Inr st, conn0, n2) \<and>
     server_exit 2 st = 0"
proof -
  have c: "0 \<le> tc_socket_fd conn0" "tc_limits conn0 = default_limits" "tc_receive_buffer conn0 = []"
    by (simp_all add: conn0_def tcp_connection_new_def)
  have "\<exists>n1. command_rounds 2 96 piecemeal (\<lambda>t n. n) 7 20000000 conn0 0 0 ([], []) = Some (Inr (), n1)"
    using c by (intro command_rounds_returns) (auto simp: piecemeal_def)
  then obtain n1 where client: "command_rounds 2 96 piecemeal (\<lambda>t n. n) 7 20000000 conn0 0 0 ([], []) = Some (Inr (), n1)"
    by blast
  have quiet: "\<forall>n. snd (snd (os_now piecemeal n)) = snd n" by (simp add: piecemeal_def)
  have "\<exists>st n2. server_rounds 2 96 1 piecemeal conn0 server_state_new (snd n1, []) = Some (Inr st, conn0, n2) \<and>
      server_exit 2 st = 0"
    using control_commands_arrive [OF piecemeal_sink c(1,2) quiet _ _ _ piecemeal_ready c,
        of "\<lambda>t n. n" "([], [])" 2 96 7 20000000 0 n1 "(snd n1, [])" 96 1] client
    by auto
  then show ?thesis using client by auto
qed

end
